(* ===== verification/Prelude.thy ===== *)
theory Prelude
  imports Main "HOL-Library.Word" "HOL-Library.Signed_Division"
begin

unbundle bit_operations_syntax

text \<open>
  Shared vocabulary of the development: the fixed-width integer types of
  kernel/types.h, the outcome of a piece of kernel code (it returns, or control leaves it
  for good), singly linked lists in a heap of 32-bit addresses with 0 as the null pointer,
  two locales for the loops that walk such lists, and lemmas on words and array shifts.
\<close>

section \<open>Integers of kernel/types.h\<close>

type_synonym u8 = "8 word"
type_synonym u16 = "16 word"
type_synonym u32 = "32 word"
type_synonym u64 = "64 word"

lemma unat_u32: "unat (n :: u32) < 4294967296"
  using unsigned_less [of n] by simp

lemma take_bit_unat_u32 [simp]: "take_bit 32 (unat (n :: u32)) = unat n"
  using unat_u32 [of n] by (simp add: take_bit_eq_mod)

lemma unat_u64: "unat (n :: u64) < 18446744073709551616"
  using unsigned_less [of n] by simp

lemma unat_u16: "unat (n :: u16) < 65536"
  using unsigned_less [of n] by simp

text \<open>Literal masks of the code as masks, so that \<open>bit_simps\<close> can read them.\<close>

named_theorems mask_lits

lemma mask_lit_simps [mask_lits]:
  "(0x3 :: 'a::len word) = mask 2" "(0xF :: 'a::len word) = mask 4"
  "(0xFF :: 'a::len word) = mask 8" "(0x3FF :: 'a::len word) = mask 10"
  "(0xFFF :: 'a::len word) = mask 12" "(0xFFFF :: 'a::len word) = mask 16"
  "(0xFFFFF :: 'a::len word) = mask 20" "(0xF0 :: u8) = push_bit 4 (mask 4)"
  "(0xFFFFF000 :: u32) = NOT (mask 12)"
  by (simp_all add: mask_eq_exp_minus_1)

text \<open>A C string literal as its bytes, without the terminating NUL.\<close>

definition str_bytes :: "string \<Rightarrow> u8 list" where
  "str_bytes cs = map of_char cs"

section \<open>Outcomes\<close>

text \<open>
  A kernel routine either returns a value in a new state, or stops for good: it resumes a
  process (restore_esp never comes back), halts the processor, takes a page fault, reaches
  behaviour the C standard leaves undefined, or loops for ever. The state is the one at
  that moment.
\<close>

datatype stop_reason =
    Resume u32
  | Halted
  | Page_fault u32
  | Undefined
  | Diverges

datatype ('s, 'a) outcome = Ret 's 'a | Stop 's stop_reason

primrec bind_out :: "('s, 'a) outcome \<Rightarrow> ('s \<Rightarrow> 'a \<Rightarrow> ('s, 'b) outcome) \<Rightarrow> ('s, 'b) outcome" where
  "bind_out (Ret s a) k = k s a"
| "bind_out (Stop s r) k = Stop s r"

primrec out_state :: "('s, 'a) outcome \<Rightarrow> 's" where
  "out_state (Ret s a) = s"
| "out_state (Stop s r) = s"

primrec returns :: "('s, 'a) outcome \<Rightarrow> bool" where
  "returns (Ret s a) = True"
| "returns (Stop s r) = False"

text \<open>A loop result of \<open>None\<close> means that the loop does not end.\<close>

definition out_loop :: "'s \<Rightarrow> 'a option \<Rightarrow> ('s, 'a) outcome" where
  "out_loop s r = (case r of None \<Rightarrow> Stop s Diverges | Some a \<Rightarrow> Ret s a)"

lemma out_loop_simps [simp]:
  "out_loop s None = Stop s Diverges" "out_loop s (Some a) = Ret s a"
  by (simp_all add: out_loop_def)

text \<open>A loop whose body can stop the kernel: \<open>None\<close> again means no end.\<close>

definition run_loop :: "'s \<Rightarrow> ('s, 'a) outcome option \<Rightarrow> ('s, 'a) outcome" where
  "run_loop s r = (case r of None \<Rightarrow> Stop s Diverges | Some m \<Rightarrow> m)"

lemma run_loop_simps [simp]: "run_loop s None = Stop s Diverges" "run_loop s (Some m) = m"
  by (simp_all add: run_loop_def)

text \<open>The first \<open>n\<close> rounds of an endless loop that carries a value.\<close>

fun rounds :: "nat \<Rightarrow> ('a \<Rightarrow> 's \<Rightarrow> ('s, 'a) outcome) \<Rightarrow> 'a \<Rightarrow> 's \<Rightarrow> ('s, 'a) outcome" where
  "rounds 0 f a s = Ret s a"
| "rounds (Suc n) f a s = bind_out (f a s) (\<lambda>s a. rounds n f a s)"

lemma bind_out_assoc:
  "bind_out (bind_out m f) g = bind_out m (\<lambda>s a. bind_out (f s a) g)"
  by (cases m) auto

lemma bind_out_eq_Ret:
  "bind_out m f = Ret s b \<longleftrightarrow> (\<exists>s' a. m = Ret s' a \<and> f s' a = Ret s b)"
  by (cases m) auto

section \<open>Linked lists in a heap of addresses\<close>

primrec path :: "(u32 \<Rightarrow> u32) \<Rightarrow> u32 \<Rightarrow> u32 list \<Rightarrow> u32 \<Rightarrow> bool" where
  "path nx p [] q \<longleftrightarrow> p = q"
| "path nx p (a # as) q \<longleftrightarrow> p = a \<and> a \<noteq> 0 \<and> path nx (nx a) as q"

definition chain :: "(u32 \<Rightarrow> u32) \<Rightarrow> u32 \<Rightarrow> u32 list \<Rightarrow> bool" where
  "chain nx p as \<longleftrightarrow> path nx p as 0"

lemma path_append [simp]:
  "path nx p (as @ bs) q \<longleftrightarrow> (\<exists>r. path nx p as r \<and> path nx r bs q)"
  by (induction as arbitrary: p) auto

lemma path_upd [simp]: "u \<notin> set as \<Longrightarrow> path (nx(u := v)) p as q = path nx p as q"
  by (induction as arbitrary: p) auto

lemma path_cong: "(\<And>a. a \<in> set as \<Longrightarrow> nx a = nx' a) \<Longrightarrow> path nx p as q = path nx' p as q"
  by (induction as arbitrary: p) auto

lemma path_nonnull: "path nx p as q \<Longrightarrow> 0 \<notin> set as"
  by (induction as arbitrary: p) auto

lemma chain_Nil [simp]: "chain nx p [] \<longleftrightarrow> p = 0"
  by (simp add: chain_def)

lemma chain_Cons [simp]: "chain nx p (a # as) \<longleftrightarrow> p = a \<and> a \<noteq> 0 \<and> chain nx (nx a) as"
  by (simp add: chain_def)

lemma chain_null [simp]: "chain nx 0 as \<longleftrightarrow> as = []"
  by (cases as) auto

lemma chain_append: "chain nx p (as @ bs) \<longleftrightarrow> (\<exists>r. path nx p as r \<and> chain nx r bs)"
  by (simp add: chain_def)

lemma chain_upd [simp]: "u \<notin> set as \<Longrightarrow> chain (nx(u := v)) p as = chain nx p as"
  by (simp add: chain_def)

lemma chain_cong: "(\<And>a. a \<in> set as \<Longrightarrow> nx a = nx' a) \<Longrightarrow> chain nx p as = chain nx' p as"
  unfolding chain_def by (rule path_cong)

lemma chain_nonnull: "chain nx p as \<Longrightarrow> 0 \<notin> set as"
  unfolding chain_def by (rule path_nonnull)

lemma chain_unique: "chain nx p as \<Longrightarrow> chain nx p bs \<Longrightarrow> as = bs"
proof (induction as arbitrary: p bs)
  case Nil
  then show ?case by simp
next
  case (Cons a as)
  then show ?case by (cases bs) auto
qed

lemma chain_hd_notin_tl: "chain nx (nx a) as \<Longrightarrow> a \<notin> set as"
proof
  assume c: "chain nx (nx a) as" and "a \<in> set as"
  then obtain bs cs where as: "as = bs @ a # cs"
    by (meson split_list)
  with c have "chain nx (nx a) cs" by (auto simp: chain_append)
  with c have "as = cs" by (rule chain_unique)
  with as show False by simp
qed

lemma chain_distinct: "chain nx p as \<Longrightarrow> distinct as"
  by (induction as arbitrary: p) (auto dest: chain_hd_notin_tl)

lemma chain_tail_at:
  "chain nx p (as @ b # bs) \<Longrightarrow> chain nx (nx b) bs"
  by (auto simp: chain_append)

lemma chain_set_next:
  "chain nx p (as @ b # bs) \<Longrightarrow> chain nx' (nx' b) cs \<Longrightarrow>
   (\<And>a. a \<in> set as \<Longrightarrow> nx' a = nx a) \<Longrightarrow> chain nx' p (as @ b # cs)"
proof -
  assume c: "chain nx p (as @ b # bs)" and t: "chain nx' (nx' b) cs"
    and e: "\<And>a. a \<in> set as \<Longrightarrow> nx' a = nx a"
  from c have pb: "path nx p as b" and "b \<noteq> 0" by (auto simp: chain_append)
  moreover from pb have "path nx' p as b" using path_cong [of as nx' nx p b] e by blast
  ultimately show ?thesis using t by (auto simp: chain_append)
qed

section \<open>Loops over linked lists\<close>

text \<open>
  A search loop tests the current pointer and either ends with a result or follows one
  link. Every \<open>while (p != NULL)\<close> search of the sources is an instance; its client
  lemma is the result on a well-formed list, which includes that the loop ends.
\<close>

fun first_hit :: "('a \<Rightarrow> 'r option) \<Rightarrow> 'r \<Rightarrow> 'a list \<Rightarrow> 'r" where
  "first_hit h r [] = r"
| "first_hit h r (a # as) = (case h a of Some x \<Rightarrow> x | None \<Rightarrow> first_hit h r as)"

lemma first_hit_cong:
  "(\<And>a. a \<in> set as \<Longrightarrow> h a = h' a) \<Longrightarrow> first_hit h r as = first_hit h' r as"
  by (induction as) (auto split: option.splits)

lemma first_hit_append:
  "first_hit h r (as @ bs) = first_hit h (first_hit h r bs) as"
  by (induction as) (auto split: option.splits)

locale pointer_search =
  fixes loop :: "'h \<Rightarrow> u32 \<Rightarrow> 'r option"
    and nx :: "'h \<Rightarrow> u32 \<Rightarrow> u32"
    and hit :: "'h \<Rightarrow> u32 \<Rightarrow> 'r option"
  assumes loop_step:
    "loop h p = (case hit h p of Some r \<Rightarrow> Some r | None \<Rightarrow> loop h (nx h p))"
begin

lemma search_path:
  "path (nx h) p as q \<Longrightarrow> hit h q = Some r \<Longrightarrow> loop h p = Some (first_hit (hit h) r as)"
proof (induction as arbitrary: p)
  case Nil
  then show ?case by (subst loop_step) simp
next
  case (Cons a as)
  then show ?case
    by (subst loop_step) (auto split: option.splits)
qed

lemma search_chain:
  "chain (nx h) p as \<Longrightarrow> hit h 0 = Some r \<Longrightarrow> loop h p = Some (first_hit (hit h) r as)"
  unfolding chain_def by (rule search_path)

lemma search_ends: "path (nx h) p as q \<Longrightarrow> hit h q \<noteq> None \<Longrightarrow> \<exists>r. loop h p = Some r"
  using search_path by blast

end

text \<open>
  A sweep visits every node of a list; a visit updates the state, may stop the kernel and
  does not touch the links.
\<close>

locale pointer_sweep =
  fixes loop :: "'h \<Rightarrow> u32 \<Rightarrow> ('h, unit) outcome option"
    and nx :: "'h \<Rightarrow> u32 \<Rightarrow> u32"
    and visit :: "u32 \<Rightarrow> 'h \<Rightarrow> ('h, unit) outcome"
  assumes loop_step:
    "loop h p = (if p = 0 then Some (Ret h ()) else
       (case visit p h of Ret h' u \<Rightarrow> loop h' (nx h' p) | Stop h' r \<Rightarrow> Some (Stop h' r)))"
    and visit_links: "visit p h = Ret h' u \<Longrightarrow> nx h' = nx h"
begin

lemma sweep_chain:
  "chain (nx h) p as \<Longrightarrow>
   loop h p = Some (fold (\<lambda>a out. bind_out out (\<lambda>s _. visit a s)) as (Ret h ()))"
proof (induction as arbitrary: p h)
  case Nil
  then show ?case by (subst loop_step) simp
next
  case (Cons a as)
  have stop: "fold (\<lambda>a out. bind_out out (\<lambda>s _. visit a s)) as (Stop h r) = Stop h r" for h r
    by (induction as) simp_all
  show ?case
  proof (cases "visit a h")
    case (Ret h' u)
    then have "loop h' (nx h' a) = Some (fold (\<lambda>a out. bind_out out (\<lambda>s _. visit a s)) as (Ret h' ()))"
      using Cons visit_links [OF Ret] by simp
    with Ret Cons.prems show ?thesis by (subst loop_step) simp
  next
    case (Stop h' r)
    with Cons.prems show ?thesis by (subst loop_step) (simp add: stop)
  qed
qed

end

section \<open>Array shifts\<close>

text \<open>The loops \<open>for (k = n; k > b; k--) m[k] = m[k-1]\<close> and
  \<open>for (k = a; k <= b; k++) m[k] = m[k+1]\<close>.\<close>

definition shift_up :: "int \<Rightarrow> int \<Rightarrow> (int \<Rightarrow> 'a) \<Rightarrow> int \<Rightarrow> 'a" where
  "shift_up b n m = fold (\<lambda>k m. m(k := m (k - 1))) (rev [b + 1..n]) m"

definition shift_down :: "int \<Rightarrow> int \<Rightarrow> (int \<Rightarrow> 'a) \<Rightarrow> int \<Rightarrow> 'a" where
  "shift_down a b m = fold (\<lambda>k m. m(k := m (k + 1))) [a..b] m"

lemma shift_up_eq: "shift_up b n m = (\<lambda>k. if b < k \<and> k \<le> n then m (k - 1) else m k)"
proof (induction "nat (n - b)" arbitrary: n m)
  case 0
  then show ?case by (auto simp: shift_up_def fun_eq_iff)
next
  case (Suc d)
  then have "b + 1 \<le> n" by linarith
  then have u: "shift_up b n m = shift_up b (n - 1) (m(n := m (n - 1)))"
    by (simp add: shift_up_def upto_rec2)
  have "shift_up b (n - 1) (m(n := m (n - 1))) =
    (\<lambda>k. if b < k \<and> k \<le> n - 1 then (m(n := m (n - 1))) (k - 1) else (m(n := m (n - 1))) k)"
    using Suc.hyps(2) by (intro Suc.hyps(1)) linarith
  with u \<open>b + 1 \<le> n\<close> show ?case by (auto simp: fun_eq_iff)
qed

lemma shift_down_eq: "shift_down a b m = (\<lambda>k. if a \<le> k \<and> k \<le> b then m (k + 1) else m k)"
proof (induction "nat (b - a + 1)" arbitrary: a m)
  case 0
  then show ?case by (auto simp: shift_down_def fun_eq_iff)
next
  case (Suc d)
  then have "a \<le> b" by linarith
  then have u: "shift_down a b m = shift_down (a + 1) b (m(a := m (a + 1)))"
    by (simp add: shift_down_def upto_rec1)
  have "shift_down (a + 1) b (m(a := m (a + 1))) =
    (\<lambda>k. if a + 1 \<le> k \<and> k \<le> b then (m(a := m (a + 1))) (k + 1) else (m(a := m (a + 1))) k)"
    using Suc.hyps(2) by (intro Suc.hyps(1)) linarith
  with u \<open>a \<le> b\<close> show ?case by (auto simp: fun_eq_iff)
qed

end
