(* ===== verification/Machine.thy ===== *)
theory Machine
  imports Prelude
begin

text \<open>
  The processor interface of kernel/asm_operation.h: every privileged or I/O instruction
  leaves an event in a trace, and \<open>inb\<close> takes the next byte the device has ready (an open
  bus reads 0xFF).
\<close>

section \<open>Hardware events\<close>

datatype hw_event =
    Outb u16 u8
  | Inb u16
  | Cli
  | Sti
  | Hlt
  | Invlpg u32
  | Lidt u16 u32
  | Lgdt u16 u32
  | Ltr u16
  | Load_cr3 u32
  | Enable_paging

record hw =
  hw_trace :: "hw_event list"
  port_in :: "u16 \<Rightarrow> u8 list"

definition emit :: "hw_event \<Rightarrow> 'a hw_scheme \<Rightarrow> 'a hw_scheme" where
  "emit e s = s\<lparr>hw_trace := hw_trace s @ [e]\<rparr>"

section \<open>kernel/asm_operation.h\<close>

definition cli :: "'a hw_scheme \<Rightarrow> 'a hw_scheme" where
  "cli s = emit Cli s"

definition sti :: "'a hw_scheme \<Rightarrow> 'a hw_scheme" where
  "sti s = emit Sti s"

definition inb :: "u16 \<Rightarrow> 'a hw_scheme \<Rightarrow> u8 \<times> 'a hw_scheme" where
  "inb port s = (case port_in s port of
      [] \<Rightarrow> (0xFF, emit (Inb port) s)
    | b # bs \<Rightarrow> (b, emit (Inb port) (s\<lparr>port_in := (port_in s)(port := bs)\<rparr>)))"

definition outb :: "u16 \<Rightarrow> u8 \<Rightarrow> 'a hw_scheme \<Rightarrow> 'a hw_scheme" where
  "outb port val s = emit (Outb port val) s"

definition invlpg :: "u32 \<Rightarrow> 'a hw_scheme \<Rightarrow> 'a hw_scheme" where
  "invlpg a s = emit (Invlpg a) s"

definition hlt :: "'a hw_scheme \<Rightarrow> 'a hw_scheme" where
  "hlt s = emit Hlt s"

lemmas hw_ops = cli_def sti_def outb_def invlpg_def hlt_def emit_def

definition boot_hw :: hw where
  "boot_hw = \<lparr>hw_trace = [], port_in = (\<lambda>_. [])\<rparr>"

end
