(* ===== verification/Vga.thy ===== *)
theory Vga
  imports Machine
begin

text \<open>
  The text console of kernel/vga.c. \<open>vram\<close> is the memory at 0xB8000 by byte offset (any
  integer: the code does not check the cell index, so a stray cursor writes outside the
  4000 bytes of the screen); \<open>scr_i\<close> and \<open>scr_j\<close> are the globals i and j of
  kernel/kernel.c. Routines that take a pointer to a cursor take its value and return the
  new one. Functional lemmas say what appears where; the invariant says that every output
  routine keeps the cursor on the screen and never writes outside it.
\<close>

section \<open>State\<close>

record screen = hw +
  vram :: "int \<Rightarrow> u8"
  scr_i :: int
  scr_j :: int

text \<open>Access to the screen as 16-bit cells (\<open>unsigned short *vga\<close>, little endian).\<close>

definition vga_get :: "(int \<Rightarrow> u8) \<Rightarrow> int \<Rightarrow> u16" where
  "vga_get v k = push_bit 8 (ucast (v (2 * k + 1))) OR ucast (v (2 * k))"

definition vga_set :: "(int \<Rightarrow> u8) \<Rightarrow> int \<Rightarrow> u16 \<Rightarrow> int \<Rightarrow> u8" where
  "vga_set v k w = v(2 * k := ucast w, 2 * k + 1 := ucast (drop_bit 8 w))"

section \<open>Operations\<close>

definition move :: "u16 \<Rightarrow> 'a hw_scheme \<Rightarrow> 'a hw_scheme" where
  "move pos s =
     outb 0x3D5 (ucast (drop_bit 8 pos AND 0xFF))
      (outb 0x3D4 0x0E
        (outb 0x3D5 (ucast (pos AND 0xFF))
          (outb 0x3D4 0x0F s)))"

definition print :: "u8 \<Rightarrow> int \<Rightarrow> 'a screen_scheme \<Rightarrow> 'a screen_scheme" where
  "print c i s = s\<lparr>vram := (vram s)(2 * i := c, 2 * i + 1 := 0x0F)\<rparr>"

definition clear :: "int \<Rightarrow> 'a screen_scheme \<Rightarrow> 'a screen_scheme" where
  "clear i s = s\<lparr>vram := (vram s)(2 * i := 0x20)\<rparr>"

definition copy_row :: "int \<Rightarrow> (int \<Rightarrow> u8) \<Rightarrow> int \<Rightarrow> u8" where
  "copy_row row v =
     fold (\<lambda>col v. vga_set v ((row - 1) * 80 + col) (vga_get v (row * 80 + col))) [0..79] v"

definition blank_cell :: u16 where
  "blank_cell = push_bit 8 0x0F OR 0x20"

definition scroll :: "(int \<Rightarrow> u8) \<Rightarrow> int \<Rightarrow> u8" where
  "scroll v =
     fold (\<lambda>col v. vga_set v (24 * 80 + col) blank_cell) [0..79] (fold copy_row [1..24] v)"

definition add_line :: "int \<Rightarrow> 'a screen_scheme \<Rightarrow> int \<times> 'a screen_scheme" where
  "add_line cursor s =
     (if cursor \<ge> 2000 then cursor - 80 else cursor, s\<lparr>vram := scroll (vram s)\<rparr>)"

definition add_line_if_needed :: "int \<Rightarrow> 'a screen_scheme \<Rightarrow> int \<times> 'a screen_scheme" where
  "add_line_if_needed cursor s = (if cursor \<ge> 2000 then add_line cursor s else (cursor, s))"

text \<open>The three statements every number and message loop repeats: make room, print, advance.\<close>

fun put_char :: "u8 \<Rightarrow> int \<times> 'a screen_scheme \<Rightarrow> int \<times> 'a screen_scheme" where
  "put_char c (i, s) = (let (i, s) = add_line_if_needed i s in (i + 1, print c i s))"

text \<open>\<open>unsigned long\<close> is 32 bits wide under \<^verbatim>\<open>-m32\<close>.\<close>

function digit_buffer :: "u32 \<Rightarrow> u8 list \<Rightarrow> u8 list" where
  "digit_buffer n buf =
     (if n > 0 then digit_buffer (n div 10) (buf @ [ucast (n mod 10) + 0x30]) else buf)"
  by pat_completeness auto
termination
proof (relation "measure (\<lambda>(n, buf). unat n)")
  fix n :: u32 assume "0 < n"
  then have "0 < unat n" by (simp add: unat_gt_0 word_gt_0)
  then show "((n div 10, buf @ [ucast (n mod 10) + 0x30]), n, buf) \<in> measure (\<lambda>(n, buf). unat n)"
    for buf :: "u8 list"
    by (simp add: unat_div)
qed simp

declare digit_buffer.simps [simp del]

definition print_number :: "u32 \<Rightarrow> int \<Rightarrow> 'a screen_scheme \<Rightarrow> int \<times> 'a screen_scheme" where
  "print_number n i s =
     (if n = 0 then
        let (i, s) = put_char 0x30 (i, s) in add_line_if_needed i s
      else
        let (i, s) = fold put_char (rev (digit_buffer n [])) (i, s) in add_line_if_needed i s)"

definition print_time_message :: "u8 list \<Rightarrow> int \<Rightarrow> 'a screen_scheme \<Rightarrow> 'a screen_scheme" where
  "print_time_message str i s = snd (fold put_char str (i, s))"

fun print_string_char ::
  "u8 \<Rightarrow> int \<times> int \<times> 'a screen_scheme \<Rightarrow> int \<times> int \<times> 'a screen_scheme" where
  "print_string_char c (i, j, s) =
     (if c = 10 then
        let i = i + (80 - i smod 80); j = 0;
            (i, s) = add_line_if_needed i s
        in (i, j, s)
      else
        let (i, s) = add_line_if_needed i s;
            s = print c i s;
            i = i + 1;
            j = j + 1;
            (i, s) = add_line_if_needed i s
        in (i, j, s))"

definition print_string ::
  "u8 list \<Rightarrow> int \<Rightarrow> int \<Rightarrow> 'a screen_scheme \<Rightarrow> int \<times> int \<times> 'a screen_scheme" where
  "print_string str i j s =
     (let (i, j, s) = fold print_string_char str (i, j, s) in (i, j, move (word_of_int i) s))"

definition clear_screen :: "'a screen_scheme \<Rightarrow> 'a screen_scheme" where
  "clear_screen s = s\<lparr>vram := fold (\<lambda>i v. vga_set v i 0x0720) [0..1999] (vram s)\<rparr>"

definition hex_digits :: "u8 list" where
  "hex_digits = str_bytes ''0123456789ABCDEF''"

definition print_hex :: "u32 \<Rightarrow> int \<Rightarrow> 'a screen_scheme \<Rightarrow> int \<times> 'a screen_scheme" where
  "print_hex n i s =
     (let (i, s) = put_char 0x78 (put_char 0x30 (i, s));
          (i, s) = fold (\<lambda>shift. put_char (hex_digits ! unat (drop_bit shift n AND 0xF)))
                     [28, 24, 20, 16, 12, 8, 4, 0] (i, s)
      in add_line_if_needed i s)"

text \<open>The calls with \<open>&i\<close> and \<open>&j\<close>: the cursor is the pair of globals.\<close>

definition kprint :: "u8 list \<Rightarrow> 'a screen_scheme \<Rightarrow> 'a screen_scheme" where
  "kprint str s =
     (let (i, j, s) = print_string str (scr_i s) (scr_j s) s in s\<lparr>scr_i := i, scr_j := j\<rparr>)"

definition kprint_number :: "u32 \<Rightarrow> 'a screen_scheme \<Rightarrow> 'a screen_scheme" where
  "kprint_number n s = (let (i, s) = print_number n (scr_i s) s in s\<lparr>scr_i := i\<rparr>)"

definition kprint_hex :: "u32 \<Rightarrow> 'a screen_scheme \<Rightarrow> 'a screen_scheme" where
  "kprint_hex n s = (let (i, s) = print_hex n (scr_i s) s in s\<lparr>scr_i := i\<rparr>)"

definition boot_screen :: screen where
  "boot_screen = hw.extend boot_hw (screen.fields (\<lambda>_. 0) 400 0)"


section \<open>Scrolling\<close>

lemma vga_set_get:
  "vga_set v a (vga_get v b) = v(2 * a := v (2 * b), 2 * a + 1 := v (2 * b + 1))"
proof -
  have lo: "ucast (push_bit 8 (ucast x) OR ucast y :: u16) = y" for x y :: u8
    by (rule bit_word_eqI) (auto simp: bit_simps)
  have hi: "ucast (drop_bit 8 (push_bit 8 (ucast x) OR ucast y :: u16)) = x" for x y :: u8
    by (rule bit_word_eqI) (auto simp: bit_simps dest: bit_imp_le_length)
  show ?thesis by (simp only: vga_set_def vga_get_def lo hi)
qed

lemma blank_cell_bytes: "vga_set v k blank_cell = v(2 * k := 0x20, 2 * k + 1 := 0x0F)"
proof -
  have "ucast blank_cell = (0x20 :: u8)" "ucast (drop_bit 8 blank_cell) = (0x0F :: u8)"
    by (simp_all add: blank_cell_def)
  then show ?thesis by (simp only: vga_set_def)
qed

lemma copy_cells:
  "0 \<le> n \<Longrightarrow>
   fold (\<lambda>col v. vga_set v (a + col) (vga_get v (a + 80 + col))) [0..n - 1] v =
   (\<lambda>x. if 2 * a \<le> x \<and> x < 2 * (a + n) then v (x + 160) else v x)"
proof (induction "nat n" arbitrary: n)
  case 0
  then show ?case by (auto simp: fun_eq_iff)
next
  case (Suc d)
  let ?f = "\<lambda>col v. vga_set v (a + col) (vga_get v (a + 80 + col))"
  let ?w = "\<lambda>x. if 2 * a \<le> x \<and> x < 2 * (a + (n - 1)) then v (x + 160) else v x"
  have n: "1 \<le> n" using Suc.hyps(2) by linarith
  have IH: "fold ?f [0..n - 1 - 1] v = ?w"
    using Suc.hyps n by (intro Suc.hyps(1)) linarith+
  have e: "[0..n - 1] = [0..n - 1 - 1] @ [n - 1]"
    using n by (simp add: upto_rec2)
  have "fold ?f [0..n - 1] v = ?f (n - 1) ?w"
    unfolding e by (simp only: fold_append o_apply fold_simps IH)
  also have "\<dots> = (\<lambda>x. if 2 * a \<le> x \<and> x < 2 * (a + n) then v (x + 160) else v x)"
    unfolding vga_set_get
  proof (rule ext)
    fix x
    let ?b = "a + 80 + (n - 1)"
    have "2 * ?b = 2 * (a + (n - 1)) + 160" by simp
    then show "(?w(2 * (a + (n - 1)) := ?w (2 * ?b), 2 * (a + (n - 1)) + 1 := ?w (2 * ?b + 1))) x =
      (if 2 * a \<le> x \<and> x < 2 * (a + n) then v (x + 160) else v x)"
      using n by (cases "x = 2 * (a + (n - 1)) \<or> x = 2 * (a + (n - 1)) + 1") (auto simp: add.commute)
  qed
  finally show ?case .
qed

lemma copy_row_eq:
  "copy_row r v = (\<lambda>x. if 160 * (r - 1) \<le> x \<and> x < 160 * r then v (x + 160) else v x)"
proof -
  have "copy_row r v = fold (\<lambda>col v. vga_set v ((r - 1) * 80 + col)
      (vga_get v ((r - 1) * 80 + 80 + col))) [0..80 - 1] v"
  proof -
    have "(80::int) - 1 = 79" "(r - 1) * 80 + 80 = r * 80" by simp_all
    then show ?thesis by (simp only: copy_row_def)
  qed
  also have "\<dots> = (\<lambda>x. if 2 * ((r - 1) * 80) \<le> x \<and> x < 2 * ((r - 1) * 80 + 80) then v (x + 160) else v x)"
    by (rule copy_cells) simp
  finally show ?thesis by (simp add: left_diff_distrib right_diff_distrib)
qed

lemma copy_rows_eq:
  "fold copy_row [1..int n] v = (\<lambda>x. if 0 \<le> x \<and> x < 160 * int n then v (x + 160) else v x)"
proof (induction n)
  case 0
  show ?case by (auto simp: fun_eq_iff)
next
  case (Suc n)
  have "[1..int (Suc n)] = [1..int n] @ [int (Suc n)]"
    using upto_rec2 [of 1 "int (Suc n)"] by simp
  then have "fold copy_row [1..int (Suc n)] v = copy_row (int (Suc n)) (fold copy_row [1..int n] v)"
    by simp
  also have "\<dots> = (\<lambda>x. if 0 \<le> x \<and> x < 160 * int (Suc n) then v (x + 160) else v x)"
    unfolding Suc.IH copy_row_eq by (auto simp: fun_eq_iff)
  finally show ?case .
qed

lemma blank_cells:
  "0 \<le> n \<Longrightarrow>
   fold (\<lambda>col v. vga_set v (a + col) blank_cell) [0..n - 1] v =
   (\<lambda>x. if 2 * a \<le> x \<and> x < 2 * (a + n) then (if even x then 0x20 else 0x0F) else v x)"
proof (induction "nat n" arbitrary: n)
  case 0
  then show ?case by (auto simp: fun_eq_iff)
next
  case (Suc d)
  let ?f = "\<lambda>col v. vga_set v (a + col) blank_cell"
  let ?w = "\<lambda>x. if 2 * a \<le> x \<and> x < 2 * (a + (n - 1)) then (if even x then 0x20 else 0x0F) else v x"
  have n: "1 \<le> n" using Suc.hyps(2) by linarith
  have IH: "fold ?f [0..n - 1 - 1] v = ?w"
    using Suc.hyps n by (intro Suc.hyps(1)) linarith+
  have e: "[0..n - 1] = [0..n - 1 - 1] @ [n - 1]"
    using n by (simp add: upto_rec2)
  have "fold ?f [0..n - 1] v = ?f (n - 1) ?w"
    unfolding e by (simp only: fold_append o_apply fold_simps IH)
  also have "\<dots> = (\<lambda>x. if 2 * a \<le> x \<and> x < 2 * (a + n) then (if even x then 0x20 else 0x0F) else v x)"
    unfolding blank_cell_bytes
  proof (rule ext)
    fix x
    show "(?w(2 * (a + (n - 1)) := 0x20, 2 * (a + (n - 1)) + 1 := 0x0F)) x =
      (if 2 * a \<le> x \<and> x < 2 * (a + n) then (if even x then 0x20 else 0x0F) else v x)"
      using n by (cases "x = 2 * (a + n) - 2 \<or> x = 2 * (a + n) - 1") auto
  qed
  finally show ?case .
qed

lemma scroll_eq:
  "scroll v = (\<lambda>x. if 0 \<le> x \<and> x < 3840 then v (x + 160)
                   else if 3840 \<le> x \<and> x < 4000 then (if even x then 0x20 else 0x0F)
                   else v x)"
proof -
  have e: "(80::int) - 1 = 79" "int 24 = 24" by simp_all
  have r: "fold copy_row [1..24] v = (\<lambda>x. if 0 \<le> x \<and> x < 3840 then v (x + 160) else v x)"
    using copy_rows_eq [of 24 v] by (simp only: e) simp
  have "scroll v = (\<lambda>x. if 2 * (24 * 80) \<le> x \<and> x < 2 * (24 * 80 + 80)
      then (if even x then 0x20 else 0x0F) else fold copy_row [1..24] v x)"
    unfolding scroll_def by (rule blank_cells [of 80 "24 * 80", simplified e(1)]) simp
  then show ?thesis by (auto simp: r)
qed

section \<open>Frames and cursor bounds\<close>

definition on_screen :: "int \<Rightarrow> bool" where
  "on_screen i \<longleftrightarrow> 0 \<le> i \<and> i < 2000"

definition vram_frame :: "'a screen_scheme \<Rightarrow> 'a screen_scheme \<Rightarrow> bool" where
  "vram_frame s s' \<longleftrightarrow>
     s' = s\<lparr>vram := vram s'\<rparr> \<and> (\<forall>x. x < 0 \<or> 4000 \<le> x \<longrightarrow> vram s' x = vram s x)"

lemma vram_frame_refl [simp]: "vram_frame s s"
  by (simp add: vram_frame_def)

lemma vram_frame_trans: "vram_frame s t \<Longrightarrow> vram_frame t u \<Longrightarrow> vram_frame s u"
  unfolding vram_frame_def
  by (metis screen.surjective screen.update_convs(1))

text \<open>
  An output device repeats one step per character. If the step keeps a state well formed
  and stays inside a transitive frame, so does the whole output.
\<close>

locale output_device =
  fixes step :: "'c \<Rightarrow> 'st \<Rightarrow> 'st"
    and ok :: "'st \<Rightarrow> bool"
    and within :: "'st \<Rightarrow> 'st \<Rightarrow> bool"
  assumes step_ok: "ok st \<Longrightarrow> ok (step c st)"
    and step_within: "ok st \<Longrightarrow> within st (step c st)"
    and within_refl: "within st st"
    and within_trans: "within a b \<Longrightarrow> within b d \<Longrightarrow> within a d"
begin

lemma output_ok: "ok st \<Longrightarrow> ok (fold step cs st)"
  by (induction cs arbitrary: st) (auto intro: step_ok)

lemma output_within: "ok st \<Longrightarrow> within st (fold step cs st)"
  by (induction cs arbitrary: st)
    (auto intro: within_refl within_trans step_within step_ok)

end

lemma scroll_frame: "vram_frame s (s\<lparr>vram := scroll (vram s)\<rparr>)"
  by (simp add: vram_frame_def scroll_eq)

lemma print_frame: "on_screen i \<Longrightarrow> vram_frame s (print c i s)"
  by (auto simp: vram_frame_def print_def on_screen_def)

lemma add_line_if_needed_bounds:
  "0 \<le> i \<Longrightarrow> i \<le> 2000 \<Longrightarrow> add_line_if_needed i s = (i', s') \<Longrightarrow> on_screen i' \<and> vram_frame s s'"
  by (auto simp: add_line_if_needed_def add_line_def on_screen_def scroll_frame split: if_splits)

definition cursor_ok :: "int \<times> 'a screen_scheme \<Rightarrow> bool" where
  "cursor_ok st \<longleftrightarrow> 0 \<le> fst st \<and> fst st \<le> 2000"

lemma put_char_bounds:
  assumes "cursor_ok st"
  shows "cursor_ok (put_char c st) \<and> vram_frame (snd st) (snd (put_char c st))"
proof -
  obtain i s where st: "st = (i, s)" by (cases st)
  obtain i' s' where a: "add_line_if_needed i s = (i', s')" by fastforce
  with assms st have b: "on_screen i'" "vram_frame s s'"
    using add_line_if_needed_bounds [of i s i' s'] by (auto simp: cursor_ok_def)
  then have "vram_frame s (print c i' s')"
    by (meson print_frame vram_frame_trans)
  with a b st show ?thesis by (auto simp: cursor_ok_def on_screen_def)
qed

interpretation char_out: output_device put_char cursor_ok "\<lambda>a b. vram_frame (snd a) (snd b)"
  by unfold_locales (auto dest: put_char_bounds intro: vram_frame_trans)

fun string_ok :: "int \<times> int \<times> 'a screen_scheme \<Rightarrow> bool" where
  "string_ok (i, j, s) = on_screen i"

fun string_frame :: "int \<times> int \<times> 'a screen_scheme \<Rightarrow> int \<times> int \<times> 'a screen_scheme \<Rightarrow> bool" where
  "string_frame (i, j, s) (i', j', s') = vram_frame s s'"

lemma newline_bounds: "on_screen i \<Longrightarrow> 0 \<le> i + (80 - i smod 80) \<and> i + (80 - i smod 80) \<le> 2000"
proof -
  assume "on_screen i"
  then have "0 \<le> i" "i < 2000" by (auto simp: on_screen_def)
  then have "i smod 80 = i mod 80" by (simp add: signed_modulo_int_def sgn_if)
  with \<open>0 \<le> i\<close> \<open>i < 2000\<close> show ?thesis by presburger
qed

lemma print_string_char_bounds:
  assumes "string_ok st"
  shows "string_ok (print_string_char c st) \<and> string_frame st (print_string_char c st)"
proof -
  obtain i j s where st: "st = (i, j, s)" by (cases st)
  with assms have i: "on_screen i" by simp
  show ?thesis
  proof (cases "c = 10")
    case True
    obtain i' s' where "add_line_if_needed (i + (80 - i smod 80)) s = (i', s')" by fastforce
    then show ?thesis
      using True st newline_bounds [OF i] add_line_if_needed_bounds [of "i + (80 - i smod 80)" s i' s']
      by (simp add: Let_def)
  next
    case False
    have a: "add_line_if_needed i s = (i, s)"
      using i by (simp add: add_line_if_needed_def on_screen_def)
    obtain i' s' where b: "add_line_if_needed (i + 1) (print c i s) = (i', s')" by fastforce
    then have "on_screen i'" "vram_frame (print c i s) s'"
      using add_line_if_needed_bounds [of "i + 1" "print c i s" i' s'] i
      by (auto simp: on_screen_def)
    with a b False st print_frame [OF i] show ?thesis
      by (auto simp: Let_def intro: vram_frame_trans)
  qed
qed

interpretation string_out: output_device print_string_char string_ok string_frame
proof unfold_locales
  fix a b d :: "int \<times> int \<times> 'a screen_scheme"
  show "string_frame a a" by (cases a) auto
  show "string_frame a b \<Longrightarrow> string_frame b d \<Longrightarrow> string_frame a d"
    by (cases a; cases b; cases d) (auto intro: vram_frame_trans)
qed (auto dest: print_string_char_bounds)


section \<open>What is written\<close>

fun write_text :: "(int \<Rightarrow> u8) \<Rightarrow> int \<Rightarrow> u8 list \<Rightarrow> int \<Rightarrow> u8" where
  "write_text v i [] = v"
| "write_text v i (c # cs) = write_text (v(2 * i := c, 2 * i + 1 := 0x0F)) (i + 1) cs"

definition text_at :: "(int \<Rightarrow> u8) \<Rightarrow> int \<Rightarrow> u8 list \<Rightarrow> bool" where
  "text_at v i cs \<longleftrightarrow>
     (\<forall>k < length cs. v (2 * (i + int k)) = cs ! k \<and> v (2 * (i + int k) + 1) = 0x0F)"

lemma write_text_outside:
  "x < 2 * i \<or> 2 * (i + int (length cs)) \<le> x \<Longrightarrow> write_text v i cs x = v x"
  by (induction cs arbitrary: v i) auto

lemma text_at_Cons:
  "text_at v i (c # cs) \<longleftrightarrow> v (2 * i) = c \<and> v (2 * i + 1) = 0x0F \<and> text_at v (i + 1) cs"
proof -
  have *: "(\<forall>k < Suc n. P k) \<longleftrightarrow> P 0 \<and> (\<forall>k < n. P (Suc k))" for P and n :: nat
    using less_Suc_eq_0_disj by auto
  show ?thesis
    unfolding text_at_def length_Cons * by (simp add: add_ac)
qed

lemma write_text_at: "text_at (write_text v i cs) i cs"
proof (induction cs arbitrary: v i)
  case Nil
  then show ?case by (simp add: text_at_def)
next
  case (Cons c cs)
  then show ?case by (simp add: text_at_Cons write_text_outside)
qed

lemma put_char_text:
  "i + int (length cs) \<le> 2000 \<Longrightarrow>
   fold put_char cs (i, s) = (i + int (length cs), s\<lparr>vram := write_text (vram s) i cs\<rparr>)"
proof (induction cs arbitrary: i s)
  case Nil
  then show ?case by simp
next
  case (Cons c cs)
  then have "put_char c (i, s) = (i + 1, print c i s)"
    by (simp add: add_line_if_needed_def)
  with Cons show ?case by (simp add: print_def fun_upd_def)
qed

subsection \<open>Decimal output\<close>

definition decimal_value :: "u8 list \<Rightarrow> nat" where
  "decimal_value ds = foldl (\<lambda>a d. 10 * a + (unat d - 48)) 0 ds"

lemma decimal_value_snoc: "decimal_value (ds @ [d]) = 10 * decimal_value ds + (unat d - 48)"
  by (simp add: decimal_value_def)

lemma unat_div10: "0 < (n :: u32) \<Longrightarrow> unat (n div 10) < unat n"
  by (simp add: unat_div word_gt_0 unat_gt_0)

lemma digit_buffer_append: "digit_buffer n buf = buf @ digit_buffer n []"
proof (induction "unat n" arbitrary: n buf rule: less_induct)
  case less
  show ?case
  proof (cases "n > 0")
    case True
    let ?d = "ucast (n mod 10) + 0x30 :: u8"
    have IH: "digit_buffer (n div 10) b = b @ digit_buffer (n div 10) []" for b
      using True by (intro less unat_div10)
    have "digit_buffer n b = b @ ?d # digit_buffer (n div 10) []" for b
      using True IH [of "b @ [?d]"] by (subst digit_buffer.simps) simp
    from this [of buf] this [of "[]"] show ?thesis by simp
  next
    case False
    then show ?thesis by (simp add: digit_buffer.simps [of n])
  qed
qed

lemma digit_buffer_rec:
  "digit_buffer n [] =
     (if n > 0 then (ucast (n mod 10) + 0x30) # digit_buffer (n div 10) [] else [])"
  by (subst digit_buffer.simps) (simp add: digit_buffer_append [of "n div 10" "[_]"])

lemma digit_byte: "unat (ucast (n mod 10) + 0x30 :: u8) = unat (n mod 10 :: u32) + 48"
proof -
  have "unat (n mod 10) < 10" by (simp add: unat_mod)
  then show ?thesis by (simp add: unat_word_ariths unsigned_ucast_eq take_bit_eq_mod)
qed

lemma digit_buffer_value: "decimal_value (rev (digit_buffer n [])) = unat n"
proof (induction "unat n" arbitrary: n rule: less_induct)
  case less
  show ?case
  proof (cases "n > 0")
    case True
    have "decimal_value (rev (digit_buffer n [])) =
        10 * decimal_value (rev (digit_buffer (n div 10) [])) + unat (n mod 10)"
      using True by (subst digit_buffer_rec) (simp add: decimal_value_snoc digit_byte)
    also have "\<dots> = 10 * unat (n div 10) + unat (n mod 10)"
      using less [of "n div 10"] unat_div10 [OF True] by simp
    also have "\<dots> = unat n" by (simp add: unat_div unat_mod)
    finally show ?thesis .
  next
    case False
    then have "n = 0" by (simp add: word_gt_0)
    then show ?thesis by (subst digit_buffer_rec) (simp add: decimal_value_def)
  qed
qed

lemma digit_buffer_digits: "d \<in> set (digit_buffer n []) \<Longrightarrow> 48 \<le> unat d \<and> unat d \<le> 57"
proof (induction "unat n" arbitrary: n rule: less_induct)
  case less
  then have n: "n > 0" by (subst (asm) digit_buffer_rec) (auto split: if_splits)
  have "unat (n mod 10) < 10" by (simp add: unat_mod)
  moreover from less.prems n have "d = ucast (n mod 10) + 0x30 \<or> d \<in> set (digit_buffer (n div 10) [])"
    by (subst (asm) digit_buffer_rec) auto
  ultimately show ?case using less.hyps [of "n div 10"] unat_div10 [OF n] digit_byte [of n] by fastforce
qed

lemma digit_buffer_length: "unat n < 10 ^ k \<Longrightarrow> length (digit_buffer n []) \<le> k"
proof (induction k arbitrary: n)
  case 0
  then have "n = 0" by (simp add: unat_eq_0)
  then show ?case by (subst digit_buffer_rec) simp
next
  case (Suc k)
  then have "unat (n div 10) < 10 ^ k"
    by (simp add: unat_div less_mult_imp_div_less mult.commute)
  then show ?case using Suc.IH by (subst digit_buffer_rec) simp
qed


text \<open>The digits the decimal routine leaves on the screen.\<close>

definition number_text :: "u32 \<Rightarrow> u8 list" where
  "number_text n = (if n = 0 then [0x30] else rev (digit_buffer n []))"

lemma number_text_value: "decimal_value (number_text n) = unat n"
  by (cases "n = 0") (simp_all add: number_text_def digit_buffer_value, simp add: decimal_value_def)

lemma number_text_digits: "d \<in> set (number_text n) \<Longrightarrow> 48 \<le> unat d \<and> unat d \<le> 57"
  by (auto simp: number_text_def split: if_splits dest: digit_buffer_digits)

lemma number_text_length: "1 \<le> length (number_text n)" "length (number_text n) \<le> 10"
proof -
  have "unat n < 10 ^ 10" using unat_u32 [of n] by simp
  then have "length (digit_buffer n []) \<le> 10" by (rule digit_buffer_length)
  then show "length (number_text n) \<le> 10" by (simp add: number_text_def)
  have "n \<noteq> 0 \<Longrightarrow> digit_buffer n [] \<noteq> []"
    by (subst digit_buffer_rec) (simp add: word_gt_0)
  then show "1 \<le> length (number_text n)"
    by (cases "n = 0") (auto simp: number_text_def Suc_le_eq)
qed

lemma print_number_eq:
  "print_number n i s = (let (i, s) = fold put_char (number_text n) (i, s) in add_line_if_needed i s)"
  by (simp add: print_number_def number_text_def del: put_char.simps)

lemma print_number_fits:
  assumes "i + int (length (number_text n)) < 2000"
  shows "print_number n i s =
    (i + int (length (number_text n)), s\<lparr>vram := write_text (vram s) i (number_text n)\<rparr>)"
  using assms by (simp add: print_number_eq put_char_text add_line_if_needed_def)

subsection \<open>Hexadecimal output\<close>

definition hex_text :: "u32 \<Rightarrow> u8 list" where
  "hex_text n =
     map (\<lambda>shift. hex_digits ! unat (drop_bit shift n AND 0xF)) [28, 24, 20, 16, 12, 8, 4, 0]"

definition hex_digit_value :: "u8 \<Rightarrow> nat" where
  "hex_digit_value d = (if unat d \<le> 57 then unat d - 48 else unat d - 55)"

definition hex_value :: "u8 list \<Rightarrow> nat" where
  "hex_value ds = foldl (\<lambda>a d. 16 * a + hex_digit_value d) 0 ds"

lemma hex_digit_value_nth: "k < 16 \<Longrightarrow> hex_digit_value (hex_digits ! k) = k"
proof -
  have "map (\<lambda>k. hex_digit_value (hex_digits ! k)) [0..<16] = [0..<16]" by code_simp
  then show "k < 16 \<Longrightarrow> ?thesis"
    using nth_map [of k "[0..<16]" "\<lambda>k. hex_digit_value (hex_digits ! k)"] by simp
qed

lemma nibble_unat: "unat (drop_bit k n AND 0xF :: u32) = unat n div 2 ^ k mod 16"
proof -
  have "drop_bit k n AND 0xF = take_bit 4 (drop_bit k n)"
    by (simp add: take_bit_eq_mask mask_eq_exp_minus_1)
  then have "unat (drop_bit k n AND 0xF) = take_bit 4 (drop_bit k (unat n))"
    by (simp only: unsigned_take_bit_eq unsigned_drop_bit_eq) simp
  then show ?thesis by (simp add: take_bit_eq_mod drop_bit_eq_div)
qed

lemma hex_text_value: "hex_value (hex_text n) = unat n"
proof -
  define N where "N = unat n"
  have N: "N < 2 ^ 32" using unat_u32 [of n] by (simp add: N_def)
  have d: "hex_digit_value (hex_digits ! unat (drop_bit k n AND 0xF)) = N div 2 ^ k mod 16" for k
    by (subst hex_digit_value_nth) (simp_all add: nibble_unat N_def)
  have top: "N div 2 ^ 28 mod 16 = N div 2 ^ 28"
    using N by (simp add: less_mult_imp_div_less)
  have glue: "16 * (N div (16 * m)) + N div m mod 16 = N div m" for m
    by (metis div_mult2_eq mult.commute mult_div_mod_eq)
  have "hex_value (hex_text n) = N"
    unfolding hex_value_def hex_text_def list.map foldl_Cons foldl_Nil d top
    using glue [of "2 ^ 24"] glue [of "2 ^ 20"] glue [of "2 ^ 16"] glue [of "2 ^ 12"]
      glue [of "2 ^ 8"] glue [of "2 ^ 4"] glue [of 1]
    by simp
  then show ?thesis by (simp add: N_def)
qed

lemma print_hex_fits:
  assumes "i + 10 < 2000"
  shows "print_hex n i s =
    (i + 10, s\<lparr>vram := write_text (vram s) i (0x30 # 0x78 # hex_text n)\<rparr>)"
proof -
  have "print_hex n i s =
    (let (i, s) = fold put_char (0x30 # 0x78 # hex_text n) (i, s) in add_line_if_needed i s)"
    by (simp add: print_hex_def hex_text_def Let_def split_def del: put_char.simps)
  also have "\<dots> = (i + 10, s\<lparr>vram := write_text (vram s) i (0x30 # 0x78 # hex_text n)\<rparr>)"
    using assms put_char_text [of i "0x30 # 0x78 # hex_text n" s]
    by (simp add: hex_text_def add_line_if_needed_def del: put_char.simps write_text.simps)
  finally show ?thesis .
qed


section \<open>The calls with the global cursor\<close>

definition vram_only :: "'a screen_scheme \<Rightarrow> 'a screen_scheme \<Rightarrow> bool" where
  "vram_only s s' \<longleftrightarrow> s' = s\<lparr>vram := vram s'\<rparr>"

lemma vram_only_refl [simp]: "vram_only s s"
  by (simp add: vram_only_def)

lemma vram_only_trans: "vram_only s t \<Longrightarrow> vram_only t u \<Longrightarrow> vram_only s u"
  unfolding vram_only_def by (metis screen.surjective screen.update_convs(1))

lemma vram_only_add_line: "vram_only s (snd (add_line_if_needed i s))"
  by (simp add: vram_only_def add_line_if_needed_def add_line_def)

lemma vram_only_print: "vram_only s (print c i s)"
  by (simp add: vram_only_def print_def)

lemma vram_only_put_char: "vram_only (snd st) (snd (put_char c st))"
proof (cases st)
  case (Pair i s)
  obtain i' s' where a: "add_line_if_needed i s = (i', s')" by fastforce
  then have "vram_only s s'" using vram_only_add_line [of s i] by simp
  with a Pair show ?thesis by (auto intro: vram_only_trans vram_only_print)
qed

interpretation char_shape: output_device put_char "\<lambda>_. True" "\<lambda>a b. vram_only (snd a) (snd b)"
  by unfold_locales (auto simp: vram_only_put_char intro: vram_only_trans simp del: put_char.simps)

lemma vram_only_string_char:
  "vram_only (snd (snd st)) (snd (snd (print_string_char c st)))"
proof -
  obtain i j s where st: "st = (i, j, s)" by (cases st)
  obtain i1 s1 where a: "add_line_if_needed i s = (i1, s1)" by fastforce
  obtain i2 s2 where b: "add_line_if_needed (i1 + 1) (print c i1 s1) = (i2, s2)" by fastforce
  obtain i3 s3 where d: "add_line_if_needed (i + (80 - i smod 80)) s = (i3, s3)" by fastforce
  have "vram_only s s1" "vram_only (print c i1 s1) s2" "vram_only s s3"
    using vram_only_add_line [of s i] vram_only_add_line [of "print c i1 s1" "i1 + 1"]
      vram_only_add_line [of s "i + (80 - i smod 80)"] a b d by simp_all
  moreover have "vram_only s1 (print c i1 s1)" by (rule vram_only_print)
  ultimately have "vram_only s s2" "vram_only s s3"
    by (blast intro: vram_only_trans)+
  with st a b d show ?thesis by (simp add: Let_def)
qed

interpretation string_shape: output_device print_string_char "\<lambda>_. True"
    "\<lambda>a b. vram_only (snd (snd a)) (snd (snd b))"
  by unfold_locales (auto simp: vram_only_string_char intro: vram_only_trans simp del: print_string_char.simps)

lemma kprint_shape: "\<exists>t v i j. kprint str s = s\<lparr>hw_trace := t, vram := v, scr_i := i, scr_j := j\<rparr>"
proof -
  obtain i j s' where f: "fold print_string_char str (scr_i s, scr_j s, s) = (i, j, s')"
    by (metis prod_cases3)
  then have s': "s' = s\<lparr>vram := vram s'\<rparr>"
    using string_shape.output_within [of "(scr_i s, scr_j s, s)" str] by (simp add: vram_only_def)
  have "kprint str s = (move (word_of_int i) s')\<lparr>scr_i := i, scr_j := j\<rparr>"
    by (simp add: kprint_def print_string_def f)
  moreover obtain v where v: "s' = s\<lparr>vram := v\<rparr>" using s' by blast
  moreover have "move w (s\<lparr>vram := v\<rparr>) = s\<lparr>hw_trace := hw_trace (move w s), vram := v\<rparr>" for w
    by (simp add: move_def hw_ops)
  ultimately have "kprint str s =
      s\<lparr>hw_trace := hw_trace (move (word_of_int i) s), vram := v, scr_i := i, scr_j := j\<rparr>"
    by (simp only:)
  then show ?thesis by blast
qed

lemma kprint_number_shape: "\<exists>v i. kprint_number n s = s\<lparr>vram := v, scr_i := i\<rparr>"
proof -
  obtain i s1 where f: "fold put_char (number_text n) (scr_i s, s) = (i, s1)" by fastforce
  obtain i' s2 where a: "add_line_if_needed i s1 = (i', s2)" by fastforce
  have "vram_only s s1"
    using char_shape.output_within [of "(scr_i s, s)" "number_text n"] f by simp
  moreover have "vram_only s1 s2" using vram_only_add_line [of s1 i] a by simp
  ultimately have s2: "s2 = s\<lparr>vram := vram s2\<rparr>" unfolding vram_only_def [symmetric]
    by (rule vram_only_trans)
  have "kprint_number n s = s2\<lparr>scr_i := i'\<rparr>"
    by (simp add: kprint_number_def print_number_eq f a)
  then show ?thesis by (subst (asm) s2) auto
qed

lemma print_hex_eq:
  "print_hex n i s =
    (let (i, s) = fold put_char (0x30 # 0x78 # hex_text n) (i, s) in add_line_if_needed i s)"
  by (simp add: print_hex_def hex_text_def Let_def split_def del: put_char.simps)

lemma kprint_hex_shape: "\<exists>v i. kprint_hex n s = s\<lparr>vram := v, scr_i := i\<rparr>"
proof -
  let ?t = "0x30 # 0x78 # hex_text n"
  obtain i s1 where f: "fold put_char ?t (scr_i s, s) = (i, s1)" by fastforce
  obtain i' s2 where a: "add_line_if_needed i s1 = (i', s2)" by fastforce
  have "vram_only s s1"
    using char_shape.output_within [of "(scr_i s, s)" ?t] f by simp
  moreover have "vram_only s1 s2" using vram_only_add_line [of s1 i] a by simp
  ultimately have s2: "s2 = s\<lparr>vram := vram s2\<rparr>" unfolding vram_only_def [symmetric]
    by (rule vram_only_trans)
  have "kprint_hex n s = s2\<lparr>scr_i := i'\<rparr>"
    by (simp only: kprint_hex_def print_hex_eq f a Let_def split)
  then show ?thesis by (subst (asm) s2) auto
qed

text \<open>Output with the global cursor, from a cursor on the screen.\<close>

definition screen_safe :: "'a screen_scheme \<Rightarrow> 'a screen_scheme \<Rightarrow> bool" where
  "screen_safe s s' \<longleftrightarrow> on_screen (scr_i s') \<and> (\<forall>x. x < 0 \<or> 4000 \<le> x \<longrightarrow> vram s' x = vram s x)"

lemma kprint_safe:
  assumes "on_screen (scr_i s)"
  shows "screen_safe s (kprint str s)"
proof -
  obtain i j s' where f: "fold print_string_char str (scr_i s, scr_j s, s) = (i, j, s')"
    by (metis prod_cases3)
  then have "on_screen i" "vram_frame s s'"
    using assms string_out.output_ok [of "(scr_i s, scr_j s, s)" str]
      string_out.output_within [of "(scr_i s, scr_j s, s)" str] by simp_all
  then show ?thesis
    by (simp add: screen_safe_def kprint_def print_string_def f vram_frame_def move_def hw_ops)
qed

lemma char_output_safe:
  assumes "on_screen (scr_i s)" "fold put_char cs (scr_i s, s) = (i, s1)"
    "add_line_if_needed i s1 = (i', s2)"
  shows "on_screen i' \<and> vram_frame s s2"
proof -
  have ok: "cursor_ok (scr_i s, s)" using assms(1) by (simp add: cursor_ok_def on_screen_def)
  then have "0 \<le> i \<and> i \<le> 2000" "vram_frame s s1"
    using char_out.output_ok [OF ok, of cs] char_out.output_within [OF ok, of cs] assms(2)
    by (simp_all add: cursor_ok_def)
  with assms(3) show ?thesis
    using add_line_if_needed_bounds [of i s1 i' s2] by (auto intro: vram_frame_trans)
qed

lemma kprint_number_safe: "on_screen (scr_i s) \<Longrightarrow> screen_safe s (kprint_number n s)"
  by (auto simp: screen_safe_def kprint_number_def print_number_eq vram_frame_def
      split: prod.splits dest: char_output_safe)

lemma kprint_hex_safe: "on_screen (scr_i s) \<Longrightarrow> screen_safe s (kprint_hex n s)"
proof -
  assume s: "on_screen (scr_i s)"
  obtain i s1 where f: "fold put_char (0x30 # 0x78 # hex_text n) (scr_i s, s) = (i, s1)" by fastforce
  obtain i' s2 where a: "add_line_if_needed i s1 = (i', s2)" by fastforce
  have "kprint_hex n s = s2\<lparr>scr_i := i'\<rparr>"
    by (simp only: kprint_hex_def print_hex_eq f a Let_def split)
  with char_output_safe [OF s f a] show ?thesis by (simp add: screen_safe_def vram_frame_def)
qed

lemma screen_safe_trans: "screen_safe s t \<Longrightarrow> screen_safe t u \<Longrightarrow> screen_safe s u"
  by (auto simp: screen_safe_def)

end
