(* ===== verification/Descriptors.thy ===== *)
theory Descriptors
  imports Vga
begin

text \<open>
  The descriptor tables of kernel/idt.c, kernel/tss.c and their headers: interrupt gates,
  segment descriptors, the task state segment, and how the processor reads their packed
  fields back. The lemmas are the encode/decode laws of the packed fields and the agreement
  of the segment selectors the kernel uses with the descriptors it installs.
\<close>

section \<open>State\<close>

record interrupt_des =
  offset_1 :: u16
  selector :: u16
  zeros :: u8
  gate_type :: u8
  offset_2 :: u16

record idt_pointer =
  idt_limit :: u16
  idt_base :: u32

record gdt_entry =
  limit_low :: u16
  base_low :: u16
  base_middle :: u8
  access :: u8
  granularity :: u8
  base_high :: u8

record gdt_ptr =
  gdt_limit :: u16
  gdt_base :: u32

text \<open>The 104-byte task state segment; each selector field is followed by two reserved
  bytes that the code never names, except the trap and I/O map words at the end.\<close>

record tss_t =
  prev_tss :: u16
  esp0 :: u32
  ss0 :: u16
  esp1 :: u32
  ss1 :: u16
  esp2 :: u32
  ss2 :: u16
  tss_cr3 :: u32
  tss_eip :: u32
  tss_eflags :: u32
  tss_eax :: u32
  tss_ecx :: u32
  tss_edx :: u32
  tss_ebx :: u32
  tss_esp :: u32
  tss_ebp :: u32
  tss_esi :: u32
  tss_edi :: u32
  tss_es :: u16
  tss_cs :: u16
  tss_ss :: u16
  tss_ds :: u16
  tss_fs :: u16
  tss_gs :: u16
  tss_ldt :: u16
  tss_trap :: u16
  iomap_base :: u16

definition sizeof_tss :: u32 where "sizeof_tss = 104"
definition sizeof_gdt :: u16 where "sizeof_gdt = 48"
definition sizeof_idt :: u16 where "sizeof_idt = 2048"

text \<open>The link addresses of the tables are constants of the build: fields no operation writes.\<close>

record tables = screen +
  idt :: "int \<Rightarrow> interrupt_des"
  ptr :: idt_pointer
  gdt :: "int \<Rightarrow> gdt_entry"
  gp :: gdt_ptr
  tss :: tss_t
  addr_idt :: u32
  addr_gdt :: u32
  addr_tss :: u32

section \<open>kernel/idt.c\<close>

definition add :: "int \<Rightarrow> u32 \<Rightarrow> u8 \<Rightarrow> 'a tables_scheme \<Rightarrow> 'a tables_scheme" where
  "add n handler type s = s\<lparr>idt := (idt s)(n :=
     \<lparr>offset_1 = ucast (handler AND 0xFFFF),
      selector = 0x08,
      zeros = 0,
      gate_type = type,
      offset_2 = ucast (drop_bit 16 handler AND 0xFFFF)\<rparr>)\<rparr>"

definition load_idt :: "'a tables_scheme \<Rightarrow> 'a tables_scheme" where
  "load_idt s = emit (Lidt (idt_limit (ptr s)) (idt_base (ptr s))) s"

section \<open>kernel/tss.c\<close>

definition gdt_set_gate ::
  "int \<Rightarrow> u32 \<Rightarrow> u32 \<Rightarrow> u8 \<Rightarrow> u8 \<Rightarrow> 'a tables_scheme \<Rightarrow> 'a tables_scheme" where
  "gdt_set_gate num base limit acc gran s = s\<lparr>gdt := (gdt s)(num :=
     \<lparr>limit_low = ucast (limit AND 0xFFFF),
      base_low = ucast (base AND 0xFFFF),
      base_middle = ucast (drop_bit 16 base AND 0xFF),
      access = acc,
      granularity = (ucast (drop_bit 16 limit AND 0x0F)) OR (gran AND 0xF0),
      base_high = ucast (drop_bit 24 base AND 0xFF)\<rparr>)\<rparr>"

definition zero_tss :: tss_t where
  "zero_tss = \<lparr>prev_tss = 0, esp0 = 0, ss0 = 0, esp1 = 0, ss1 = 0, esp2 = 0, ss2 = 0,
     tss_cr3 = 0, tss_eip = 0, tss_eflags = 0, tss_eax = 0, tss_ecx = 0, tss_edx = 0,
     tss_ebx = 0, tss_esp = 0, tss_ebp = 0, tss_esi = 0, tss_edi = 0, tss_es = 0, tss_cs = 0,
     tss_ss = 0, tss_ds = 0, tss_fs = 0, tss_gs = 0, tss_ldt = 0, tss_trap = 0, iomap_base = 0\<rparr>"

definition KERNEL_CS :: u32 where "KERNEL_CS = 0x08"
definition KERNEL_DS :: u32 where "KERNEL_DS = 0x10"
definition USER_CS :: u32 where "USER_CS = 0x1B"
definition USER_DS :: u32 where "USER_DS = 0x23"

definition init_tss :: "'a tables_scheme \<Rightarrow> 'a tables_scheme" where
  "init_tss s =
     (let s = gdt_set_gate 5 (addr_tss s) (sizeof_tss - 1) 0x89 0x40 s
      in s\<lparr>tss := zero_tss\<lparr>ss0 := ucast KERNEL_DS, esp0 := 0x90000,
                          iomap_base := ucast sizeof_tss\<rparr>\<rparr>)"

definition gdt_flush :: "'a tables_scheme \<Rightarrow> 'a tables_scheme" where
  "gdt_flush s = emit (Lgdt (gdt_limit (gp s)) (gdt_base (gp s))) s"

definition tss_flush :: "'a tables_scheme \<Rightarrow> 'a tables_scheme" where
  "tss_flush s = emit (Ltr 0x28) s"

definition init_gdt :: "'a tables_scheme \<Rightarrow> 'a tables_scheme" where
  "init_gdt s =
     (let s = gdt_set_gate 0 0 0 0 0 s;
          s = gdt_set_gate 1 0 0xFFFFFFFF 0x9A 0xCF s;
          s = gdt_set_gate 2 0 0xFFFFFFFF 0x92 0xCF s;
          s = gdt_set_gate 3 0 0xFFFFFFFF 0xFA 0xCF s;
          s = gdt_set_gate 4 0 0xFFFFFFFF 0xF3 0xCF s;
          s = init_tss s;
          s = s\<lparr>gp := \<lparr>gdt_limit = sizeof_gdt - 1, gdt_base = addr_gdt s\<rparr>\<rparr>
      in tss_flush (gdt_flush s))"

section \<open>How the processor reads the packed fields\<close>

definition gate_offset :: "interrupt_des \<Rightarrow> u32" where
  "gate_offset d = push_bit 16 (ucast (offset_2 d)) OR ucast (offset_1 d)"

definition gate_dpl :: "interrupt_des \<Rightarrow> nat" where
  "gate_dpl d = unat (drop_bit 5 (gate_type d) AND 3)"

definition seg_base :: "gdt_entry \<Rightarrow> u32" where
  "seg_base d = push_bit 24 (ucast (base_high d)) OR push_bit 16 (ucast (base_middle d))
                  OR ucast (base_low d)"

definition seg_limit :: "gdt_entry \<Rightarrow> u32" where
  "seg_limit d = push_bit 16 (ucast (granularity d AND 0x0F)) OR ucast (limit_low d)"

definition seg_present :: "gdt_entry \<Rightarrow> bool" where
  "seg_present d \<longleftrightarrow> bit (access d) 7"

definition seg_dpl :: "gdt_entry \<Rightarrow> nat" where
  "seg_dpl d = unat (drop_bit 5 (access d) AND 3)"

definition seg_is_code :: "gdt_entry \<Rightarrow> bool" where
  "seg_is_code d \<longleftrightarrow> bit (access d) 4 \<and> bit (access d) 3"

definition seg_is_writable_data :: "gdt_entry \<Rightarrow> bool" where
  "seg_is_writable_data d \<longleftrightarrow> bit (access d) 4 \<and> \<not> bit (access d) 3 \<and> bit (access d) 1"

definition selected :: "'a tables_scheme \<Rightarrow> u32 \<Rightarrow> gdt_entry" where
  "selected s sel = gdt s (uint (drop_bit 3 sel))"

definition selector_rpl :: "u32 \<Rightarrow> nat" where
  "selector_rpl sel = unat (sel AND 3)"

section \<open>Encode/decode laws\<close>

lemma add_offset: "gate_offset (idt (add n h t s) n) = h"
proof -
  have "push_bit 16 (ucast (ucast (drop_bit 16 h AND mask 16) :: u16)) OR
        ucast (ucast (h AND mask 16) :: u16) = h"
    by (rule bit_word_eqI) (auto simp: bit_simps dest: bit_imp_le_length)
  then show ?thesis by (simp only: add_def gate_offset_def mask_lits) simp
qed

lemma add_other: "m \<noteq> n \<Longrightarrow> idt (add n h t s) m = idt s m"
  by (simp add: add_def)

lemma gdt_set_gate_base: "seg_base (gdt (gdt_set_gate n b l a g s) n) = b"
proof -
  have "push_bit 24 (ucast (ucast (drop_bit 24 b AND mask 8) :: u8)) OR
        push_bit 16 (ucast (ucast (drop_bit 16 b AND mask 8) :: u8)) OR
        ucast (ucast (b AND mask 16) :: u16) = b" (is "?lhs = b")
  proof (rule bit_word_eqI)
    fix k
    assume "k < LENGTH(32)"
    then have "k < 16 \<or> 16 \<le> k \<and> k < 24 \<or> 24 \<le> k \<and> k < 32" by simp linarith
    then show "bit ?lhs k = bit b k"
      by (elim disjE) (auto simp: bit_simps)
  qed
  then show ?thesis by (simp only: gdt_set_gate_def seg_base_def mask_lits) simp
qed

lemma gdt_set_gate_limit: "seg_limit (gdt (gdt_set_gate n b l a g s) n) = l AND 0xFFFFF"
proof -
  have "push_bit 16 (ucast ((ucast (drop_bit 16 l AND mask 4) OR g AND push_bit 4 (mask 4)) AND mask 4 :: u8)) OR
        ucast (ucast (l AND mask 16) :: u16) = l AND mask 20" (is "?lhs = ?rhs")
  proof (rule bit_word_eqI)
    fix k
    assume "k < LENGTH(32)"
    then have "k < 16 \<or> 16 \<le> k \<and> k < 20 \<or> 20 \<le> k" by linarith
    then show "bit ?lhs k = bit ?rhs k"
      by (elim disjE) (auto simp: bit_simps)
  qed
  then show ?thesis by (simp only: gdt_set_gate_def seg_limit_def mask_lits) simp
qed

lemma gdt_set_gate_other: "m \<noteq> n \<Longrightarrow> gdt (gdt_set_gate n b l a g s) m = gdt s m"
  by (simp add: gdt_set_gate_def)

text \<open>The segments after \<open>init_gdt\<close>.\<close>

lemma init_gdt_entries:
  "gdt (init_gdt s) 1 = gdt (gdt_set_gate 1 0 0xFFFFFFFF 0x9A 0xCF s) 1"
  "gdt (init_gdt s) 2 = gdt (gdt_set_gate 2 0 0xFFFFFFFF 0x92 0xCF s) 2"
  "gdt (init_gdt s) 3 = gdt (gdt_set_gate 3 0 0xFFFFFFFF 0xFA 0xCF s) 3"
  "gdt (init_gdt s) 4 = gdt (gdt_set_gate 4 0 0xFFFFFFFF 0xF3 0xCF s) 4"
  "gdt (init_gdt s) 5 = gdt (gdt_set_gate 5 (addr_tss s) (sizeof_tss - 1) 0x89 0x40 s) 5"
  by (simp_all add: init_gdt_def init_tss_def tss_flush_def gdt_flush_def emit_def Let_def
      gdt_set_gate_def)

lemma gdt_access: "access (gdt (gdt_set_gate n b l a g s) n) = a"
  by (simp add: gdt_set_gate_def)

lemma init_gdt_tss: "tss (init_gdt s) = zero_tss\<lparr>ss0 := 0x10, esp0 := 0x90000, iomap_base := 104\<rparr>"
  by (simp add: init_gdt_def init_tss_def tss_flush_def gdt_flush_def emit_def Let_def
      gdt_set_gate_def KERNEL_DS_def sizeof_tss_def)

definition boot_tables :: tables where
  "boot_tables = screen.extend boot_screen
     (tables.fields (\<lambda>_. \<lparr>offset_1 = 0, selector = 0, zeros = 0, gate_type = 0, offset_2 = 0\<rparr>)
        \<lparr>idt_limit = 0, idt_base = 0\<rparr>
        (\<lambda>_. \<lparr>limit_low = 0, base_low = 0, base_middle = 0, access = 0, granularity = 0, base_high = 0\<rparr>)
        \<lparr>gdt_limit = 0, gdt_base = 0\<rparr> zero_tss 0x1E000 0x1F000 0x1F100)"

end
