(* ===== verification/Timer.thy ===== *)
theory Timer
  imports Descriptors
begin

text \<open>
  The programmable interval timer of kernel/pit.c and the tick counter of
  kernel/kernel.c, a 32-bit word that wraps. The lemmas state what pit_init sends to the
  device and the rate the kernel gets from the divisor it programs.
\<close>

section \<open>State\<close>

record timer = tables +
  ticks :: u32

definition HZ :: u32 where "HZ = 100"

section \<open>kernel/pit.c\<close>

definition read_pit_count :: "'a hw_scheme \<Rightarrow> u32 \<times> 'a hw_scheme" where
  "read_pit_count s =
     (let s = outb 0x43 0x00 (cli s);
          (lo, s) = inb 0x40 s;
          (hi, s) = inb 0x40 s;
          count = ucast lo OR push_bit 8 (ucast hi)
      in (count, sti s))"

definition pit_init :: "u32 \<Rightarrow> 'a hw_scheme \<Rightarrow> 'a hw_scheme" where
  "pit_init divisor s =
     (let s = outb 0x43 0b00110110 (cli s);
          s = outb 0x40 (ucast (divisor AND 0xFF)) s;
          s = outb 0x40 (ucast (drop_bit 8 divisor AND 0xFF)) s
      in sti s)"

definition get_seconds :: "'a timer_scheme \<Rightarrow> u32" where
  "get_seconds s = ticks s div HZ"

section \<open>Lemmas\<close>

text \<open>The device reassembles the divisor from the two bytes, low byte first.\<close>

lemma divisor_bytes:
  assumes "unat d < 65536"
  shows "push_bit 8 (ucast (ucast (drop_bit 8 d AND 0xFF) :: u8)) OR ucast (ucast (d AND 0xFF) :: u8) = (d :: u32)"
proof -
  have "d = take_bit 16 d"
    using assms by (simp add: word_unat_eq_iff take_bit_eq_mod unat_mod)
  then have hi: "bit d n \<Longrightarrow> n < 16" for n by (metis bit_take_bit_iff)
  have "push_bit 8 (ucast (ucast (drop_bit 8 d AND mask 8) :: u8)) OR
        ucast (ucast (d AND mask 8) :: u8) = d" (is "?lhs = d")
  proof (rule bit_word_eqI)
    fix k assume "k < LENGTH(32)"
    show "bit ?lhs k = bit d k"
      using hi [of k] by (cases "k < 8") (auto simp: bit_simps)
  qed
  then show ?thesis by (simp only: mask_lits)
qed

lemma pit_init_trace:
  "hw_trace (pit_init d s) = hw_trace s @
     [Cli, Outb 0x43 0x36, Outb 0x40 (ucast (d AND 0xFF)), Outb 0x40 (ucast (drop_bit 8 d AND 0xFF)), Sti]"
  by (simp add: pit_init_def hw_ops)

lemma get_seconds_unat: "unat (get_seconds s) = unat (ticks s) div 100"
  by (simp add: get_seconds_def HZ_def unat_div)

definition boot_timer :: timer where
  "boot_timer = tables.extend boot_tables (timer.fields 0)"

end
