(* ===== verification/Keyboard.thy ===== *)
theory Keyboard
  imports Timer
begin

text \<open>
  The keyboard: the scancode table of kernel/keyboard.c and the interrupt handler of
  kernel/kernel.c, which edits the screen and the shared command line. The command buffer
  has 128 bytes; writing outside it, and the handler's call of add_line without its
  argument, are undefined behaviour and stop the model.
\<close>

section \<open>kernel/keyboard.h\<close>

definition KEY_NONE :: int where "KEY_NONE = 0"
definition KEY_UP :: int where "KEY_UP = 256"
definition KEY_DOWN :: int where "KEY_DOWN = 257"
definition KEY_LEFT :: int where "KEY_LEFT = 258"
definition KEY_RIGHT :: int where "KEY_RIGHT = 259"
definition KEY_F1 :: int where "KEY_F1 = 260"
definition KEY_F10 :: int where "KEY_F10 = 269"

lemmas key_consts = KEY_NONE_def KEY_UP_def KEY_DOWN_def KEY_LEFT_def KEY_RIGHT_def
  KEY_F1_def KEY_F10_def

section \<open>kernel/keyboard.c\<close>

definition chr :: "char \<Rightarrow> int" where
  "chr c = of_char c"

definition scancode_table :: "(u8 \<times> int) list" where
  "scancode_table =
    [(0x02, chr CHR ''1''), (0x03, chr CHR ''2''), (0x04, chr CHR ''3''), (0x05, chr CHR ''4''),
     (0x06, chr CHR ''5''), (0x07, chr CHR ''6''), (0x08, chr CHR ''7''), (0x09, chr CHR ''8''),
     (0x0A, chr CHR ''9''), (0x0B, chr CHR ''0''),
     (0x1E, chr CHR ''a''), (0x30, chr CHR ''b''), (0x2E, chr CHR ''c''), (0x20, chr CHR ''d''),
     (0x12, chr CHR ''e''), (0x21, chr CHR ''f''), (0x22, chr CHR ''g''), (0x23, chr CHR ''h''),
     (0x17, chr CHR ''i''), (0x24, chr CHR ''j''), (0x25, chr CHR ''k''), (0x26, chr CHR ''l''),
     (0x32, chr CHR ''m''), (0x31, chr CHR ''n''), (0x18, chr CHR ''o''), (0x19, chr CHR ''p''),
     (0x10, chr CHR ''q''), (0x13, chr CHR ''r''), (0x1F, chr CHR ''s''), (0x14, chr CHR ''t''),
     (0x16, chr CHR ''u''), (0x2F, chr CHR ''v''), (0x11, chr CHR ''w''), (0x2D, chr CHR ''x''),
     (0x15, chr CHR ''y''), (0x2C, chr CHR ''z''),
     (0x1C, 10), (0x39, chr CHR '' ''), (0x0E, 8),
     (0x48, KEY_UP), (0x50, KEY_DOWN), (0x4B, KEY_LEFT), (0x4D, KEY_RIGHT),
     (0x3B, KEY_F1), (0x3C, KEY_F1 + 1), (0x3D, KEY_F1 + 2), (0x3E, KEY_F1 + 3),
     (0x3F, KEY_F1 + 4), (0x40, KEY_F1 + 5), (0x41, KEY_F1 + 6), (0x42, KEY_F1 + 7),
     (0x43, KEY_F1 + 8), (0x44, KEY_F10), (0x57, KEY_F10 + 1), (0x58, KEY_F10 + 2)]"

definition key_of_scancode :: "u8 \<Rightarrow> int" where
  "key_of_scancode code =
     (if code AND 0x80 \<noteq> 0 then KEY_NONE
      else case map_of scancode_table code of Some k \<Rightarrow> k | None \<Rightarrow> KEY_NONE)"

definition read :: "'a hw_scheme \<Rightarrow> int \<times> 'a hw_scheme" where
  "read s = (let (code, s) = inb 0x60 s in (key_of_scancode code, s))"

section \<open>State of the handler\<close>

record kbd = timer +
  last_key :: int
  command :: "int \<Rightarrow> u8"
  command_index :: int
  command_ready :: int

definition COMMAND_SIZE :: int where "COMMAND_SIZE = 128"
definition space :: int where "space = 80"

section \<open>keyboard_handler of kernel/kernel.c\<close>

text \<open>\<open>command[i] = c\<close>: defined inside the array only.\<close>

definition command_store :: "int \<Rightarrow> u8 \<Rightarrow> 'a kbd_scheme \<Rightarrow> ('a kbd_scheme, unit) outcome" where
  "command_store k c s =
     (if 0 \<le> k \<and> k < COMMAND_SIZE then Ret (s\<lparr>command := (command s)(k := c)\<rparr>) ()
      else Stop s Undefined)"

definition move_cursor :: "int \<Rightarrow> 'a kbd_scheme \<Rightarrow> 'a kbd_scheme" where
  "move_cursor i s = move (word_of_int i) (s\<lparr>scr_i := i\<rparr>)"

text \<open>The handler calls \<open>add_line()\<close> with no argument although the routine of
  kernel/vga.c takes a pointer: undefined behaviour.\<close>

definition add_line_noarg :: "'a kbd_scheme \<Rightarrow> ('a kbd_scheme, unit) outcome" where
  "add_line_noarg s = Stop s Undefined"

definition append_command :: "int \<Rightarrow> 'a kbd_scheme \<Rightarrow> ('a kbd_scheme, unit) outcome" where
  "append_command c s =
     bind_out (command_store (command_index s) (word_of_int c) s) (\<lambda>s _.
       Ret (s\<lparr>command_index := command_index s + 1\<rparr>) ())"

definition handle_key :: "int \<Rightarrow> 'a kbd_scheme \<Rightarrow> ('a kbd_scheme, unit) outcome" where
  "handle_key c s =
     (if c = 10 then
        let s = s\<lparr>scr_i := scr_i s + space\<rparr>;
            s = s\<lparr>scr_i := scr_i s - scr_j s\<rparr>;
            s = move (word_of_int (scr_i s)) s;
            s = s\<lparr>scr_j := 0\<rparr>
        in bind_out (command_store (command_index s) 0 s) (\<lambda>s _.
             Ret (s\<lparr>command_ready := 1\<rparr>) ())
      else if c = chr CHR '' '' then
        let s = s\<lparr>scr_i := scr_i s + 1, scr_j := scr_j s + 1\<rparr>;
            s = move (word_of_int (scr_i s)) s
        in append_command c s
      else if c = 8 then
        let s = s\<lparr>scr_i := scr_i s - 1, scr_j := scr_j s - 1\<rparr>;
            s = clear (scr_i s) s;
            s = move (word_of_int (scr_i s)) s
        in command_store (command_index s) 0 s
      else if c = KEY_UP then
        Ret (move_cursor (scr_i s - 80) s) ()
      else if c = KEY_DOWN then
        let s = s\<lparr>scr_i := scr_i s + 80\<rparr>
        in bind_out (if scr_i s \<ge> 2000 then add_line_noarg s else Ret s ()) (\<lambda>s _.
             Ret (move_cursor (scr_i s) s) ())
      else if c = KEY_LEFT then
        Ret (move_cursor (scr_i s - 1) s) ()
      else if c = KEY_RIGHT then
        let s = s\<lparr>scr_i := scr_i s + 1\<rparr>
        in bind_out (if scr_i s \<ge> 2000 then add_line_noarg s else Ret s ()) (\<lambda>s _.
             Ret (move_cursor (scr_i s) s) ())
      else
        let s = print (word_of_int c) (scr_i s) s;
            s = s\<lparr>scr_i := scr_i s + 1, scr_j := scr_j s + 1\<rparr>;
            s = move (word_of_int (scr_i s)) s
        in append_command c s)"

definition keyboard_handler :: "'a kbd_scheme \<Rightarrow> ('a kbd_scheme, unit) outcome" where
  "keyboard_handler s =
     (let (c, s) = read s;
          s = s\<lparr>last_key := c\<rparr>
      in bind_out (if scr_i s \<ge> 2000 then add_line_noarg s else Ret s ()) (\<lambda>s _.
           if c = 0 then Ret s ()
           else bind_out (handle_key c s) (\<lambda>s _. Ret (outb 0x20 0x20 s) ())))"

definition boot_kbd :: kbd where
  "boot_kbd = timer.extend boot_timer (kbd.fields 0 (\<lambda>_. 0) 0 0)"


section \<open>The scancode table\<close>

lemma scancode_table_distinct:
  "distinct (map fst scancode_table)" "distinct (map snd scancode_table)"
  "0 \<notin> set (map snd scancode_table)"
  by code_simp+

lemma key_of_scancode_pressed:
  "key_of_scancode code \<noteq> KEY_NONE \<Longrightarrow> (code, key_of_scancode code) \<in> set scancode_table"
  by (auto simp: key_of_scancode_def split: if_splits option.splits dest: map_of_SomeD)

lemma key_of_scancode_inj:
  assumes "key_of_scancode a = key_of_scancode b" "key_of_scancode a \<noteq> KEY_NONE"
  shows "a = b"
proof -
  have "(a, key_of_scancode a) \<in> set scancode_table" "(b, key_of_scancode a) \<in> set scancode_table"
    using assms key_of_scancode_pressed [of a] key_of_scancode_pressed [of b] by auto
  then obtain i j where ij: "i < length scancode_table" "j < length scancode_table"
    "scancode_table ! i = (a, key_of_scancode a)" "scancode_table ! j = (b, key_of_scancode a)"
    by (meson in_set_conv_nth)
  then have "map snd scancode_table ! i = map snd scancode_table ! j" by simp
  with ij have "i = j"
    using scancode_table_distinct(2) by (metis length_map nth_eq_iff_index_eq)
  with ij show ?thesis by simp
qed

section \<open>The handler on a well-placed cursor\<close>

definition printable :: "int \<Rightarrow> bool" where
  "printable c \<longleftrightarrow> 32 \<le> c \<and> c < 127"

lemma read_ready:
  "port_in s 0x60 = code # rest \<Longrightarrow>
   read s = (key_of_scancode code, s\<lparr>hw_trace := hw_trace s @ [Inb 0x60],
                                    port_in := (port_in s)(0x60 := rest)\<rparr>)"
  by (simp add: read_def inb_def emit_def)

lemma space_code: "chr CHR '' '' = 32"
  by (simp add: chr_def)

lemma handler_printable:
  assumes port: "port_in s 0x60 = code # rest" and c: "printable (key_of_scancode code)"
    and i: "scr_i s < 2000" and k: "0 \<le> command_index s" "command_index s < 128"
  shows "\<exists>s'. keyboard_handler s = Ret s' () \<and> scr_i s' = scr_i s + 1 \<and>
     command s' = (command s)(command_index s := word_of_int (key_of_scancode code)) \<and>
     command_index s' = command_index s + 1 \<and> command_ready s' = command_ready s \<and>
     port_in s' 0x60 = rest"
proof -
  let ?c = "key_of_scancode code"
  have ne: "?c \<noteq> 0" "?c \<noteq> 10" "?c \<noteq> 8" "?c \<noteq> 256" "?c \<noteq> 257" "?c \<noteq> 258" "?c \<noteq> 259"
    using c by (auto simp: printable_def)
  show ?thesis
  proof (cases "?c = 32")
    case True
    then show ?thesis
      using i k port by (simp add: keyboard_handler_def read_ready [OF port] handle_key_def space_code
          append_command_def command_store_def COMMAND_SIZE_def move_def hw_ops Let_def)
  next
    case False
    then show ?thesis
      using i k ne port by (simp add: keyboard_handler_def read_ready [OF port] handle_key_def space_code
          append_command_def command_store_def COMMAND_SIZE_def move_def hw_ops Let_def key_consts print_def)
  qed
qed

lemma handler_enter:
  assumes port: "port_in s 0x60 = code # rest" and c: "key_of_scancode code = 10"
    and i: "scr_i s < 2000" and k: "0 \<le> command_index s" "command_index s < 128"
  shows "\<exists>s'. keyboard_handler s = Ret s' () \<and>
     scr_i s' = scr_i s + 80 - scr_j s \<and> scr_j s' = 0 \<and>
     command s' = (command s)(command_index s := 0) \<and>
     command_index s' = command_index s \<and> command_ready s' = 1 \<and> port_in s' 0x60 = rest"
  using i k c port by (simp add: keyboard_handler_def read_ready [OF port] handle_key_def space_code
      command_store_def COMMAND_SIZE_def move_def hw_ops Let_def space_def)

section \<open>A line of input\<close>

fun keyboard_run :: "nat \<Rightarrow> 'a kbd_scheme \<Rightarrow> ('a kbd_scheme, unit) outcome" where
  "keyboard_run 0 s = Ret s ()"
| "keyboard_run (Suc n) s = bind_out (keyboard_handler s) (\<lambda>s _. keyboard_run n s)"

lemma keyboard_run_add:
  "keyboard_run (m + n) s = bind_out (keyboard_run m s) (\<lambda>s _. keyboard_run n s)"
  by (induction m arbitrary: s) (simp_all add: bind_out_assoc)

lemma typed_characters:
  assumes "port_in s 0x60 = codes @ rest" "\<forall>code \<in> set codes. printable (key_of_scancode code)"
    "scr_i s + int (length codes) \<le> 2000" "0 \<le> command_index s"
    "command_index s + int (length codes) \<le> 128"
  shows "\<exists>s'. keyboard_run (length codes) s = Ret s' () \<and> port_in s' 0x60 = rest \<and>
     scr_i s' = scr_i s + int (length codes) \<and>
     command_index s' = command_index s + int (length codes) \<and>
     (\<forall>k < length codes. command s' (command_index s + int k) = word_of_int (key_of_scancode (codes ! k))) \<and>
     (\<forall>x < command_index s. command s' x = command s x)"
  using assms
proof (induction codes arbitrary: s)
  case Nil
  then show ?case by simp
next
  case (Cons code codes)
  let ?b = "word_of_int (key_of_scancode code) :: u8"
  from Cons.prems have "port_in s 0x60 = code # (codes @ rest)" "printable (key_of_scancode code)"
    "scr_i s < 2000" "0 \<le> command_index s" "command_index s < 128" by simp_all
  then obtain s1 where s1: "keyboard_handler s = Ret s1 ()" "scr_i s1 = scr_i s + 1"
     "command s1 = (command s)(command_index s := ?b)"
     "command_index s1 = command_index s + 1" "port_in s1 0x60 = codes @ rest"
    using handler_printable by blast
  then obtain s2 where s2: "keyboard_run (length codes) s1 = Ret s2 ()" "port_in s2 0x60 = rest"
     "scr_i s2 = scr_i s1 + int (length codes)"
     "command_index s2 = command_index s1 + int (length codes)"
     "\<forall>k < length codes. command s2 (command_index s1 + int k) = word_of_int (key_of_scancode (codes ! k))"
     "\<forall>x < command_index s1. command s2 x = command s1 x"
    using Cons.IH [of s1] Cons.prems by auto
  have "command s2 (command_index s + int k) = word_of_int (key_of_scancode ((code # codes) ! k))"
    if "k < length (code # codes)" for k
    using that s1 s2 by (cases k) (auto simp: add_ac)
  with s1 s2 show ?case by auto
qed

lemma typed_line:
  assumes port: "port_in s 0x60 = codes @ [0x1C]"
    and codes: "\<forall>code \<in> set codes. printable (key_of_scancode code)"
    and room: "scr_i s + int (length codes) < 2000" "length codes < 128" "command_index s = 0"
  shows "\<exists>s'. keyboard_run (length codes + 1) s = Ret s' () \<and> command_ready s' = 1 \<and>
     map (\<lambda>k. command s' (int k)) [0..<length codes] =
       map (\<lambda>code. word_of_int (key_of_scancode code)) codes \<and>
     command s' (int (length codes)) = 0"
proof -
  obtain s1 where s1: "keyboard_run (length codes) s = Ret s1 ()" "port_in s1 0x60 = [0x1C]"
     "scr_i s1 = scr_i s + int (length codes)" "command_index s1 = int (length codes)"
     "\<forall>k < length codes. command s1 (int k) = word_of_int (key_of_scancode (codes ! k))"
    using typed_characters [OF port codes] room by auto
  have "key_of_scancode 0x1C = 10" by code_simp
  then obtain s2 where s2: "keyboard_handler s1 = Ret s2 ()" "command_ready s2 = 1"
     "command s2 = (command s1)(command_index s1 := 0)"
    using handler_enter [of s1 "0x1C" "[]"] s1 room by auto
  have "map (\<lambda>k. command s2 (int k)) [0..<length codes] =
      map (\<lambda>code. word_of_int (key_of_scancode code)) codes"
    using s1 s2 by (intro nth_equalityI) auto
  moreover have "keyboard_run (length codes + 1) s = Ret s2 ()"
    using keyboard_run_add [of "length codes" 1 s] s1 s2 by simp
  ultimately show ?thesis using s1 s2 by (intro exI [of _ s2]) simp
qed

section \<open>Where the handler goes wrong\<close>

lemma handler_past_end: "2000 \<le> scr_i s \<Longrightarrow> \<exists>s'. keyboard_handler s = Stop s' Undefined"
  by (simp add: keyboard_handler_def read_def inb_def emit_def add_line_noarg_def Let_def
      split: list.splits)

lemma handler_full_line:
  assumes "port_in s 0x60 = code # rest" "printable (key_of_scancode code)" "command_index s = 128"
  shows "\<exists>s'. keyboard_handler s = Stop s' Undefined"
proof -
  let ?c = "key_of_scancode code"
  have ne: "?c \<noteq> 0" "?c \<noteq> 10" "?c \<noteq> 8" "?c \<noteq> 256" "?c \<noteq> 257" "?c \<noteq> 258" "?c \<noteq> 259"
    using assms(2) by (auto simp: printable_def)
  then show ?thesis using assms
    by (auto simp: keyboard_handler_def read_ready [OF assms(1)] handle_key_def key_consts space_code
        append_command_def command_store_def COMMAND_SIZE_def move_def hw_ops Let_def add_line_noarg_def
        print_def)
qed

lemma handler_backspace:
  assumes "port_in s 0x60 = 0x0E # rest" "scr_i s < 2000" "0 \<le> command_index s" "command_index s < 128"
  shows "\<exists>s'. keyboard_handler s = Ret s' () \<and> command_index s' = command_index s \<and>
     scr_i s' = scr_i s - 1 \<and> vram s' = (vram s)(2 * (scr_i s - 1) := 0x20) \<and>
     command s' = (command s)(command_index s := 0)"
proof -
  have "key_of_scancode 0x0E = 8" by code_simp
  then show ?thesis using assms
    by (simp add: keyboard_handler_def read_ready [OF assms(1)] handle_key_def space_code
        command_store_def COMMAND_SIZE_def move_def hw_ops Let_def clear_def)
qed

end
