(* ===== verification/PhysMem.thy ===== *)
theory PhysMem
  imports Keyboard
begin

text \<open>
  The physical memory manager of kernel/pmm.c: the BIOS memory map at 0x504 with its entry
  count at 0x500, the best-fit allocator that splits map entries, and the release that
  merges neighbours. The abstract view is the list of regions and the set of free bytes;
  the lemmas show that the operations keep the regions disjoint and move exactly the
  requested bytes between free and used.
\<close>

section \<open>State\<close>

record memory_map =
  mbase :: u64
  mlength :: u64
  mtype :: u32
  macpi :: u32

record pmm = kbd +
  mm_entry :: u16
  mm_map :: "int \<Rightarrow> memory_map"

definition MAX_FREE_PAGES :: int where "MAX_FREE_PAGES = 1024"

text \<open>\<open>*entry\<close>, promoted to \<open>int\<close>.\<close>

definition entries :: "'a pmm_scheme \<Rightarrow> int" where
  "entries s = uint (mm_entry s)"

section \<open>Operations of kernel/pmm.c\<close>

definition best_step :: "(int \<Rightarrow> memory_map) \<Rightarrow> u64 \<Rightarrow> int \<Rightarrow> int \<Rightarrow> int" where
  "best_step m sz k best =
     (if mbase (m k) = 0 then best
      else if mlength (m k) \<ge> sz \<and> mtype (m k) = 1 then
        if best = -1 \<or> mlength (m best) > mlength (m k) then k else best
      else best)"

definition best_fit :: "int \<Rightarrow> (int \<Rightarrow> memory_map) \<Rightarrow> u64 \<Rightarrow> int" where
  "best_fit n m sz = fold (best_step m sz) [0..n - 1] (-1)"

definition split_entry :: "int \<Rightarrow> int \<Rightarrow> u64 \<Rightarrow> (int \<Rightarrow> memory_map) \<Rightarrow> int \<Rightarrow> memory_map" where
  "split_entry best n sz m =
     (let remain = mlength (m best) - sz;
          m = shift_up best n m
      in m(best + 1 := \<lparr>mbase = mbase (m best) + sz, mlength = remain, mtype = 1,
                        macpi = macpi (m best)\<rparr>))"

definition take_entry :: "int \<Rightarrow> u64 \<Rightarrow> (int \<Rightarrow> memory_map) \<Rightarrow> int \<Rightarrow> memory_map" where
  "take_entry best sz m = m(best := (m best)\<lparr>mlength := sz, mtype := 2\<rparr>)"

definition allocate :: "u64 \<Rightarrow> 'a pmm_scheme \<Rightarrow> u32 \<times> 'a pmm_scheme" where
  "allocate sz s =
     (let m = mm_map s; best = best_fit (entries s) m sz
      in if best = -1 then (0, s)
         else if mlength (m best) - sz > 0 then
           if entries s \<ge> MAX_FREE_PAGES then (0, s)
           else
             let m = take_entry best sz (split_entry best (entries s) sz m)
             in (ucast (mbase (m best)), s\<lparr>mm_entry := mm_entry s + 1, mm_map := m\<rparr>)
         else
           let m = take_entry best sz m
           in (ucast (mbase (m best)), s\<lparr>mm_map := m\<rparr>))"

definition find_base :: "int \<Rightarrow> (int \<Rightarrow> memory_map) \<Rightarrow> u32 \<Rightarrow> int" where
  "find_base n m a =
     (case find (\<lambda>k. mbase (m k) = ucast a) [0..n - 1] of Some k \<Rightarrow> k | None \<Rightarrow> -1)"

text \<open>The two merges of \<open>free\<close>; each works on the map, the count and the index.\<close>

fun merge_prev :: "(int \<Rightarrow> memory_map) \<times> int \<times> int \<Rightarrow> (int \<Rightarrow> memory_map) \<times> int \<times> int" where
  "merge_prev (m, n, index) =
     (if index > 0 \<and> mtype (m (index - 1)) = 1 \<and>
         mbase (m (index - 1)) + mlength (m (index - 1)) = mbase (m index) then
        let m = m(index - 1 := (m (index - 1))\<lparr>mlength := mlength (m (index - 1)) + mlength (m index)\<rparr>)
        in (shift_down index (n - 2) m, n - 1, index - 1)
      else (m, n, index))"

fun merge_next :: "(int \<Rightarrow> memory_map) \<times> int \<times> int \<Rightarrow> (int \<Rightarrow> memory_map) \<times> int \<times> int" where
  "merge_next (m, n, index) =
     (if index < n - 1 \<and> mtype (m (index + 1)) = 1 \<and>
         mbase (m index) + mlength (m index) = mbase (m (index + 1)) then
        let m = m(index := (m index)\<lparr>mlength := mlength (m index) + mlength (m (index + 1))\<rparr>)
        in (shift_down (index + 1) (n - 2) m, n - 1, index)
      else (m, n, index))"

definition free :: "u32 \<Rightarrow> 'a pmm_scheme \<Rightarrow> 'a pmm_scheme" where
  "free physical_address s =
     (let index = find_base (entries s) (mm_map s) physical_address
      in if index = -1 then s
         else
           let m = (mm_map s)(index := (mm_map s index)\<lparr>mtype := 1\<rparr>);
               (m, n, index) = merge_next (merge_prev (m, entries s, index))
           in s\<lparr>mm_entry := word_of_int n, mm_map := m\<rparr>)"

definition search_entry :: "(int \<Rightarrow> memory_map) \<Rightarrow> int \<Rightarrow> int \<times> int \<times> 'a screen_scheme \<Rightarrow> int \<times> int \<times> 'a screen_scheme" where
  "search_entry m k st =
     (let (i, j, s) = st;
          (i, j, s) = print_string (str_bytes ''base: '') i j s;
          (i, s) = print_hex (ucast (mbase (m k))) i s;
          (i, j, s) = print_string (str_bytes ''Size: '') i j s;
          (i, s) = print_number (ucast (mlength (m k))) i s;
          (i, j, s) = print_string (str_bytes ''Type: '') i j s;
          (i, s) = print_number (mtype (m k)) i s
      in (i + 80, j, s))"

text \<open>The parameters i and j of \<open>search\<close> shadow the globals.\<close>

definition search :: "int \<Rightarrow> int \<Rightarrow> 'a pmm_scheme \<Rightarrow> 'a pmm_scheme" where
  "search i j s =
     (let m = mm_map s; n = entries s;
          (i, j, s) = print_string (str_bytes ''Entries: '') i j s;
          (i, s) = print_number (word_of_int n) i s;
          (i, j, s) = fold (search_entry m) [0..n - 1] (i + 80, j, s)
      in s)"

definition boot_pmm :: pmm where
  "boot_pmm = kbd.extend boot_kbd
     (pmm.fields 0 (\<lambda>_. \<lparr>mbase = 0, mlength = 0, mtype = 0, macpi = 0\<rparr>))"

section \<open>Best fit\<close>

definition candidate :: "(int \<Rightarrow> memory_map) \<Rightarrow> u64 \<Rightarrow> int \<Rightarrow> bool" where
  "candidate m sz k \<longleftrightarrow> mbase (m k) \<noteq> 0 \<and> sz \<le> mlength (m k) \<and> mtype (m k) = 1"

lemma best_step_candidate:
  "best_step m sz k best =
     (if candidate m sz k \<and> (best = -1 \<or> mlength (m k) < mlength (m best)) then k else best)"
  by (simp add: best_step_def candidate_def)

lemma best_fit_Suc: "0 \<le> n \<Longrightarrow> best_fit (n + 1) m sz = best_step m sz n (best_fit n m sz)"
  by (simp add: best_fit_def upto_rec2)

text \<open>The result is \<open>-1\<close> exactly when no entry qualifies, and otherwise the first
  qualifying entry of least length.\<close>

lemma best_fit_spec:
  "0 \<le> n \<Longrightarrow>
   (best_fit n m sz = -1 \<and> (\<forall>k. 0 \<le> k \<and> k < n \<longrightarrow> \<not> candidate m sz k)) \<or>
   (0 \<le> best_fit n m sz \<and> best_fit n m sz < n \<and> candidate m sz (best_fit n m sz) \<and>
    (\<forall>k. 0 \<le> k \<and> k < n \<and> candidate m sz k \<longrightarrow> mlength (m (best_fit n m sz)) \<le> mlength (m k)))"
proof (induction "nat n" arbitrary: n)
  case 0
  then show ?case by (auto simp: best_fit_def)
next
  case (Suc d)
  define n' where "n' = n - 1"
  have n': "n = n' + 1" "0 \<le> n'" "d = nat n'" using Suc.hyps(2) by (auto simp: n'_def)
  have split: "k < n' + 1 \<longleftrightarrow> k < n' \<or> k = n'" for k by linarith
  show ?case
    using Suc.hyps(1) [OF n'(3) n'(2)]
    unfolding n'(1) best_fit_Suc [OF n'(2)] best_step_candidate split
    using n'(2) by (auto simp: not_less intro: order.trans less_imp_le)
qed


section \<open>The abstract view: a list of regions\<close>

definition arr :: "(int \<Rightarrow> 'a) \<Rightarrow> nat \<Rightarrow> 'a list" where
  "arr m n = map (\<lambda>k. m (int k)) [0..<n]"

definition regions :: "'a pmm_scheme \<Rightarrow> memory_map list" where
  "regions s = arr (mm_map s) (nat (entries s))"

definition extent :: "memory_map \<Rightarrow> nat set" where
  "extent r = {unat (mbase r)..<unat (mbase r) + unat (mlength r)}"

definition region_ok :: "memory_map \<Rightarrow> bool" where
  "region_ok r \<longleftrightarrow> 0 < unat (mlength r) \<and> unat (mbase r) + unat (mlength r) < 2 ^ 64 \<and>
     (mtype r = 1 \<longrightarrow> unat (mbase r) + unat (mlength r) \<le> 2 ^ 32)"

definition apart :: "memory_map \<Rightarrow> memory_map \<Rightarrow> bool" where
  "apart a b \<longleftrightarrow> extent a \<inter> extent b = {}"

definition disjoint_regions :: "memory_map list \<Rightarrow> bool" where
  "disjoint_regions = sorted_wrt apart"

definition wf_regions :: "memory_map list \<Rightarrow> bool" where
  "wf_regions rs \<longleftrightarrow> (\<forall>r \<in> set rs. region_ok r) \<and> disjoint_regions rs"

definition bytes_of_type :: "(u32 \<Rightarrow> bool) \<Rightarrow> memory_map list \<Rightarrow> nat set" where
  "bytes_of_type P rs = (\<Union>r \<in> {r \<in> set rs. P (mtype r)}. extent r)"

abbreviation free_bytes :: "memory_map list \<Rightarrow> nat set" where
  "free_bytes \<equiv> bytes_of_type (\<lambda>t. t = 1)"

definition mm_wf :: "'a pmm_scheme \<Rightarrow> bool" where
  "mm_wf s \<longleftrightarrow> wf_regions (regions s) \<and> entries s \<le> MAX_FREE_PAGES"

lemma entries_bounds [simp]: "0 \<le> entries s" "entries s < 65536"
proof -
  have "entries s = int (unat (mm_entry s))" by (simp add: entries_def)
  with unat_u16 [of "mm_entry s"] show "0 \<le> entries s" "entries s < 65536" by linarith+
qed

lemma arr_length [simp]: "length (arr m n) = n"
  by (simp add: arr_def)

lemma arr_nth [simp]: "k < n \<Longrightarrow> arr m n ! k = m (int k)"
  by (simp add: arr_def)

lemma regions_length [simp]: "length (regions s) = nat (entries s)"
  by (simp add: regions_def)

lemma arr_at: "b < n \<Longrightarrow> arr m n = take b (arr m n) @ m (int b) # drop (Suc b) (arr m n)"
  using id_take_nth_drop [of b "arr m n"] by simp

lemma arr_replace: "b < n \<Longrightarrow> arr (m(int b := x)) n = take b (arr m n) @ x # drop (Suc b) (arr m n)"
  by (rule nth_equalityI) (auto simp: nth_append nth_Cons')

lemma arr_insert:
  assumes "b < n"
  shows "arr ((shift_up (int b) (int n) m)(int b := x, int b + 1 := y)) (Suc n) =
         take b (arr m n) @ x # y # drop (Suc b) (arr m n)"
  using assms
  by (intro nth_equalityI) (auto simp: nth_append nth_Cons' shift_up_eq)

lemma arr_remove:
  assumes "b < n"
  shows "arr (shift_down (int b) (int n - 2) m) (n - 1) = take b (arr m n) @ drop (Suc b) (arr m n)"
  using assms
  by (intro nth_equalityI) (auto simp: nth_append shift_down_eq add_ac)

section \<open>Operations on the list of regions\<close>

lemma bytes_of_type_append [simp]:
  "bytes_of_type P (xs @ ys) = bytes_of_type P xs \<union> bytes_of_type P ys"
  by (auto simp: bytes_of_type_def)

lemma bytes_of_type_Cons [simp]:
  "bytes_of_type P (r # ys) = (if P (mtype r) then extent r else {}) \<union> bytes_of_type P ys"
  by (auto simp: bytes_of_type_def)

lemma bytes_of_type_Nil [simp]: "bytes_of_type P [] = {}"
  by (simp add: bytes_of_type_def)

lemma apart_sym: "apart a b = apart b a"
  by (auto simp: apart_def)

lemma disjoint_regions_append [simp]:
  "disjoint_regions (xs @ ys) \<longleftrightarrow> disjoint_regions xs \<and> disjoint_regions ys \<and>
     (\<forall>x \<in> set xs. \<forall>y \<in> set ys. apart x y)"
  by (simp add: disjoint_regions_def sorted_wrt_append)

lemma disjoint_regions_Cons [simp]:
  "disjoint_regions (r # ys) \<longleftrightarrow> (\<forall>y \<in> set ys. apart r y) \<and> disjoint_regions ys"
  by (simp add: disjoint_regions_def)

lemma disjoint_regions_Nil [simp]: "disjoint_regions []"
  by (simp add: disjoint_regions_def)

lemma apart_bytes: "\<forall>y \<in> set ys. apart r y \<Longrightarrow> extent r \<inter> bytes_of_type P ys = {}"
  by (auto simp: bytes_of_type_def apart_def)

lemma apart_inside:
  "\<forall>r \<in> set rs. apart x r \<Longrightarrow> extent y \<subseteq> (\<Union>r \<in> set rs. extent r) \<Longrightarrow> apart x y"
  unfolding apart_def by blast

lemma wf_regions_at:
  assumes "wf_regions (xs @ r # ys)"
  shows "region_ok r" "extent r \<inter> bytes_of_type P xs = {}" "extent r \<inter> bytes_of_type P ys = {}"
proof -
  from assms have "\<forall>x \<in> set xs. apart r x" "\<forall>y \<in> set ys. apart r y" "region_ok r"
    by (auto simp: wf_regions_def apart_sym)
  then show "region_ok r" "extent r \<inter> bytes_of_type P xs = {}" "extent r \<inter> bytes_of_type P ys = {}"
    by (auto dest: apart_bytes)
qed

text \<open>Replacing a run of regions by regions inside it keeps a list well formed.\<close>

lemma wf_regions_replace:
  assumes wf: "wf_regions (xs @ rs @ ys)" "wf_regions rs'"
    and sub: "(\<Union>r \<in> set rs'. extent r) \<subseteq> (\<Union>r \<in> set rs. extent r)"
  shows "wf_regions (xs @ rs' @ ys)"
proof -
  have "apart x y" if "x \<in> set xs \<union> set ys" "y \<in> set rs'" for x y
  proof (rule apart_inside)
    show "\<forall>r \<in> set rs. apart x r" using wf(1) that(1) by (auto simp: wf_regions_def apart_sym)
    show "extent y \<subseteq> (\<Union>r \<in> set rs. extent r)" using sub that(2) by blast
  qed
  then have "apart x y \<and> apart y x" if "x \<in> set xs \<union> set ys" "y \<in> set rs'" for x y
    using that by (simp add: apart_sym)
  with wf show ?thesis by (auto simp: wf_regions_def)
qed

definition used_part :: "u64 \<Rightarrow> memory_map \<Rightarrow> memory_map" where
  "used_part sz r = r\<lparr>mlength := sz, mtype := 2\<rparr>"

definition free_part :: "u64 \<Rightarrow> memory_map \<Rightarrow> memory_map" where
  "free_part sz r = \<lparr>mbase = mbase r + sz, mlength = mlength r - sz, mtype = 1, macpi = macpi r\<rparr>"

lemma split_extent:
  assumes r: "region_ok r" "mtype r = 1" and sz: "0 < unat sz" "unat sz < unat (mlength r)"
  shows "extent r = extent (used_part sz r) \<union> extent (free_part sz r)"
    "extent (used_part sz r) \<inter> extent (free_part sz r) = {}"
    "wf_regions [used_part sz r, free_part sz r]"
proof -
  have b: "unat (mbase r + sz) = unat (mbase r) + unat sz"
    using r sz by (intro unat_add_lem [THEN iffD1]) (simp add: region_ok_def)
  have l: "unat (mlength r - sz) = unat (mlength r) - unat sz"
    using sz by (intro unat_sub) (simp add: word_le_nat_alt)
  show 1: "extent r = extent (used_part sz r) \<union> extent (free_part sz r)"
    "extent (used_part sz r) \<inter> extent (free_part sz r) = {}"
    using sz by (auto simp: extent_def used_part_def free_part_def b l)
  then show "wf_regions [used_part sz r, free_part sz r]"
    using r sz by (auto simp: wf_regions_def region_ok_def apart_def used_part_def free_part_def b l)
qed

lemma regions_split:
  assumes wf: "wf_regions (xs @ r # ys)" and t: "mtype r = 1"
    and sz: "0 < unat sz" "unat sz < unat (mlength r)"
  shows "wf_regions (xs @ used_part sz r # free_part sz r # ys)"
    "free_bytes (xs @ used_part sz r # free_part sz r # ys) =
       free_bytes (xs @ r # ys) - extent (used_part sz r)"
    "extent (used_part sz r) \<subseteq> free_bytes (xs @ r # ys)"
proof -
  have r: "region_ok r" using wf by (rule wf_regions_at)
  note s = split_extent [OF r t sz]
  show "wf_regions (xs @ used_part sz r # free_part sz r # ys)"
    using wf_regions_replace [of xs "[r]" ys "[used_part sz r, free_part sz r]"] wf s by simp
  have ft: "mtype (used_part sz r) = 2" "mtype (free_part sz r) = 1"
    by (simp_all add: used_part_def free_part_def)
  show "free_bytes (xs @ used_part sz r # free_part sz r # ys) =
       free_bytes (xs @ r # ys) - extent (used_part sz r)"
    using wf_regions_at(2,3) [OF wf, of "\<lambda>t. t = 1"] s(1,2) t ft by auto
  show "extent (used_part sz r) \<subseteq> free_bytes (xs @ r # ys)" using s(1) t by auto
qed

lemma regions_exact:
  assumes wf: "wf_regions (xs @ r # ys)" and t: "mtype r = 1" and sz: "sz = mlength r"
  shows "wf_regions (xs @ used_part sz r # ys)"
    "free_bytes (xs @ used_part sz r # ys) = free_bytes (xs @ r # ys) - extent (used_part sz r)"
    "extent (used_part sz r) \<subseteq> free_bytes (xs @ r # ys)"
proof -
  have e: "extent (used_part sz r) = extent r" "mtype (used_part sz r) = 2"
    using sz by (simp_all add: extent_def used_part_def)
  have "region_ok r" using wf by (rule wf_regions_at)
  then have "wf_regions [used_part sz r]"
    using sz by (auto simp: wf_regions_def region_ok_def used_part_def)
  then show "wf_regions (xs @ used_part sz r # ys)"
    using wf_regions_replace [of xs "[r]" ys "[used_part sz r]"] wf e by simp
  show "free_bytes (xs @ used_part sz r # ys) = free_bytes (xs @ r # ys) - extent (used_part sz r)"
    using wf_regions_at(2,3) [OF wf, of "\<lambda>t. t = 1"] t e by auto
  show "extent (used_part sz r) \<subseteq> free_bytes (xs @ r # ys)" using e t by auto
qed

lemma merge_extent:
  assumes "region_ok p" "region_ok r" "mbase p + mlength p = mbase r"
  shows "extent (p\<lparr>mlength := mlength p + mlength r\<rparr>) = extent p \<union> extent r"
    "mtype r = 1 \<Longrightarrow> region_ok (p\<lparr>mlength := mlength p + mlength r\<rparr>)"
proof -
  have b: "unat (mbase r) = unat (mbase p) + unat (mlength p)"
    using assms(1) unfolding assms(3) [symmetric]
    by (intro unat_add_lem [THEN iffD1]) (simp add: region_ok_def)
  have l: "unat (mlength p + mlength r) = unat (mlength p) + unat (mlength r)"
    using assms(2) b by (intro unat_add_lem [THEN iffD1]) (simp add: region_ok_def)
  show "extent (p\<lparr>mlength := mlength p + mlength r\<rparr>) = extent p \<union> extent r"
    by (auto simp: extent_def b l)
  show "mtype r = 1 \<Longrightarrow> region_ok (p\<lparr>mlength := mlength p + mlength r\<rparr>)"
    using assms(1,2) by (simp add: region_ok_def b l)
qed

lemma regions_merge:
  assumes wf: "wf_regions (xs @ p # r # ys)" and t: "mtype p = 1" "mtype r = 1"
    and adj: "mbase p + mlength p = mbase r"
  shows "wf_regions (xs @ p\<lparr>mlength := mlength p + mlength r\<rparr> # ys)"
    "bytes_of_type P (xs @ p\<lparr>mlength := mlength p + mlength r\<rparr> # ys) = bytes_of_type P (xs @ p # r # ys)"
proof -
  let ?q = "p\<lparr>mlength := mlength p + mlength r\<rparr>"
  have ok: "region_ok p" "region_ok r" using wf by (auto simp: wf_regions_def)
  note e = merge_extent [OF ok adj]
  have "wf_regions [?q]" using e(2) t by (simp add: wf_regions_def)
  then show "wf_regions (xs @ ?q # ys)"
    using wf_regions_replace [of xs "[p, r]" ys "[?q]"] wf e(1) by simp
  show "bytes_of_type P (xs @ ?q # ys) = bytes_of_type P (xs @ p # r # ys)"
    using t e(1) by auto
qed

lemma regions_release:
  assumes wf: "wf_regions (xs @ r # ys)" and low: "unat (mbase r) + unat (mlength r) \<le> 2 ^ 32"
  shows "wf_regions (xs @ r\<lparr>mtype := 1\<rparr> # ys)"
    "free_bytes (xs @ r\<lparr>mtype := 1\<rparr> # ys) = free_bytes (xs @ r # ys) \<union> extent r"
proof -
  have e: "extent (r\<lparr>mtype := 1\<rparr>) = extent r" by (simp add: extent_def)
  have "region_ok r" using wf by (rule wf_regions_at)
  then have "wf_regions [r\<lparr>mtype := 1\<rparr>]"
    using low by (simp add: wf_regions_def region_ok_def)
  then show "wf_regions (xs @ r\<lparr>mtype := 1\<rparr> # ys)"
    using wf_regions_replace [of xs "[r]" ys "[r\<lparr>mtype := 1\<rparr>]"] wf e by simp
  show "free_bytes (xs @ r\<lparr>mtype := 1\<rparr> # ys) = free_bytes (xs @ r # ys) \<union> extent r"
    by (auto simp: e)
qed

section \<open>allocate on the list of regions\<close>

definition best_index :: "u64 \<Rightarrow> 'a pmm_scheme \<Rightarrow> nat" where
  "best_index sz s = nat (best_fit (entries s) (mm_map s) sz)"

lemma entries_unat: "entries s = int (unat (mm_entry s))"
  by (simp add: entries_def)

lemma entries_incr:
  "entries s < MAX_FREE_PAGES \<Longrightarrow> uint (mm_entry s + 1) = entries s + 1"
proof -
  assume "entries s < MAX_FREE_PAGES"
  then have "unat (mm_entry s) < 1024"
    unfolding MAX_FREE_PAGES_def using entries_unat [of s] by linarith
  then have "unat (mm_entry s) + unat (1 :: u16) < 2 ^ LENGTH(16)" by simp
  then have "unat (mm_entry s + 1) = unat (mm_entry s) + 1"
    by (metis unat_1 unat_add_lem)
  moreover have "uint (mm_entry s + 1) = int (unat (mm_entry s + 1))" by simp
  ultimately show ?thesis using entries_unat [of s] by linarith
qed

lemma best_fit_cases:
  obtains (none) "best_fit (entries s) (mm_map s) sz = -1"
      "\<forall>r \<in> set (regions s). \<not> (mbase r \<noteq> 0 \<and> sz \<le> mlength r \<and> mtype r = 1)"
    | (fit) b where "best_fit (entries s) (mm_map s) sz = int b" "b < nat (entries s)"
      "mbase (regions s ! b) \<noteq> 0" "sz \<le> mlength (regions s ! b)" "mtype (regions s ! b) = 1"
      "\<forall>r \<in> set (regions s). mbase r \<noteq> 0 \<and> sz \<le> mlength r \<and> mtype r = 1 \<longrightarrow>
         mlength (regions s ! b) \<le> mlength r"
proof -
  let ?b = "best_fit (entries s) (mm_map s) sz"
  have idx: "(\<forall>r \<in> set (regions s). Q r) \<longleftrightarrow> (\<forall>k. 0 \<le> k \<and> k < entries s \<longrightarrow> Q (mm_map s k))" for Q
  proof
    assume "\<forall>r \<in> set (regions s). Q r"
    then have *: "\<forall>k < nat (entries s). Q (mm_map s (int k))"
      by (metis all_nth_imp_all_set arr_nth nth_mem regions_def regions_length)
    show "\<forall>k. 0 \<le> k \<and> k < entries s \<longrightarrow> Q (mm_map s k)"
    proof (intro allI impI)
      fix k assume k: "0 \<le> k \<and> k < entries s"
      then have "nat k < nat (entries s)" by linarith
      with * have "Q (mm_map s (int (nat k)))" by blast
      with k show "Q (mm_map s k)" by simp
    qed
  next
    assume "\<forall>k. 0 \<le> k \<and> k < entries s \<longrightarrow> Q (mm_map s k)"
    then show "\<forall>r \<in> set (regions s). Q r"
      by (auto simp: regions_def arr_def)
  qed
  from best_fit_spec [OF entries_bounds(1), of s "mm_map s" sz] show ?thesis
  proof (elim disjE conjE)
    assume "?b = -1" "\<forall>k. 0 \<le> k \<and> k < entries s \<longrightarrow> \<not> candidate (mm_map s) sz k"
    then show ?thesis by (intro none) (auto simp: idx candidate_def)
  next
    assume b: "0 \<le> ?b" "?b < entries s" "candidate (mm_map s) sz ?b"
      "\<forall>k. 0 \<le> k \<and> k < entries s \<and> candidate (mm_map s) sz k \<longrightarrow> mlength (mm_map s ?b) \<le> mlength (mm_map s k)"
    then have "regions s ! nat ?b = mm_map s ?b" "nat ?b < nat (entries s)"
      by (simp_all add: regions_def)
    with b show ?thesis
      by (intro fit [of "nat ?b"]) (auto simp: idx candidate_def)
  qed
qed

lemma allocate_list:
  fixes s :: "'a pmm_scheme"
  obtains (none) "allocate sz s = (0, s)"
      "\<forall>r \<in> set (regions s). \<not> (mbase r \<noteq> 0 \<and> sz \<le> mlength r \<and> mtype r = 1)"
    | (full) "allocate sz s = (0, s)" "MAX_FREE_PAGES \<le> entries s"
    | (split) xs r ys s' where "regions s = xs @ r # ys" "mtype r = 1" "mbase r \<noteq> 0" "sz < mlength r"
      "allocate sz s = (ucast (mbase r), s')" "regions s' = xs @ used_part sz r # free_part sz r # ys"
      "entries s' = entries s + 1" "entries s < MAX_FREE_PAGES"
      "\<forall>q \<in> set (regions s). mbase q \<noteq> 0 \<and> sz \<le> mlength q \<and> mtype q = 1 \<longrightarrow> mlength r \<le> mlength q"
    | (exact) xs r ys s' where "regions s = xs @ r # ys" "mtype r = 1" "mbase r \<noteq> 0" "sz = mlength r"
      "allocate sz s = (ucast (mbase r), s')" "regions s' = xs @ used_part sz r # ys"
      "entries s' = entries s"
      "\<forall>q \<in> set (regions s). mbase q \<noteq> 0 \<and> sz \<le> mlength q \<and> mtype q = 1 \<longrightarrow> mlength r \<le> mlength q"
proof (cases rule: best_fit_cases [of s sz])
  case none
  then show ?thesis using that(1) by (simp add: allocate_def Let_def)
next
  case (fit b)
  let ?m = "mm_map s" let ?n = "nat (entries s)"
  define r where "r = regions s ! b"
  note rf = fit(3-6) [folded r_def]
  have r: "r = ?m (int b)" using fit(2) by (simp add: r_def regions_def)
  define xs ys where "xs = take b (regions s)" and "ys = drop (Suc b) (regions s)"
  have L: "regions s = xs @ r # ys"
    unfolding xs_def ys_def r_def using fit(2) by (simp add: id_take_nth_drop)
  have pos: "mlength r - sz > 0 \<longleftrightarrow> sz < mlength r"
    using fit(4) by (auto simp: r_def word_gt_0)
  consider "sz < mlength r" "MAX_FREE_PAGES \<le> entries s" | "sz < mlength r" "entries s < MAX_FREE_PAGES"
    | "sz = mlength r" using fit(4) r_def by fastforce
  then show ?thesis
  proof cases
    case 1
    then show ?thesis using that(2) fit(1) pos r by (simp add: allocate_def Let_def)
  next
    case 2
    define s' where "s' = s\<lparr>mm_entry := mm_entry s + 1,
      mm_map := take_entry (int b) sz (split_entry (int b) (entries s) sz ?m)\<rparr>"
    have e: "entries s' = entries s + 1"
      using entries_incr [OF 2(2)] by (simp add: s'_def entries_def)
    have "take_entry (int b) sz (split_entry (int b) (entries s) sz ?m) =
      (shift_up (int b) (int ?n) ?m)(int b := used_part sz r, int b + 1 := free_part sz r)"
      by (auto simp: take_entry_def split_entry_def Let_def shift_up_eq r used_part_def free_part_def fun_eq_iff)
    then have "regions s' = xs @ used_part sz r # free_part sz r # ys"
      using arr_insert [OF fit(2), of ?m "used_part sz r" "free_part sz r"] e
      by (simp add: regions_def s'_def xs_def ys_def entries_def nat_add_distrib)
    moreover have "allocate sz s = (ucast (mbase r), s')"
      using 2 fit(1) pos r
      by (simp add: allocate_def Let_def s'_def take_entry_def split_entry_def shift_up_eq)
    ultimately show ?thesis using that(3) [OF L rf(3) rf(1) 2(1) _ _ e 2(2) rf(4)] by blast
  next
    case 3
    define s' where "s' = s\<lparr>mm_map := take_entry (int b) sz ?m\<rparr>"
    have "regions s' = xs @ used_part sz r # ys"
      using arr_replace [OF fit(2), of ?m "used_part sz r"] r
      by (simp add: regions_def s'_def xs_def ys_def entries_def take_entry_def used_part_def)
    moreover have "allocate sz s = (ucast (mbase r), s')"
      using 3 fit(1) pos r by (simp add: allocate_def Let_def s'_def take_entry_def)
    moreover have "entries s' = entries s" by (simp add: s'_def entries_def)
    ultimately show ?thesis using that(4) [OF L rf(3) rf(1) 3 _ _ _ rf(4)] by blast
  qed
qed


definition block_bytes :: "u64 \<Rightarrow> u32 \<Rightarrow> nat set" where
  "block_bytes sz a = {unat a..<unat a + unat sz}"

lemma low_base:
  assumes "region_ok r" "mtype r = 1"
  shows "unat (ucast (mbase r) :: u32) = unat (mbase r)"
    "mbase r \<noteq> 0 \<Longrightarrow> (ucast (mbase r) :: u32) \<noteq> 0"
    "ucast (ucast (mbase r) :: u32) = mbase r"
proof -
  have "unat (mbase r) < 2 ^ 32" using assms by (simp add: region_ok_def)
  then show u: "unat (ucast (mbase r) :: u32) = unat (mbase r)"
    by (simp add: unsigned_ucast_eq take_bit_eq_mod)
  show "mbase r \<noteq> 0 \<Longrightarrow> (ucast (mbase r) :: u32) \<noteq> 0"
    using u by (metis unat_0 unat_eq_zero)
  have "unat (ucast (ucast (mbase r) :: u32) :: u64) = unat (mbase r)"
    using u unat_u64 [of "mbase r"] by (simp only: unsigned_ucast_eq [of "ucast (mbase r) :: u32"] u)
      (simp add: take_bit_eq_mod)
  then show "ucast (ucast (mbase r) :: u32) = mbase r" by (rule word_unat_eq_iff [THEN iffD2])
qed

lemma used_part_bytes:
  assumes "region_ok r" "mtype r = 1"
  shows "extent (used_part sz r) = block_bytes sz (ucast (mbase r))"
  using low_base(1) [OF assms] by (simp add: extent_def used_part_def block_bytes_def)

lemma allocate_spec:
  assumes wf: "mm_wf s" and sz: "0 < sz" and al: "allocate sz s = (a, s')"
  shows "mm_wf s'"
    "a = 0 \<Longrightarrow> s' = s"
    "a \<noteq> 0 \<Longrightarrow> block_bytes sz a \<subseteq> free_bytes (regions s)"
    "a \<noteq> 0 \<Longrightarrow> free_bytes (regions s') = free_bytes (regions s) - block_bytes sz a"
proof -
  have sz': "0 < unat sz" using sz by (simp add: word_gt_0 unat_gt_0)
  have wfr: "wf_regions (regions s)" and n: "entries s \<le> MAX_FREE_PAGES"
    using wf by (simp_all add: mm_wf_def)
  have goal: "mm_wf s' \<and> (a = 0 \<longrightarrow> s' = s) \<and> (a \<noteq> 0 \<longrightarrow> block_bytes sz a \<subseteq> free_bytes (regions s) \<and>
      free_bytes (regions s') = free_bytes (regions s) - block_bytes sz a)"
  proof (cases rule: allocate_list [of sz s])
    case (split xs r ys t)
    have r: "region_ok r" using wfr split(1) wf_regions_at(1) [of xs r ys] by simp
    note u = used_part_bytes [OF r split(2), of sz] low_base(2) [OF r split(2,3)]
    have lt: "unat sz < unat (mlength r)" using split(4) by (simp add: word_less_nat_alt)
    note p = regions_split [OF wfr [unfolded split(1)] split(2) sz' lt]
    have "a = ucast (mbase r)" "s' = t" using al split(5) by simp_all
    moreover have "mm_wf t"
      unfolding mm_wf_def using p(1) split(6-8) by simp
    ultimately show ?thesis
      using p(2,3) u split(1,6) by simp
  next
    case (exact xs r ys t)
    have r: "region_ok r" using wfr exact(1) wf_regions_at(1) [of xs r ys] by simp
    note u = used_part_bytes [OF r exact(2), of sz] low_base(2) [OF r exact(2,3)]
    note p = regions_exact [OF wfr [unfolded exact(1)] exact(2,4)]
    have "a = ucast (mbase r)" "s' = t" using al exact(5) by simp_all
    moreover have "mm_wf t"
      unfolding mm_wf_def using p(1) exact(6,7) n by simp
    ultimately show ?thesis
      using p(2,3) u exact(1,6) by simp
  qed (use al wf in simp_all)
  then show "mm_wf s'" "a = 0 \<Longrightarrow> s' = s" "a \<noteq> 0 \<Longrightarrow> block_bytes sz a \<subseteq> free_bytes (regions s)"
    "a \<noteq> 0 \<Longrightarrow> free_bytes (regions s') = free_bytes (regions s) - block_bytes sz a"
    by blast+
qed

section \<open>free on the list of regions\<close>

lemma find_base_cases:
  obtains (none) "find_base (entries s) (mm_map s) a = -1" "\<forall>r \<in> set (regions s). mbase r \<noteq> ucast a"
    | (found) b where "find_base (entries s) (mm_map s) a = int b" "b < nat (entries s)"
      "mbase (mm_map s (int b)) = ucast a"
proof (cases "find (\<lambda>k. mbase (mm_map s k) = ucast a) [0..entries s - 1]")
  case None
  then have "\<forall>k \<in> {0..entries s - 1}. mbase (mm_map s k) \<noteq> ucast a"
    by (simp add: find_None_iff)
  then have "\<forall>r \<in> set (regions s). mbase r \<noteq> ucast a"
    by (auto simp: regions_def arr_def)
  with None show ?thesis by (intro none) (simp_all add: find_base_def)
next
  case (Some k)
  then have k: "k \<in> set [0..entries s - 1]" "mbase (mm_map s k) = ucast a"
    by (auto simp: find_Some_iff in_set_conv_nth)
  then have "0 \<le> k" "k < entries s" by auto
  with Some k show ?thesis
    by (intro found [of "nat k"]) (simp_all add: find_base_def)
qed

text \<open>One merge on the list: the map, the count and the index of the region just freed.\<close>

definition holds_at :: "(int \<Rightarrow> memory_map) \<times> int \<times> int \<Rightarrow> memory_map list \<Rightarrow> memory_map \<Rightarrow> memory_map list \<Rightarrow> bool" where
  "holds_at st xs r ys \<longleftrightarrow> (case st of (m, n, index) \<Rightarrow>
     arr m (nat n) = xs @ r # ys \<and> int (length xs) = index \<and> n = int (length (xs @ r # ys)))"

lemma holds_at_nth:
  assumes "holds_at (m, n, index) xs r ys"
  shows "m index = r" "ys = y # zs \<Longrightarrow> m (index + 1) = y" "xs = ws @ [w] \<Longrightarrow> m (index - 1) = w"
proof -
  have a: "arr m (nat n) = xs @ r # ys" "int (length xs) = index" "n = int (length (xs @ r # ys))"
    using assms unfolding holds_at_def by auto
  have at: "m (int k) = (xs @ r # ys) ! k" if "k < length (xs @ r # ys)" for k
    using that a by (metis arr_nth arr_length)
  from at [of "length xs"] show "m index = r" using a by simp
  from at [of "Suc (length xs)"] show "ys = y # zs \<Longrightarrow> m (index + 1) = y"
    using a by (simp add: nth_append add.commute)
  from at [of "length xs - 1"] show "xs = ws @ [w] \<Longrightarrow> m (index - 1) = w"
    using a by (auto simp: nth_append)
qed

lemma merge_next_list:
  assumes h: "holds_at (m, n, index) xs r ys"
  shows "(merge_next (m, n, index) = (m, n, index) \<and>
          (\<forall>y zs. ys = y # zs \<longrightarrow> \<not> (mtype y = 1 \<and> mbase r + mlength r = mbase y))) \<or>
    (\<exists>y zs. ys = y # zs \<and> mtype y = 1 \<and> mbase r + mlength r = mbase y \<and>
       holds_at (merge_next (m, n, index)) xs (r\<lparr>mlength := mlength r + mlength y\<rparr>) zs)"
proof (cases ys)
  case Nil
  then show ?thesis using h by (simp add: holds_at_def)
next
  case (Cons y zs)
  let ?q = "r\<lparr>mlength := mlength r + mlength y\<rparr>"
  have v: "m index = r" "m (index + 1) = y" using holds_at_nth [OF h] Cons by simp_all
  have a: "arr m (nat n) = xs @ r # ys" "int (length xs) = index" "n = int (length (xs @ r # ys))"
    using h unfolding holds_at_def by auto
  show ?thesis
  proof (cases "mtype y = 1 \<and> mbase r + mlength r = mbase y")
    case True
    let ?m = "m(index := ?q)" and ?b = "Suc (length xs)"
    have lt: "length xs < nat n" "?b < nat n" using a Cons by simp_all
    have e: "merge_next (m, n, index) = (shift_down (index + 1) (n - 2) ?m, n - 1, index)"
      using True v a Cons by (simp add: Let_def)
    have "arr ?m (nat n) = xs @ ?q # y # zs"
      using arr_replace [OF lt(1), of m ?q] a Cons by simp
    then have "arr (shift_down (index + 1) (n - 2) ?m) (nat n - 1) = xs @ ?q # zs"
      using arr_remove [OF lt(2), of ?m] a by (simp add: add.commute)
    moreover have "nat n - 1 = nat (n - 1)" by simp
    ultimately have "holds_at (merge_next (m, n, index)) xs ?q zs"
      unfolding e holds_at_def using a(2,3) Cons by simp
    then show ?thesis using True Cons by blast
  next
    case False
    then show ?thesis using v Cons by auto
  qed
qed

lemma merge_prev_list:
  assumes h: "holds_at (m, n, index) xs r ys"
  shows "merge_prev (m, n, index) = (m, n, index) \<or>
    (\<exists>ws w. xs = ws @ [w] \<and> mtype w = 1 \<and> mbase w + mlength w = mbase r \<and>
       holds_at (merge_prev (m, n, index)) ws (w\<lparr>mlength := mlength w + mlength r\<rparr>) ys)"
proof (cases xs rule: rev_cases)
  case Nil
  then show ?thesis using h by (simp add: holds_at_def)
next
  case (snoc ws w)
  let ?q = "w\<lparr>mlength := mlength w + mlength r\<rparr>"
  have v: "m index = r" "m (index - 1) = w" using holds_at_nth [OF h] snoc by simp_all
  have a: "arr m (nat n) = xs @ r # ys" "int (length xs) = index" "n = int (length (xs @ r # ys))"
    using h unfolding holds_at_def by auto
  show ?thesis
  proof (cases "mtype w = 1 \<and> mbase w + mlength w = mbase r")
    case True
    let ?m = "m(index - 1 := ?q)" and ?b = "length xs"
    have lt: "length ws < nat n" "?b < nat n" using a snoc by simp_all
    have i: "index - 1 = int (length ws)" "0 < index" using a snoc by simp_all
    have e: "merge_prev (m, n, index) = (shift_down index (n - 2) ?m, n - 1, index - 1)"
      using True v i by (simp add: Let_def)
    have "arr ?m (nat n) = ws @ ?q # r # ys"
      using arr_replace [OF lt(1), of m ?q] a snoc i by simp
    then have "arr (shift_down index (n - 2) ?m) (nat n - 1) = ws @ ?q # ys"
      using arr_remove [OF lt(2), of ?m] a snoc by simp
    moreover have "nat n - 1 = nat (n - 1)" by simp
    ultimately have "holds_at (merge_prev (m, n, index)) ws ?q ys"
      unfolding e holds_at_def using a(2,3) snoc i by simp
    then show ?thesis using True snoc by blast
  next
    case False
    then show ?thesis using v by auto
  qed
qed

text \<open>Both merges together, on a freed region.\<close>

definition coalesces :: "memory_map list \<Rightarrow> memory_map list \<Rightarrow> bool" where
  "coalesces rs rs' \<longleftrightarrow> wf_regions rs' \<and> length rs' \<le> length rs \<and>
     (\<forall>P. bytes_of_type P rs' = bytes_of_type P rs) \<and>
     (\<forall>x. mtype x \<noteq> 1 \<longrightarrow> x \<in> set rs' \<longleftrightarrow> x \<in> set rs)"

lemma coalesces_refl: "wf_regions rs \<Longrightarrow> coalesces rs rs"
  by (simp add: coalesces_def)

lemma coalesces_trans: "coalesces a b \<Longrightarrow> coalesces b c \<Longrightarrow> coalesces a c"
  unfolding coalesces_def by (metis order_trans)

lemma coalesces_merge:
  assumes "wf_regions (xs @ p # r # ys)" "mtype p = 1" "mtype r = 1" "mbase p + mlength p = mbase r"
  shows "coalesces (xs @ p # r # ys) (xs @ p\<lparr>mlength := mlength p + mlength r\<rparr> # ys)"
  unfolding coalesces_def
proof (intro conjI allI impI)
  fix x :: memory_map assume "mtype x \<noteq> 1"
  then show "x \<in> set (xs @ p\<lparr>mlength := mlength p + mlength r\<rparr> # ys) \<longleftrightarrow> x \<in> set (xs @ p # r # ys)"
    using assms(2,3) by auto
qed (use regions_merge [OF assms] in simp_all)

lemma merge_prev_coalesces:
  assumes h: "holds_at (m, n, index) xs r ys" and t: "mtype r = 1" and wf: "wf_regions (xs @ r # ys)"
  shows "\<exists>xs' r'. holds_at (merge_prev (m, n, index)) xs' r' ys \<and> mtype r' = 1 \<and>
    coalesces (xs @ r # ys) (xs' @ r' # ys)"
  using merge_prev_list [OF h]
proof (elim disjE exE conjE)
  assume "merge_prev (m, n, index) = (m, n, index)"
  then show ?thesis using h t coalesces_refl [OF wf] by metis
next
  fix ws w
  assume *: "xs = ws @ [w]" "mtype w = 1" "mbase w + mlength w = mbase r"
    "holds_at (merge_prev (m, n, index)) ws (w\<lparr>mlength := mlength w + mlength r\<rparr>) ys"
  have "wf_regions (ws @ w # r # ys)" using wf *(1) by simp
  from coalesces_merge [OF this *(2) t *(3)] *(1)
  have "coalesces (xs @ r # ys) (ws @ w\<lparr>mlength := mlength w + mlength r\<rparr> # ys)" by simp
  moreover have "mtype (w\<lparr>mlength := mlength w + mlength r\<rparr>) = 1" using *(2) by simp
  ultimately show ?thesis using *(4) by metis
qed

lemma merge_next_coalesces:
  assumes h: "holds_at (m, n, index) xs r ys" and t: "mtype r = 1" and wf: "wf_regions (xs @ r # ys)"
  shows "\<exists>r' ys'. holds_at (merge_next (m, n, index)) xs r' ys' \<and>
    coalesces (xs @ r # ys) (xs @ r' # ys')"
  using merge_next_list [OF h]
proof (elim disjE exE conjE)
  assume "merge_next (m, n, index) = (m, n, index)"
  then show ?thesis using h coalesces_refl [OF wf] by metis
next
  fix y zs
  assume *: "ys = y # zs" "mtype y = 1" "mbase r + mlength r = mbase y"
    "holds_at (merge_next (m, n, index)) xs (r\<lparr>mlength := mlength r + mlength y\<rparr>) zs"
  have "wf_regions (xs @ r # y # zs)" using wf *(1) by simp
  from coalesces_merge [OF this t *(2,3)] *(1)
  have "coalesces (xs @ r # ys) (xs @ r\<lparr>mlength := mlength r + mlength y\<rparr> # zs)" by simp
  with *(4) show ?thesis by metis
qed

lemma merges_list:
  assumes h: "holds_at (m, n, index) xs r ys" and t: "mtype r = 1" and wf: "wf_regions (xs @ r # ys)"
  shows "\<exists>zs q ws. holds_at (merge_next (merge_prev (m, n, index))) zs q ws \<and>
    coalesces (xs @ r # ys) (zs @ q # ws)"
proof -
  obtain xs' r' where p: "holds_at (merge_prev (m, n, index)) xs' r' ys" "mtype r' = 1"
    "coalesces (xs @ r # ys) (xs' @ r' # ys)"
    using merge_prev_coalesces [OF h t wf] by blast
  obtain m' n' i' where st: "merge_prev (m, n, index) = (m', n', i')" by (metis prod_cases3)
  have "wf_regions (xs' @ r' # ys)" using p(3) by (simp add: coalesces_def)
  from merge_next_coalesces [OF p(1) [unfolded st] p(2) this] st p(3) show ?thesis
    by (metis coalesces_trans)
qed

lemma holds_at_regions:
  assumes "holds_at (m, n, index) xs r ys" "length (xs @ r # ys) < 65536"
  shows "regions (s\<lparr>mm_entry := word_of_int n, mm_map := m\<rparr>) = xs @ r # ys"
    "entries (s\<lparr>mm_entry := word_of_int n, mm_map := m\<rparr>) = int (length (xs @ r # ys))"
proof -
  have a: "arr m (nat n) = xs @ r # ys" "n = int (length (xs @ r # ys))"
    using assms(1) unfolding holds_at_def by auto
  have "0 \<le> n" "n < 65536" using a(2) assms(2) by simp_all
  then have "uint (word_of_int n :: u16) = n" by (simp add: uint_word_of_int)
  then have e: "entries (s\<lparr>mm_entry := word_of_int n, mm_map := m\<rparr>) = n" by (simp add: entries_def)
  then show "entries (s\<lparr>mm_entry := word_of_int n, mm_map := m\<rparr>) = int (length (xs @ r # ys))"
    using a(2) by simp
  show "regions (s\<lparr>mm_entry := word_of_int n, mm_map := m\<rparr>) = xs @ r # ys"
    using a(1) unfolding regions_def e by simp
qed

lemma free_unknown:
  assumes "\<forall>r \<in> set (regions s). mbase r \<noteq> ucast a"
  shows "free a s = s"
proof (cases rule: find_base_cases [of s a])
  case none
  then show ?thesis by (simp add: free_def)
next
  case (found b)
  then have "mm_map s (int b) \<in> set (regions s)"
    using nth_mem [of b "regions s"] by (simp add: regions_def)
  with found assms show ?thesis by blast
qed

lemma wf_base_unique:
  assumes "wf_regions (xs @ r # ys)" "q \<in> set xs \<union> set ys"
  shows "mbase q \<noteq> mbase r"
proof
  assume e: "mbase q = mbase r"
  have "apart r q" "region_ok r" "region_ok q"
    using assms by (auto simp: wf_regions_def apart_sym)
  moreover have "unat (mbase r) \<in> extent r" "unat (mbase r) \<in> extent q"
    using calculation(2,3) e by (simp_all add: extent_def region_ok_def)
  ultimately show False by (auto simp: apart_def)
qed

lemma free_list:
  assumes wf: "mm_wf s" and r: "r \<in> set (regions s)" "mbase r = ucast a"
    "unat (mbase r) + unat (mlength r) \<le> 2 ^ 32"
  shows "mm_wf (free a s) \<and>
    free_bytes (regions (free a s)) = free_bytes (regions s) \<union> extent r \<and>
    (\<forall>x. mtype x \<noteq> 1 \<longrightarrow> x \<in> set (regions (free a s)) \<longleftrightarrow> x \<in> set (regions s) \<and> x \<noteq> r)"
proof (cases rule: find_base_cases [of s a])
  case none
  then show ?thesis using r by blast
next
  case (found b)
  let ?m = "(mm_map s)(int b := (mm_map s (int b))\<lparr>mtype := 1\<rparr>)" and ?r = "r\<lparr>mtype := 1\<rparr>"
  have wfr: "wf_regions (regions s)" and n: "entries s \<le> MAX_FREE_PAGES"
    using wf by (simp_all add: mm_wf_def)
  define xs ys where "xs = take b (regions s)" and "ys = drop (Suc b) (regions s)"
  have L0: "regions s = xs @ mm_map s (int b) # ys"
    using arr_at [OF found(2), of "mm_map s"] by (simp add: regions_def xs_def ys_def)
  have rb: "mm_map s (int b) = r"
  proof (rule ccontr)
    assume "mm_map s (int b) \<noteq> r"
    then have "r \<in> set xs \<union> set ys" using r(1) unfolding L0 by auto
    then have "mbase r \<noteq> mbase (mm_map s (int b))" by (rule wf_base_unique [OF wfr [unfolded L0]])
    with r(2) found(3) show False by simp
  qed
  have L: "regions s = xs @ r # ys" using L0 rb by simp
  note wfl = wfr [unfolded L]
  have once: "r \<notin> set xs \<union> set ys" using wf_base_unique [OF wfl] by blast
  have h: "holds_at (?m, entries s, int b) xs ?r ys"
    using arr_replace [OF found(2), of "mm_map s" ?r] found(2) rb
    by (auto simp: holds_at_def xs_def ys_def regions_def)
  note rel = regions_release [OF wfl r(3)]
  obtain zs q ws where g: "holds_at (merge_next (merge_prev (?m, entries s, int b))) zs q ws"
    "wf_regions (zs @ q # ws)" "length (zs @ q # ws) \<le> length (xs @ ?r # ys)"
    "\<forall>P. bytes_of_type P (zs @ q # ws) = bytes_of_type P (xs @ ?r # ys)"
    "\<forall>x. mtype x \<noteq> 1 \<longrightarrow> x \<in> set (zs @ q # ws) \<longleftrightarrow> x \<in> set (xs @ ?r # ys)"
    using merges_list [OF h _ rel(1)] unfolding coalesces_def by auto
  obtain m' n' i' where st: "merge_next (merge_prev (?m, entries s, int b)) = (m', n', i')"
    by (metis prod_cases3)
  have f: "free a s = s\<lparr>mm_entry := word_of_int n', mm_map := m'\<rparr>"
    using found(1) st by (simp add: free_def Let_def del: merge_prev.simps merge_next.simps)
  have len: "length (zs @ q # ws) \<le> nat (entries s)"
    using g(3) L regions_length [of s] by simp
  then have "length (zs @ q # ws) < 65536" using entries_bounds(2) [of s] by linarith
  note R = holds_at_regions [OF g(1) [unfolded st] this, of s, folded f]
  have "mm_wf (free a s)"
    using R g(2) len n entries_bounds(1) [of s] by (simp add: mm_wf_def)
  moreover have "free_bytes (regions (free a s)) = free_bytes (regions s) \<union> extent r"
    unfolding R(1) L rel(2) [symmetric] using g(4) by (rule spec)
  moreover have "x \<in> set (regions (free a s)) \<longleftrightarrow> x \<in> set (regions s) \<and> x \<noteq> r" if "mtype x \<noteq> 1" for x
  proof -
    have "x \<noteq> ?r" using that by auto
    then show ?thesis using R(1) g(5) that once L by auto
  qed
  ultimately show ?thesis by blast
qed


section \<open>The allocator as an interface\<close>

fun alloc_many :: "('s \<Rightarrow> u32 \<times> 's) \<Rightarrow> nat \<Rightarrow> 's \<Rightarrow> u32 list \<times> 's" where
  "alloc_many alloc 0 s = ([], s)"
| "alloc_many alloc (Suc n) s =
     (let (a, s) = alloc s
      in if a = 0 then ([], s) else (let (as, s) = alloc_many alloc n s in (a # as, s)))"

text \<open>
  What the paging code relies on: an allocation takes a fresh block out of the pool and
  a release returns a block that is owned.
\<close>

locale frame_allocator =
  fixes alloc :: "'s \<Rightarrow> u32 \<times> 's"
    and release :: "u32 \<Rightarrow> 's \<Rightarrow> 's"
    and inv :: "'s \<Rightarrow> bool"
    and avail :: "'s \<Rightarrow> nat set"
    and owned :: "'s \<Rightarrow> u32 set"
    and block :: "u32 \<Rightarrow> nat set"
  assumes alloc_inv: "inv s \<Longrightarrow> alloc s = (a, s') \<Longrightarrow> inv s'"
    and alloc_fail: "inv s \<Longrightarrow> alloc s = (0, s') \<Longrightarrow> s' = s"
    and alloc_avail: "inv s \<Longrightarrow> alloc s = (a, s') \<Longrightarrow> a \<noteq> 0 \<Longrightarrow>
      block a \<subseteq> avail s \<and> avail s' = avail s - block a"
    and alloc_owned: "inv s \<Longrightarrow> alloc s = (a, s') \<Longrightarrow> a \<noteq> 0 \<Longrightarrow> owned s' = insert a (owned s)"
    and release_inv: "inv s \<Longrightarrow> a \<in> owned s \<Longrightarrow> inv (release a s)"
    and release_avail: "inv s \<Longrightarrow> a \<in> owned s \<Longrightarrow> avail (release a s) = avail s \<union> block a"
    and release_owned: "inv s \<Longrightarrow> a \<in> owned s \<Longrightarrow> owned (release a s) = owned s - {a}"
    and owned_unavail: "inv s \<Longrightarrow> a \<in> owned s \<Longrightarrow> block a \<inter> avail s = {}"
    and block_nonempty: "block a \<noteq> {}"
begin

lemma alloc_fresh:
  assumes "inv s" "alloc s = (a, s')" "a \<noteq> 0"
  shows "a \<notin> owned s"
proof
  assume "a \<in> owned s"
  then have "block a \<inter> avail s = {}" by (rule owned_unavail [OF assms(1)])
  with alloc_avail [OF assms] block_nonempty [of a] show False by blast
qed

text \<open>Allocating and releasing the same block restores the pool.\<close>

lemma alloc_release:
  assumes "inv s" "alloc s = (a, s')" "a \<noteq> 0"
  shows "inv (release a s') \<and> avail (release a s') = avail s \<and> owned (release a s') = owned s"
proof -
  have i: "inv s'" and o: "owned s' = insert a (owned s)"
    using alloc_inv alloc_owned assms by blast+
  then have "a \<in> owned s'" by simp
  with i o alloc_avail [OF assms] alloc_fresh [OF assms] show ?thesis
    by (auto simp: release_inv release_avail release_owned)
qed

text \<open>Successive allocations never overlap.\<close>

lemma alloc_many_disjoint:
  assumes "inv s" "alloc_many alloc n s = (as, s')"
  shows "inv s' \<and> (\<forall>a \<in> set as. block a \<subseteq> avail s) \<and>
    sorted_wrt (\<lambda>a b. block a \<inter> block b = {}) as \<and> avail s' = avail s - (\<Union>a \<in> set as. block a)"
  using assms
proof (induction n arbitrary: s s' as)
  case 0
  then show ?case by simp
next
  case (Suc n)
  obtain a s1 where a: "alloc s = (a, s1)" by fastforce
  show ?case
  proof (cases "a = 0")
    case True
    then show ?thesis using Suc.prems a alloc_fail by auto
  next
    case False
    obtain bs s2 where b: "alloc_many alloc n s1 = (bs, s2)" by fastforce
    have i: "inv s1" using Suc.prems(1) a by (rule alloc_inv)
    note v = alloc_avail [OF Suc.prems(1) a False]
    note IH = Suc.IH [OF i b]
    have "as = a # bs" "s' = s2" using Suc.prems(2) a b False by simp_all
    moreover have "block a \<inter> block x = {}" if "x \<in> set bs" for x
      using IH v that by blast
    ultimately show ?thesis using IH v by auto
  qed
qed

end

definition pool_avail :: "'a pmm_scheme \<Rightarrow> nat set" where
  "pool_avail s = free_bytes (regions s)"

definition page_owned :: "'a pmm_scheme \<Rightarrow> u32 set" where
  "page_owned s = {a. \<exists>r \<in> set (regions s). mtype r = 2 \<and> mbase r = ucast a \<and> mlength r = 4096 \<and>
     unat a + 4096 \<le> 2 ^ 32}"

lemma ucast_u32_u64: "unat (ucast (a :: u32) :: u64) = unat a"
  using unat_u32 [of a] by (simp add: unsigned_ucast_eq take_bit_eq_mod)

lemma ucast_u32_u64_inj: "(ucast (a :: u32) :: u64) = ucast b \<longleftrightarrow> a = b"
  by (metis ucast_u32_u64 word_unat_eq_iff)

lemma allocate_owned:
  assumes wf: "mm_wf s" and al: "allocate 4096 s = (a, s')" and a: "a \<noteq> 0"
  shows "page_owned s' = insert a (page_owned s)"
proof -
  have wfr: "wf_regions (regions s)" using wf by (simp add: mm_wf_def)
  have key: "page_owned s' = insert a (page_owned s)"
    if L: "regions s = xs @ r # ys" "regions s' = xs @ used_part 4096 r # zs"
      "\<forall>x. mtype x = 2 \<longrightarrow> (x \<in> set zs) = (x \<in> set ys)" "mtype r = 1" "a = ucast (mbase r)"
      "4096 \<le> mlength r" for xs r ys zs
  proof -
    have r: "region_ok r" using wfr L(1) wf_regions_at(1) [of xs r ys] by simp
    have u: "mbase (used_part 4096 r) = ucast a" "mtype (used_part 4096 r) = 2"
      "mlength (used_part 4096 r) = 4096"
      using low_base(3) [OF r L(4)] L(5) by (simp_all add: used_part_def)
    have "4096 \<le> unat (mlength r)" using L(6) by (simp add: word_le_nat_alt)
    then have "unat a + 4096 \<le> 2 ^ 32"
      using low_base(1) [OF r L(4)] r L(4,5) by (simp add: region_ok_def)
    moreover have m: "x \<in> set (regions s') \<and> mtype x = 2 \<longleftrightarrow>
        x = used_part 4096 r \<or> x \<in> set (regions s) \<and> mtype x = 2" for x
      unfolding L(1,2) using L(3) L(4) u(2) by (cases "mtype x = 2") auto
    ultimately have "(\<exists>x. (x \<in> set (regions s') \<and> mtype x = 2) \<and> mbase x = ucast b \<and> mlength x = 4096 \<and> unat b + 4096 \<le> 2 ^ 32)
      \<longleftrightarrow> b = a \<or> (\<exists>x. (x \<in> set (regions s) \<and> mtype x = 2) \<and> mbase x = ucast b \<and> mlength x = 4096 \<and> unat b + 4096 \<le> 2 ^ 32)"
      for b
      unfolding m using u ucast_u32_u64_inj by metis
    then show ?thesis unfolding page_owned_def by (auto simp: Bex_def)
  qed
  show ?thesis
  proof (cases rule: allocate_list [of 4096 s])
    case (split xs r ys t)
    have "mtype (free_part 4096 r) = 1" by (simp add: free_part_def)
    then show ?thesis
      using al split by (intro key [of xs r ys "free_part 4096 r # ys"]) auto
  next
    case (exact xs r ys t)
    then show ?thesis
      using al by (intro key [of xs r ys ys]) auto
  qed (use al a in simp_all)
qed

lemma page_owned_region:
  assumes "a \<in> page_owned s"
  obtains r where "r \<in> set (regions s)" "mtype r = 2" "mbase r = ucast a"
    "unat (mbase r) + unat (mlength r) \<le> 2 ^ 32" "extent r = block_bytes 4096 a" "mlength r = 4096"
  using assms by (auto simp: page_owned_def extent_def block_bytes_def ucast_u32_u64)

lemma free_owned:
  assumes wf: "mm_wf s" and a: "a \<in> page_owned s"
  shows "mm_wf (free a s) \<and> pool_avail (free a s) = pool_avail s \<union> block_bytes 4096 a \<and>
    page_owned (free a s) = page_owned s - {a}"
proof -
  obtain r where r: "r \<in> set (regions s)" "mtype r = 2" "mbase r = ucast a"
    "unat (mbase r) + unat (mlength r) \<le> 2 ^ 32" "extent r = block_bytes 4096 a" "mlength r = 4096"
    using a by (rule page_owned_region)
  note f = free_list [OF wf r(1,3,4)]
  have uniq: "q = r" if "q \<in> set (regions s)" "mbase q = ucast a" for q
  proof (rule ccontr)
    assume "q \<noteq> r"
    obtain xs ys where L: "regions s = xs @ r # ys" using r(1) by (meson split_list)
    then have "q \<in> set xs \<union> set ys" using that(1) \<open>q \<noteq> r\<close> by auto
    moreover have "wf_regions (xs @ r # ys)" using wf L by (simp add: mm_wf_def)
    ultimately have "mbase q \<noteq> mbase r" using wf_base_unique by blast
    with that(2) r(3) show False by simp
  qed
  have "page_owned (free a s) = page_owned s - {a}"
  proof (rule set_eqI)
    fix b :: u32
    have "(\<exists>x \<in> set (regions (free a s)). mtype x = 2 \<and> mbase x = ucast b \<and> mlength x = 4096 \<and> unat b + 4096 \<le> 2 ^ 32)
      \<longleftrightarrow> (\<exists>x \<in> set (regions s). x \<noteq> r \<and> mtype x = 2 \<and> mbase x = ucast b \<and> mlength x = 4096 \<and> unat b + 4096 \<le> 2 ^ 32)"
    proof -
      have "x \<in> set (regions (free a s)) \<longleftrightarrow> x \<in> set (regions s) \<and> x \<noteq> r" if "mtype x = 2" for x
        using f [THEN conjunct2, THEN conjunct2, THEN spec, of x] that by simp
      then show ?thesis by blast
    qed
    also have "\<dots> \<longleftrightarrow> b \<in> page_owned s \<and> b \<noteq> a"
      unfolding page_owned_def mem_Collect_eq
      using uniq r(3) ucast_u32_u64_inj [of b a] by metis
    finally show "b \<in> page_owned (free a s) \<longleftrightarrow> b \<in> page_owned s - {a}"
      by (simp add: page_owned_def)
  qed
  with f r(5) show ?thesis by (simp add: pool_avail_def)
qed

interpretation frames: frame_allocator "allocate 4096" free mm_wf pool_avail page_owned "block_bytes 4096"
proof unfold_locales
  fix s s' :: "'a pmm_scheme" and a
  assume wf: "mm_wf s"
  { assume al: "allocate 4096 s = (a, s')"
    note sp = allocate_spec [OF wf _ al]
    show "mm_wf s'" using sp(1) by simp
    show "a \<noteq> 0 \<Longrightarrow> block_bytes 4096 a \<subseteq> pool_avail s \<and> pool_avail s' = pool_avail s - block_bytes 4096 a"
      using sp(3,4) by (simp add: pool_avail_def)
    show "a \<noteq> 0 \<Longrightarrow> page_owned s' = insert a (page_owned s)" by (rule allocate_owned [OF wf al]) }
  show "allocate 4096 s = (0, s') \<Longrightarrow> s' = s" using allocate_spec(2) [OF wf, of 4096 0 s'] by simp
  assume a: "a \<in> page_owned s"
  show "mm_wf (free a s)" "pool_avail (free a s) = pool_avail s \<union> block_bytes 4096 a"
    "page_owned (free a s) = page_owned s - {a}" using free_owned [OF wf a] by blast+
  obtain r where r: "r \<in> set (regions s)" "mtype r = 2" "extent r = block_bytes 4096 a"
    using a by (rule page_owned_region)
  obtain xs ys where L: "regions s = xs @ r # ys" using r(1) by (meson split_list)
  have "wf_regions (xs @ r # ys)" using wf L by (simp add: mm_wf_def)
  note at = wf_regions_at(2,3) [OF this, of "\<lambda>t. t = 1"]
  show "block_bytes 4096 a \<inter> pool_avail s = {}"
    using at r by (auto simp: pool_avail_def L)
next
  show "block_bytes 4096 a \<noteq> {}" for a by (simp add: block_bytes_def)
qed

end
