(* ===== verification/Paging.thy ===== *)
theory Paging
  imports PhysMem
begin

text \<open>
  The paging half of kernel/pmm.c on the two-level page tables of the 80386, with the
  page walk of the processor. Page directory and page tables are stores of 32-bit entries
  (\<open>page_directory\<close> by index, \<open>ptab\<close> by physical address); \<open>ram\<close> holds all other
  bytes by physical address. The kernel reaches a page table through a pointer, so every
  access to an entry goes through the page walk and may fault. The lemmas show that
  map_page changes the translation of one page only, what the allocation routines map,
  and that a lookup after a map, an unmap or a free returns what it should.
\<close>

section \<open>State\<close>

definition PAGE_PRESENT :: u32 where "PAGE_PRESENT = 1"
definition PAGE_WRITE :: u32 where "PAGE_WRITE = 2"
definition PAGE_USER :: u32 where "PAGE_USER = 4"

lemmas page_flags = PAGE_PRESENT_def PAGE_WRITE_def PAGE_USER_def

text \<open>The link addresses of the static page table and of the end of the kernel image are
  fields no operation writes.\<close>

record paging = pmm +
  page_directory :: "u32 \<Rightarrow> u32"
  ptab :: "u32 \<Rightarrow> u32"
  ram :: "u32 \<Rightarrow> u8"
  next_virtual :: u32
  free_virtual :: "u32 \<Rightarrow> u32"
  free_count :: u32
  paging_on :: bool
  addr_page_table :: u32
  kernel_end :: u32

section \<open>The page walk\<close>

definition pd_index :: "u32 \<Rightarrow> u32" where
  "pd_index v = drop_bit 22 v"

definition pt_index :: "u32 \<Rightarrow> u32" where
  "pt_index v = drop_bit 12 v AND 0x3FF"

definition frame_of :: "u32 \<Rightarrow> u32" where
  "frame_of e = e AND 0xFFFFF000"

definition pte_addr :: "'a paging_scheme \<Rightarrow> u32 \<Rightarrow> u32" where
  "pte_addr s v = frame_of (page_directory s (pd_index v)) + 4 * pt_index v"

definition translate :: "'a paging_scheme \<Rightarrow> u32 \<Rightarrow> u32 option" where
  "translate s v =
     (if \<not> paging_on s then Some v
      else if page_directory s (pd_index v) AND 1 = 0 then None
      else if ptab s (pte_addr s v) AND 1 = 0 then None
      else Some (frame_of (ptab s (pte_addr s v)) OR (v AND 0xFFF)))"

text \<open>Loads and stores of the kernel through a pointer.\<close>

definition load_pte :: "u32 \<Rightarrow> 'a paging_scheme \<Rightarrow> ('a paging_scheme, u32) outcome" where
  "load_pte a s = (case translate s a of
      None \<Rightarrow> Stop s (Page_fault a)
    | Some p \<Rightarrow> Ret s (ptab s p))"

definition store_pte :: "u32 \<Rightarrow> u32 \<Rightarrow> 'a paging_scheme \<Rightarrow> ('a paging_scheme, unit) outcome" where
  "store_pte a x s = (case translate s a of
      None \<Rightarrow> Stop s (Page_fault a)
    | Some p \<Rightarrow> Ret (s\<lparr>ptab := (ptab s)(p := x)\<rparr>) ())"

definition load8 :: "u32 \<Rightarrow> 'a paging_scheme \<Rightarrow> ('a paging_scheme, u8) outcome" where
  "load8 a s = (case translate s a of
      None \<Rightarrow> Stop s (Page_fault a)
    | Some p \<Rightarrow> Ret s (ram s p))"

definition store8 :: "u32 \<Rightarrow> u8 \<Rightarrow> 'a paging_scheme \<Rightarrow> ('a paging_scheme, unit) outcome" where
  "store8 a x s = (case translate s a of
      None \<Rightarrow> Stop s (Page_fault a)
    | Some p \<Rightarrow> Ret (s\<lparr>ram := (ram s)(p := x)\<rparr>) ())"

section \<open>Operations of kernel/pmm.c\<close>

definition init_virtual_allocator :: "'a paging_scheme \<Rightarrow> 'a paging_scheme" where
  "init_virtual_allocator s = s\<lparr>next_virtual := (kernel_end s + 4095) AND NOT 0xFFF\<rparr>"

definition build_first_page :: "'a paging_scheme \<Rightarrow> 'a paging_scheme" where
  "build_first_page s =
     (let s = s\<lparr>ptab := fold (\<lambda>k m. m(addr_page_table s + 4 * of_nat k := (of_nat k * 0x1000) OR 7))
                       [0..<1024] (ptab s)\<rparr>;
          s = s\<lparr>page_directory := (page_directory s)(0 := addr_page_table s OR 7)\<rparr>
      in s\<lparr>page_directory := fold (\<lambda>k m. m(of_nat k := 0)) [1..<1024] (page_directory s)\<rparr>)"

definition enable_paging :: "'a paging_scheme \<Rightarrow> 'a paging_scheme" where
  "enable_paging s = emit Enable_paging (s\<lparr>paging_on := True\<rparr>)"

definition zero_table :: "u32 \<Rightarrow> 'a paging_scheme \<Rightarrow> ('a paging_scheme, unit) outcome" where
  "zero_table table_ptr s =
     fold (\<lambda>k out. bind_out out (\<lambda>s _. store_pte (table_ptr + 4 * of_nat k) 0 s)) [0..<1024] (Ret s ())"

text \<open>The first half of \<open>map_page\<close>: make sure the directory entry is there. The flag it
  returns says whether the routine goes on.\<close>

definition ensure_table :: "u32 \<Rightarrow> u32 \<Rightarrow> 'a paging_scheme \<Rightarrow> ('a paging_scheme, bool) outcome" where
  "ensure_table directory flags s =
     (if page_directory s directory AND 1 = 0 then
        let (new_table, s) = allocate 4096 s
        in if new_table = 0 then
             Ret (kprint (str_bytes ''allocate FAILED'' @ [10]) s) False
           else bind_out (zero_table new_table s) (\<lambda>s _.
             let directory_flags = PAGE_PRESENT OR PAGE_WRITE;
                 directory_flags = (if flags AND PAGE_USER \<noteq> 0 then directory_flags OR PAGE_USER
                                    else directory_flags)
             in Ret (s\<lparr>page_directory := (page_directory s)(directory := new_table OR directory_flags)\<rparr>) True)
      else Ret s True)"

definition map_page :: "u32 \<Rightarrow> u32 \<Rightarrow> u32 \<Rightarrow> 'a paging_scheme \<Rightarrow> ('a paging_scheme, unit) outcome" where
  "map_page physical_address virtual_address flags s =
     (let directory = pd_index virtual_address; table = pt_index virtual_address
      in bind_out (ensure_table directory flags s) (\<lambda>s go.
        if \<not> go then Ret s ()
        else
          let s = (if flags AND PAGE_USER \<noteq> 0
                   then s\<lparr>page_directory := (page_directory s)(directory := page_directory s directory OR PAGE_USER)\<rparr>
                   else s);
              table_ptr = frame_of (page_directory s directory)
          in bind_out (store_pte (table_ptr + 4 * table) (frame_of physical_address OR flags) s) (\<lambda>s _.
               Ret (invlpg virtual_address s) ())))"

definition default_flags :: "u32 \<Rightarrow> u32" where
  "default_flags flag = (if flag = 0 then PAGE_PRESENT OR PAGE_WRITE else flag)"

text \<open>Taking a virtual page: the last freed one, or the next unused one.\<close>

definition take_virtual :: "'a paging_scheme \<Rightarrow> u32 \<times> 'a paging_scheme" where
  "take_virtual s =
     (if free_count s > 0 then
        let s = s\<lparr>free_count := free_count s - 1\<rparr> in (free_virtual s (free_count s), s)
      else (next_virtual s, s\<lparr>next_virtual := next_virtual s + 4096\<rparr>))"

definition allocate_page :: "u32 \<Rightarrow> 'a paging_scheme \<Rightarrow> ('a paging_scheme, u32) outcome" where
  "allocate_page flag s =
     (let flag = default_flags flag;
          (physical, s) = allocate 4096 s
      in if physical = 0 then Ret s 0
         else let (virtual, s) = take_virtual s
              in bind_out (map_page physical virtual flag s) (\<lambda>s _. Ret s virtual))"

fun contig_loop :: "nat \<Rightarrow> nat \<Rightarrow> u32 \<Rightarrow> u32 \<Rightarrow> 'a paging_scheme \<Rightarrow> ('a paging_scheme, u32) outcome" where
  "contig_loop 0 k virtual_start flag s = Ret s virtual_start"
| "contig_loop (Suc n) k virtual_start flag s =
     (let (phy, s) = allocate 4096 s
      in if phy = 0 then Ret s 0
         else bind_out (map_page phy (virtual_start + of_nat k * 4096) flag s) (\<lambda>s _.
           contig_loop n (Suc k) virtual_start flag s))"

definition allocate_pages_contig :: "int \<Rightarrow> u32 \<Rightarrow> 'a paging_scheme \<Rightarrow> ('a paging_scheme, u32) outcome" where
  "allocate_pages_contig count flag s =
     (let flag = default_flags flag;
          virtual_start = next_virtual s;
          s = s\<lparr>next_virtual := next_virtual s + word_of_int (count * 4096)\<rparr>
      in contig_loop (nat count) 0 virtual_start flag s)"

definition get_pte :: "u32 \<Rightarrow> 'a paging_scheme \<Rightarrow> u32" where
  "get_pte virtual s =
     (let directory = pd_index virtual; table = pt_index virtual
      in if page_directory s directory AND 1 = 0 then 0
         else frame_of (page_directory s directory) + 4 * table)"

definition get_map :: "u32 \<Rightarrow> 'a paging_scheme \<Rightarrow> ('a paging_scheme, u32) outcome" where
  "get_map virtual s =
     (let pte = get_pte virtual s
      in if pte = 0 then Ret s 0
         else bind_out (load_pte pte s) (\<lambda>s e.
           if e AND 1 = 0 then Ret s 0 else Ret s (frame_of e)))"

text \<open>The stack of free virtual pages has 1024 slots and no check.\<close>

definition push_virtual :: "u32 \<Rightarrow> 'a paging_scheme \<Rightarrow> ('a paging_scheme, unit) outcome" where
  "push_virtual addr s =
     (if free_count s \<ge> 1024 then Stop s Undefined
      else Ret (s\<lparr>free_virtual := (free_virtual s)(free_count s := addr),
                  free_count := free_count s + 1\<rparr>) ())"

definition free_page :: "u32 \<Rightarrow> 'a paging_scheme \<Rightarrow> ('a paging_scheme, unit) outcome" where
  "free_page addr s =
     bind_out (push_virtual addr s) (\<lambda>s _.
       let pte = get_pte addr s
       in if pte = 0 then Ret s ()
          else bind_out (load_pte pte s) (\<lambda>s e.
            if e AND 1 = 0 then Ret s ()
            else store_pte pte 0 (free (frame_of e) s)))"

definition unmap_page :: "u32 \<Rightarrow> 'a paging_scheme \<Rightarrow> ('a paging_scheme, unit) outcome" where
  "unmap_page virtual s =
     (let pte = get_pte virtual s
      in if pte = 0 then Ret s ()
         else bind_out (load_pte pte s) (\<lambda>s e.
           if e AND 1 = 0 then Ret s ()
           else bind_out (store_pte pte 0 s) (\<lambda>s _. Ret (invlpg virtual s) ())))"

fun memset_loop :: "nat \<Rightarrow> u32 \<Rightarrow> u8 \<Rightarrow> 'a paging_scheme \<Rightarrow> ('a paging_scheme, unit) outcome" where
  "memset_loop 0 p value s = Ret s ()"
| "memset_loop (Suc n) p value s =
     bind_out (store8 p value s) (\<lambda>s _. memset_loop n (p + 1) value s)"

definition memset :: "u32 \<Rightarrow> u32 \<Rightarrow> u32 \<Rightarrow> 'a paging_scheme \<Rightarrow> ('a paging_scheme, unit) outcome" where
  "memset dst value sz s = memset_loop (unat sz) dst (ucast value) s"

fun memcpy_loop :: "nat \<Rightarrow> u32 \<Rightarrow> u32 \<Rightarrow> u32 \<Rightarrow> 'a paging_scheme \<Rightarrow> ('a paging_scheme, unit) outcome" where
  "memcpy_loop 0 i d src s = Ret s ()"
| "memcpy_loop (Suc n) i d src s =
     bind_out (load8 (src + i) s) (\<lambda>s b.
       bind_out (store8 (d + i) b s) (\<lambda>s _. memcpy_loop n (i + 1) d src s))"

definition memcpy :: "u32 \<Rightarrow> u32 \<Rightarrow> u32 \<Rightarrow> 'a paging_scheme \<Rightarrow> ('a paging_scheme, u32) outcome" where
  "memcpy dest src n s = bind_out (memcpy_loop (unat n) 0 dest src s) (\<lambda>s _. Ret s dest)"

definition boot_paging :: paging where
  "boot_paging = pmm.extend boot_pmm
     (paging.fields (\<lambda>_. 0) (\<lambda>_. 0) (\<lambda>_. 0) 0 (\<lambda>_. 0) 0 False 0x20000 0x22000)"

section \<open>Address arithmetic\<close>

definition page_of :: "u32 \<Rightarrow> u32" where
  "page_of v = drop_bit 12 v"

lemma pd_index_page: "pd_index v = drop_bit 10 (page_of v)"
  by (simp add: pd_index_def page_of_def)

lemma pt_index_page: "pt_index v = page_of v AND 0x3FF"
  by (simp add: pt_index_def page_of_def)

lemma same_page_index: "page_of v = page_of w \<Longrightarrow> pd_index v = pd_index w \<and> pt_index v = pt_index w"
  by (simp add: pd_index_page pt_index_page)

lemma pt_index_bound: "unat (pt_index v) < 1024"
proof -
  have "pt_index v = take_bit 10 (drop_bit 12 v)"
    unfolding pt_index_def mask_lits by (simp add: take_bit_eq_mask)
  then have "unat (pt_index v) = take_bit 10 (unat (drop_bit 12 v))"
    by (simp only: unsigned_take_bit_eq)
  then show ?thesis by (simp add: take_bit_eq_mod)
qed

lemma pd_index_bound [simp]: "unat (pd_index v) < 1024"
proof -
  have "unat (pd_index v) = unat v div 4194304"
    unfolding pd_index_def unat_drop_bit_eq by (simp add: drop_bit_eq_div)
  with unat_u32 [of v] show ?thesis by linarith
qed

lemma page_of_indices: "page_of v = push_bit 10 (pd_index v) OR pt_index v"
  unfolding pd_index_def pt_index_def page_of_def mask_lits
  by (rule bit_word_eqI) (auto simp: bit_simps dest: bit_imp_le_length)

lemma frame_of_bits: "frame_of e = e AND NOT (mask 12)"
  by (simp only: frame_of_def mask_lits)

lemma frame_of_frame [simp]: "frame_of (frame_of e) = frame_of e"
  by (simp add: frame_of_bits and.assoc)

lemma frame_of_or_low: "f AND NOT (mask 12) = 0 \<Longrightarrow> frame_of (e OR f) = frame_of e"
  unfolding frame_of_bits by (simp add: bit.conj_disj_distrib2)

text \<open>An entry address: the table frame plus a 10-bit index in words.\<close>

lemma small_index: "unat (k :: u32) < 1024 \<Longrightarrow> take_bit 10 k = k"
  by (simp add: word_unat_eq_iff take_bit_eq_mod unat_mod)

lemma push_index_bits: "unat k < 1024 \<Longrightarrow> bit (push_bit 2 (k :: u32)) n \<Longrightarrow> n < 12"
  by (subst (asm) small_index [symmetric]) (auto simp: bit_simps)

lemma entry_addr_or:
  assumes "unat k < 1024"
  shows "frame_of t + 4 * k = frame_of t OR push_bit 2 k"
proof -
  have "frame_of t AND push_bit 2 k = 0"
    using push_index_bits [OF assms] by (intro bit_word_eqI) (auto simp: frame_of_bits bit_simps)
  then have "frame_of t + push_bit 2 k = frame_of t OR push_bit 2 k"
    by (rule disjunctive_add_eq_or)
  moreover have "push_bit 2 k = 4 * k" by (simp add: push_bit_eq_mult)
  ultimately show ?thesis by (simp only:)
qed

lemma entry_addr_frame:
  assumes "unat k < 1024"
  shows "frame_of (frame_of t + 4 * k) = frame_of t"
proof -
  have "push_bit 2 k AND NOT (mask 12) = 0"
    using push_index_bits [OF assms] by (intro bit_word_eqI) (auto simp: bit_simps)
  then show ?thesis by (simp add: entry_addr_or [OF assms] frame_of_or_low del: push_bit_eq_mult)
qed

lemma entry_addr_inj:
  assumes "unat k < 1024" "unat l < 1024" "frame_of t + 4 * k = frame_of u + 4 * l"
  shows "frame_of t = frame_of u \<and> k = l"
proof -
  have f: "frame_of t = frame_of u"
    using entry_addr_frame [OF assms(1)] entry_addr_frame [OF assms(2)] assms(3) by metis
  then have "4 * k = 4 * l" using assms(3) by simp
  then have "unat (4 * k) = unat (4 * l)" by simp
  then have "unat k = unat l" using assms(1,2) by (simp add: unat_word_ariths)
  with f show ?thesis by (simp add: word_unat_eq_iff)
qed

lemma pte_addr_frame: "frame_of (pte_addr s v) = frame_of (page_directory s (pd_index v))"
  unfolding pte_addr_def by (rule entry_addr_frame [OF pt_index_bound])

lemma page_of_frame: "page_of (frame_of e) = page_of e"
proof -
  have "bit e (12 + n) \<Longrightarrow> n < 20" for n using bit_imp_le_length [of e "12 + n"] by simp
  then show ?thesis unfolding page_of_def frame_of_bits
    by (intro bit_word_eqI) (auto simp: bit_simps)
qed

lemma page_of_eq_frame: "page_of v = page_of w \<longleftrightarrow> frame_of v = frame_of w"
proof
  assume p: "page_of v = page_of w"
  have "frame_of x = push_bit 12 (page_of x)" for x
    unfolding page_of_def frame_of_bits
    by (rule bit_word_eqI) (auto simp: bit_simps dest: bit_imp_le_length)
  with p show "frame_of v = frame_of w" by simp
qed (metis page_of_frame)


section \<open>The page tables as a map of pages\<close>

definition present :: "'a paging_scheme \<Rightarrow> u32 \<Rightarrow> bool" where
  "present s d \<longleftrightarrow> unat d < 1024 \<and> page_directory s d AND 1 \<noteq> 0"

definition tframe :: "'a paging_scheme \<Rightarrow> u32 \<Rightarrow> u32" where
  "tframe s d = frame_of (page_directory s d)"

lemma pte_addr_tframe: "pte_addr s v = tframe s (pd_index v) + 4 * pt_index v"
  by (simp add: pte_addr_def tframe_def)

lemma tframe_frame [simp]: "frame_of (tframe s d) = tframe s d"
  by (simp add: tframe_def)

lemma translate_eq:
  "translate s v =
     (if \<not> paging_on s then Some v
      else if \<not> present s (pd_index v) then None
      else if ptab s (pte_addr s v) AND 1 = 0 then None
      else Some (frame_of (ptab s (pte_addr s v)) OR (v AND 0xFFF)))"
  by (simp add: translate_def present_def)

text \<open>The kernel can edit its tables: no two directory entries share a table, none is the
  frame 0, and every table is mapped at its own physical address.\<close>

definition vm_wf :: "'a paging_scheme \<Rightarrow> bool" where
  "vm_wf s \<longleftrightarrow> paging_on s \<and>
     (\<forall>d e. present s d \<and> present s e \<and> tframe s d = tframe s e \<longrightarrow> d = e) \<and>
     (\<forall>d. present s d \<longrightarrow> tframe s d \<noteq> 0) \<and>
     (\<forall>d k. present s d \<and> unat k < 1024 \<longrightarrow> translate s (tframe s d + 4 * k) = Some (tframe s d + 4 * k))"

definition table_page :: "'a paging_scheme \<Rightarrow> u32 \<Rightarrow> bool" where
  "table_page s v \<longleftrightarrow> (\<exists>d. present s d \<and> page_of v = page_of (tframe s d))"

lemma page_of_table_entry: "unat k < 1024 \<Longrightarrow> page_of (tframe s d + 4 * k) = page_of (tframe s d)"
  unfolding page_of_eq_frame tframe_def frame_of_frame by (rule entry_addr_frame)

lemma same_page_pte: "page_of v = page_of w \<Longrightarrow> pte_addr s v = pte_addr s w"
  using same_page_index [of v w] by (simp add: pte_addr_def)

lemma pte_addr_inj:
  assumes "vm_wf s" "present s (pd_index v)" "present s (pd_index w)" "pte_addr s v = pte_addr s w"
  shows "page_of v = page_of w"
proof -
  from assms(4) have "tframe s (pd_index v) = tframe s (pd_index w) \<and> pt_index v = pt_index w"
    using entry_addr_inj [OF pt_index_bound pt_index_bound] by (simp add: pte_addr_def tframe_def)
  moreover from this have "pd_index v = pd_index w"
    using assms(1-3) unfolding vm_wf_def by blast
  ultimately show ?thesis using page_of_indices [of v] page_of_indices [of w] by simp
qed

lemma translate_ptab_other:
  "m (pte_addr s w) = ptab s (pte_addr s w) \<Longrightarrow> translate (s\<lparr>ptab := m\<rparr>) w = translate s w"
  by (simp add: translate_def pte_addr_def)

lemma vm_wf_table_ident:
  "vm_wf s \<Longrightarrow> present s (pd_index v) \<Longrightarrow> translate s (pte_addr s v) = Some (pte_addr s v)"
  using pt_index_bound by (simp add: vm_wf_def pte_addr_tframe)

lemma present_ptab [simp]: "present (s\<lparr>ptab := m\<rparr>) d = present s d"
  by (simp add: present_def)

lemma tframe_ptab [simp]: "tframe (s\<lparr>ptab := m\<rparr>) d = tframe s d"
  by (simp add: tframe_def)

lemma pte_addr_ptab [simp]: "pte_addr (s\<lparr>ptab := m\<rparr>) v = pte_addr s v"
  by (simp add: pte_addr_def)

text \<open>Writing the entry of one page changes the translation of that page only.\<close>

lemma set_entry:
  fixes s :: "'a paging_scheme" and x v
  assumes wf: "vm_wf s" and p: "present s (pd_index v)" and t: "\<not> table_page s v"
  defines "s' \<equiv> s\<lparr>ptab := (ptab s)(pte_addr s v := x)\<rparr>"
  shows "store_pte (pte_addr s v) x s = Ret s' ()"
    "page_of w \<noteq> page_of v \<Longrightarrow> translate s' w = translate s w"
    "page_of w = page_of v \<Longrightarrow>
       translate s' w = (if x AND 1 = 0 then None else Some (frame_of x OR (w AND 0xFFF)))"
    "vm_wf s'"
proof -
  show "store_pte (pte_addr s v) x s = Ret s' ()"
    by (simp add: store_pte_def vm_wf_table_ident [OF wf p] s'_def)
  have other: "translate s' w = translate s w" if "page_of w \<noteq> page_of v" for w
  proof (cases "present s (pd_index w)")
    case True
    then have "pte_addr s w \<noteq> pte_addr s v" using pte_addr_inj [OF wf True p] that by blast
    then show ?thesis unfolding s'_def by (intro translate_ptab_other) simp
  next
    case False
    then show ?thesis by (simp add: s'_def translate_eq)
  qed
  then show "page_of w \<noteq> page_of v \<Longrightarrow> translate s' w = translate s w" .
  show "page_of w = page_of v \<Longrightarrow>
       translate s' w = (if x AND 1 = 0 then None else Some (frame_of x OR (w AND 0xFFF)))"
    using p wf same_page_pte [of w v s] same_page_index [of w v]
    by (simp add: s'_def translate_eq vm_wf_def)
  have "translate s' (tframe s d + 4 * k) = Some (tframe s d + 4 * k)"
    if "present s d" "unat k < 1024" for d k
  proof -
    have "page_of (tframe s d + 4 * k) \<noteq> page_of v"
      using t that page_of_table_entry [OF that(2), of s d] by (auto simp: table_page_def)
    with other wf that show ?thesis by (simp add: vm_wf_def)
  qed
  with wf show "vm_wf s'" by (simp add: vm_wf_def s'_def)
qed

section \<open>A new page table\<close>

definition ident_frame :: "'a paging_scheme \<Rightarrow> u32 \<Rightarrow> bool" where
  "ident_frame s a \<longleftrightarrow> frame_of a = a \<and> (\<forall>k. unat k < 1024 \<longrightarrow> translate s (a + 4 * k) = Some (a + 4 * k))"

definition fresh_frame :: "'a paging_scheme \<Rightarrow> u32 \<Rightarrow> bool" where
  "fresh_frame s a \<longleftrightarrow> (\<forall>d. present s d \<longrightarrow> tframe s d \<noteq> a)"

definition zeroed :: "u32 \<Rightarrow> nat \<Rightarrow> (u32 \<Rightarrow> u32) \<Rightarrow> u32 \<Rightarrow> u32" where
  "zeroed a n m = (\<lambda>p. if \<exists>k < n. p = a + 4 * of_nat k then 0 else m p)"

lemma zeroed_Suc: "(zeroed a n m)(a + 4 * of_nat n := 0) = zeroed a (Suc n) m"
  by (auto simp: zeroed_def fun_eq_iff less_Suc_eq)

lemma unat_small: "k < 1024 \<Longrightarrow> unat (of_nat k :: u32) = k"
  by (simp add: unat_of_nat take_bit_eq_mod)

lemma zeroed_other:
  assumes "n \<le> 1024" "frame_of a = a" "frame_of p \<noteq> a"
  shows "zeroed a n m p = m p"
proof -
  have "p \<noteq> a + 4 * of_nat k" if "k < n" for k
    using assms that entry_addr_frame [of "of_nat k" a] unat_small [of k] by auto
  then show ?thesis by (auto simp: zeroed_def)
qed

lemma translate_zeroed:
  assumes "n \<le> 1024" "frame_of a = a" "fresh_frame s a"
  shows "translate (s\<lparr>ptab := zeroed a n (ptab s)\<rparr>) w = translate s w"
proof (cases "present s (pd_index w)")
  case True
  then have "frame_of (pte_addr s w) \<noteq> a"
    using assms(3) by (simp add: pte_addr_frame fresh_frame_def tframe_def)
  then show ?thesis using zeroed_other [OF assms(1,2)] by (intro translate_ptab_other) simp
next
  case False
  then show ?thesis by (simp add: translate_eq)
qed

lemma zero_table_steps:
  assumes a: "ident_frame s a" "fresh_frame s a" and n: "n \<le> 1024"
  shows "fold (\<lambda>k out. bind_out out (\<lambda>s _. store_pte (a + 4 * of_nat k) 0 s)) [0..<n] (Ret s ()) =
    Ret (s\<lparr>ptab := zeroed a n (ptab s)\<rparr>) ()"
  using n
proof (induction n)
  case 0
  then show ?case by (simp add: zeroed_def)
next
  case (Suc n)
  let ?s = "s\<lparr>ptab := zeroed a n (ptab s)\<rparr>"
  have "translate ?s (a + 4 * of_nat n) = translate s (a + 4 * of_nat n)"
    using Suc.prems a by (intro translate_zeroed) (simp_all add: ident_frame_def)
  also have "\<dots> = Some (a + 4 * of_nat n)"
    using Suc.prems a(1) unat_small [of n] by (simp add: ident_frame_def)
  finally have "store_pte (a + 4 * of_nat n) 0 ?s =
      Ret (?s\<lparr>ptab := (zeroed a n (ptab s))(a + 4 * of_nat n := 0)\<rparr>) ()"
    by (simp add: store_pte_def)
  with Suc show ?case by (simp add: zeroed_Suc)
qed

lemma zero_table_eq:
  "ident_frame s a \<Longrightarrow> fresh_frame s a \<Longrightarrow> zero_table a s = Ret (s\<lparr>ptab := zeroed a 1024 (ptab s)\<rparr>) ()"
  unfolding zero_table_def by (rule zero_table_steps) simp_all

lemma zeroed_entry: "zeroed a 1024 m (a + 4 * pt_index v) = 0"
proof -
  have "a + 4 * pt_index v = a + 4 * of_nat (unat (pt_index v))" by simp
  with pt_index_bound [of v] have "\<exists>k < 1024. a + 4 * pt_index v = a + 4 * of_nat k" by blast
  then show ?thesis by (simp only: zeroed_def if_True)
qed


lemma and_one_bit: "(x :: u32) AND 1 \<noteq> 0 \<longleftrightarrow> bit x 0"
  by (simp add: and_one_eq bit_0 even_iff_mod_2_eq_zero)

lemma pmm_update_ex:
  "\<exists>e m. s = s\<lparr>mm_entry := e, mm_map := m\<rparr>" "\<exists>e m. s\<lparr>mm_map := x\<rparr> = s\<lparr>mm_entry := e, mm_map := m\<rparr>"
  "\<exists>e m. s\<lparr>mm_entry := y, mm_map := x\<rparr> = s\<lparr>mm_entry := e, mm_map := m\<rparr>"
proof -
  show "\<exists>e m. s = s\<lparr>mm_entry := e, mm_map := m\<rparr>"
    by (intro exI [of _ "mm_entry s"] exI [of _ "mm_map s"]) simp
  show "\<exists>e m. s\<lparr>mm_map := x\<rparr> = s\<lparr>mm_entry := e, mm_map := m\<rparr>"
    by (intro exI [of _ "mm_entry s"] exI [of _ x]) simp
  show "\<exists>e m. s\<lparr>mm_entry := y, mm_map := x\<rparr> = s\<lparr>mm_entry := e, mm_map := m\<rparr>" by blast
qed

lemma allocate_shape: "\<exists>e m. snd (allocate sz s) = s\<lparr>mm_entry := e, mm_map := m\<rparr>"
  unfolding allocate_def Let_def
  by (split if_split | intro conjI impI | simp only: snd_conv | rule pmm_update_ex)+

lemma free_shape: "\<exists>e m. free a s = s\<lparr>mm_entry := e, mm_map := m\<rparr>"
  unfolding free_def Let_def
  by (split if_split prod.split | intro conjI impI allI | rule pmm_update_ex)+

lemma allocate_vm:
  assumes "allocate sz s = (a, s1)"
  shows "page_directory s1 = page_directory s" "ptab s1 = ptab s" "translate s1 w = translate s w"
    "present s1 d = present s d" "tframe s1 d = tframe s d" "vm_wf s1 = vm_wf s"
    "ident_frame s1 x = ident_frame s x" "fresh_frame s1 x = fresh_frame s x"
    "table_page s1 w = table_page s w" "paging_on s1 = paging_on s"
proof -
  obtain e m where s1: "s1 = s\<lparr>mm_entry := e, mm_map := m\<rparr>"
    using allocate_shape [of sz s] assms by auto
  show *: "page_directory s1 = page_directory s" "ptab s1 = ptab s" "paging_on s1 = paging_on s"
    by (simp_all add: s1)
  then show tr: "translate s1 w = translate s w" for w by (simp add: translate_def pte_addr_def)
  show pr: "present s1 d = present s d" "tframe s1 d = tframe s d" for d
    using * by (simp_all add: present_def tframe_def)
  show "vm_wf s1 = vm_wf s" using * tr pr by (simp add: vm_wf_def)
  show "ident_frame s1 x = ident_frame s x" "fresh_frame s1 x = fresh_frame s x"
    "table_page s1 w = table_page s w"
    using tr pr by (simp_all add: ident_frame_def fresh_frame_def table_page_def)
qed

lemma install_table:
  fixes s :: "'a paging_scheme"
  assumes wf: "vm_wf s" and d: "\<not> present s d" "unat d < 1024" and a: "ident_frame s a" "fresh_frame s a"
    and a0: "a \<noteq> 0" and f: "f AND NOT (mask 12) = 0" "f AND 1 \<noteq> 0"
  defines "s' \<equiv> s\<lparr>ptab := zeroed a 1024 (ptab s), page_directory := (page_directory s)(d := a OR f)\<rparr>"
  shows "translate s' w = translate s w" "present s' e \<longleftrightarrow> e = d \<or> present s e"
    "tframe s' e = (if e = d then a else tframe s e)" "vm_wf s'"
proof -
  let ?z = "s\<lparr>ptab := zeroed a 1024 (ptab s)\<rparr>"
  have fa: "frame_of a = a" using a(1) by (simp add: ident_frame_def)
  have "(a OR f) AND 1 \<noteq> 0" using f(2) unfolding and_one_bit by (simp add: bit_or_iff)
  then show pr: "present s' e \<longleftrightarrow> e = d \<or> present s e" for e
    using d by (simp add: present_def s'_def)
  have "frame_of (a OR f) = a" using frame_of_or_low [OF f(1)] fa by simp
  then show tf: "tframe s' e = (if e = d then a else tframe s e)" for e
    by (simp add: tframe_def s'_def)
  show tr: "translate s' w = translate s w" for w
  proof (cases "pd_index w = d")
    case True
    then have "translate s' w = None"
      using zeroed_entry [of a "ptab s" w] wf
      by (simp add: translate_eq pte_addr_tframe tf pr vm_wf_def) (simp add: s'_def)
    moreover have "translate s w = None" using True d(1) wf by (simp add: translate_eq vm_wf_def)
    ultimately show ?thesis by simp
  next
    case False
    then have "translate s' w = translate ?z w"
      by (simp add: translate_def pte_addr_def s'_def)
    then show ?thesis using translate_zeroed [OF _ fa a(2)] by simp
  qed
  have "paging_on s'" using wf by (simp add: vm_wf_def s'_def)
  moreover have "e = e'"
    if "e = d \<or> present s e" "e' = d \<or> present s e'"
      "(if e = d then a else tframe s e) = (if e' = d then a else tframe s e')" for e e'
    using that wf a(2) unfolding vm_wf_def fresh_frame_def by (metis (full_types))
  moreover have "translate s ((if e = d then a else tframe s e) + 4 * k) =
      Some ((if e = d then a else tframe s e) + 4 * k)"
    if "e = d \<or> present s e" "unat k < 1024" for e k
    using that wf a(1) unfolding vm_wf_def ident_frame_def by (cases "e = d") simp_all
  moreover have "(if e = d then a else tframe s e) \<noteq> 0" if "e = d \<or> present s e" for e
    using that wf a0 unfolding vm_wf_def by (cases "e = d") simp_all
  ultimately show "vm_wf s'" unfolding vm_wf_def tr pr tf by blast
qed

text \<open>The directory flags of an entry do not matter to the walk of the processor in
  supervisor mode.\<close>

lemma set_user_bit:
  fixes s :: "'a paging_scheme"
  assumes "present s d" "f AND NOT (mask 12) = 0"
  defines "s' \<equiv> s\<lparr>page_directory := (page_directory s)(d := page_directory s d OR f)\<rparr>"
  shows "translate s' w = translate s w" "present s' e = present s e" "tframe s' e = tframe s e"
    "vm_wf s' = vm_wf s"
proof -
  have "(page_directory s d OR f) AND 1 \<noteq> 0"
    using assms(1) unfolding present_def and_one_bit by (simp add: bit_or_iff)
  then show pr: "present s' e = present s e" for e
    using assms(1) by (simp add: present_def s'_def)
  show tf: "tframe s' e = tframe s e" for e
    using frame_of_or_low [OF assms(2)] by (simp add: tframe_def s'_def)
  show tr: "translate s' w = translate s w" for w
    unfolding translate_eq pr pte_addr_tframe tf by (simp add: s'_def)
  show "vm_wf s' = vm_wf s" unfolding vm_wf_def tr pr tf by (simp add: s'_def)
qed

section \<open>What the paging routines leave alone\<close>

text \<open>Every routine that edits the tables changes at most the trace, the screen, the memory
  map, the directory and the tables.\<close>

definition paging_step :: "'a paging_scheme \<Rightarrow> 'a paging_scheme \<Rightarrow> bool" where
  "paging_step s s' \<longleftrightarrow> (\<exists>t v i j e m pd pt. s' = s\<lparr>hw_trace := t, vram := v, scr_i := i, scr_j := j,
     mm_entry := e, mm_map := m, page_directory := pd, ptab := pt\<rparr>)"

lemma paging_stepI:
  "s' = s\<lparr>hw_trace := t, vram := v, scr_i := i, scr_j := j, mm_entry := e, mm_map := m,
     page_directory := pd, ptab := pt\<rparr> \<Longrightarrow> paging_step s s'"
  unfolding paging_step_def by blast

lemma paging_step_refl: "paging_step s s"
  by (rule paging_stepI [where t = "hw_trace s" and v = "vram s" and i = "scr_i s" and j = "scr_j s"
      and e = "mm_entry s" and m = "mm_map s" and pd = "page_directory s" and pt = "ptab s"]) simp

lemma paging_step_trans: "paging_step s s' \<Longrightarrow> paging_step s' s'' \<Longrightarrow> paging_step s s''"
  unfolding paging_step_def by (elim exE) (simp, blast)

locale effect_frame =
  fixes R :: "'s \<Rightarrow> 's \<Rightarrow> bool"
  assumes refl: "R s s" and trans: "R s s' \<Longrightarrow> R s' s'' \<Longrightarrow> R s s''"
begin

lemma frame_bind:
  "R s (out_state m) \<Longrightarrow> (\<And>s1 a. m = Ret s1 a \<Longrightarrow> R s1 (out_state (f s1 a))) \<Longrightarrow>
   R s (out_state (bind_out m f))"
  by (cases m) (auto intro: trans)

lemma frame_fold:
  "(\<And>k s. R s (out_state (f k s))) \<Longrightarrow> R s (out_state m) \<Longrightarrow>
   R s (out_state (fold (\<lambda>k out. bind_out out (\<lambda>s _. f k s)) ks m))"
proof (induction ks arbitrary: m)
  case (Cons k ks)
  have "R s (out_state (bind_out m (\<lambda>s _. f k s)))" using Cons.prems by (intro frame_bind) auto
  with Cons show ?case by simp
qed simp

end

interpretation paging_frame: effect_frame paging_step
  by unfold_locales (fact paging_step_refl, rule paging_step_trans)

lemma kprint_paging: "paging_step s (kprint str s)"
proof -
  obtain t v i j where "kprint str s = s\<lparr>hw_trace := t, vram := v, scr_i := i, scr_j := j\<rparr>"
    using kprint_shape by blast
  then show ?thesis by (intro paging_stepI [where t = t and v = v and i = i and j = j and e = "mm_entry s"
      and m = "mm_map s" and pd = "page_directory s" and pt = "ptab s"]) simp
qed

lemma allocate_paging: "allocate n s = (a, s') \<Longrightarrow> paging_step s s'"
proof -
  assume "allocate n s = (a, s')"
  moreover obtain e m where "snd (allocate n s) = s\<lparr>mm_entry := e, mm_map := m\<rparr>"
    using allocate_shape by blast
  ultimately show ?thesis by (intro paging_stepI [where t = "hw_trace s" and e = e
      and m = m and pd = "page_directory s" and pt = "ptab s" and v = "vram s" and i = "scr_i s" and j = "scr_j s"]) simp
qed

lemma free_paging: "paging_step s (free a s)"
proof -
  obtain e m where "free a s = s\<lparr>mm_entry := e, mm_map := m\<rparr>" using free_shape by blast
  then show ?thesis by (intro paging_stepI [where t = "hw_trace s" and e = e
      and m = m and pd = "page_directory s" and pt = "ptab s" and v = "vram s" and i = "scr_i s" and j = "scr_j s"]) simp
qed

lemma ptab_paging: "paging_step s (s\<lparr>ptab := m\<rparr>)" "paging_step s (s\<lparr>page_directory := pd\<rparr>)"
  by (intro paging_stepI [where t = "hw_trace s" and v = "vram s" and i = "scr_i s" and j = "scr_j s"
      and e = "mm_entry s" and m = "mm_map s" and pd = "page_directory s" and pt = m], simp)
    (intro paging_stepI [where t = "hw_trace s" and v = "vram s" and i = "scr_i s" and j = "scr_j s"
      and e = "mm_entry s" and m = "mm_map s" and pd = pd and pt = "ptab s"], simp)

lemma invlpg_paging: "paging_step s (invlpg v s)"
  by (intro paging_stepI [where t = "hw_trace s @ [Invlpg v]" and v = "vram s" and i = "scr_i s" and j = "scr_j s"
      and e = "mm_entry s" and m = "mm_map s" and pd = "page_directory s" and pt = "ptab s"])
    (simp add: hw_ops)

lemma pte_paging:
  "paging_step s (out_state (store_pte a x s))" "out_state (load_pte a s) = s"
  by (simp_all add: store_pte_def load_pte_def paging_frame.refl ptab_paging split: option.splits)

lemmas paging_frames = kprint_paging allocate_paging free_paging ptab_paging invlpg_paging
  pte_paging paging_frame.refl

lemma zero_table_paging: "paging_step s (out_state (zero_table a s))"
  unfolding zero_table_def by (rule paging_frame.frame_fold) (simp_all add: paging_frames)

lemma ensure_table_paging: "paging_step s (out_state (ensure_table d f s))"
proof (cases "page_directory s d AND 1 = 0")
  case True
  obtain a s1 where a: "allocate 4096 s = (a, s1)" by fastforce
  have "paging_step s1 (out_state (ensure_table d f s))"
  proof (cases "a = 0")
    case False
    define g where "g = (\<lambda>s (u::unit). Ret (s\<lparr>page_directory := (page_directory s)(d := a OR
      (if f AND PAGE_USER \<noteq> 0 then (PAGE_PRESENT OR PAGE_WRITE) OR PAGE_USER else PAGE_PRESENT OR PAGE_WRITE))\<rparr>) True :: ('a paging_scheme, bool) outcome)"
    have "ensure_table d f s = bind_out (zero_table a s1) g"
      using False True a by (simp add: ensure_table_def Let_def g_def)
    moreover have "paging_step s1 (out_state (bind_out (zero_table a s1) g))"
      by (rule paging_frame.frame_bind [OF zero_table_paging]) (simp add: g_def paging_frames)
    ultimately show ?thesis by simp
  qed (simp add: ensure_table_def True a paging_frames)
  with allocate_paging [OF a] show ?thesis by (rule paging_frame.trans)
qed (simp add: ensure_table_def paging_frames)

lemma map_page_paging: "paging_step s (out_state (map_page p v f s))"
  unfolding map_page_def Let_def
proof (rule paging_frame.frame_bind [OF ensure_table_paging])
  fix s1 go
  let ?s = "if f AND PAGE_USER \<noteq> 0
    then s1\<lparr>page_directory := (page_directory s1)(pd_index v := page_directory s1 (pd_index v) OR PAGE_USER)\<rparr>
    else s1"
  let ?a = "frame_of (page_directory ?s (pd_index v)) + 4 * pt_index v"
  have "paging_step ?s (out_state (bind_out (store_pte ?a (frame_of p OR f) ?s) (\<lambda>s _. Ret (invlpg v s) ())))"
    by (rule paging_frame.frame_bind) (simp_all add: paging_frames)
  moreover have "paging_step s1 ?s" by (simp add: paging_frames)
  ultimately show "paging_step s1 (out_state (if \<not> go then Ret s1 () else
      bind_out (store_pte ?a (frame_of p OR f) ?s) (\<lambda>s _. Ret (invlpg v s) ())))"
    using paging_frame.trans by (cases go) (simp_all only: not_True_eq_False not_False_eq_True if_True if_False
      out_state.simps paging_frame.refl)
qed

section \<open>Mapping a page\<close>

definition can_map :: "'a paging_scheme \<Rightarrow> u32 \<Rightarrow> bool" where
  "can_map s v \<longleftrightarrow>
     (if present s (pd_index v) then \<not> table_page s v
      else let a = fst (allocate 4096 s) in a \<noteq> 0 \<and> ident_frame s a \<and> fresh_frame s a)"

definition maps_only :: "u32 \<Rightarrow> u32 option \<Rightarrow> 'a paging_scheme \<Rightarrow> 'b paging_scheme \<Rightarrow> bool" where
  "maps_only v p s s' \<longleftrightarrow> (\<forall>w. translate s' w =
     (if page_of w = page_of v then map_option (\<lambda>f. f OR (w AND 0xFFF)) p else translate s w))"

lemma no_table_in_absent: 
  assumes "vm_wf s" "\<not> present s (pd_index v)"
  shows "\<not> table_page s v"
proof
  assume "table_page s v"
  then obtain d where d: "present s d" "page_of v = page_of (tframe s d)" by (auto simp: table_page_def)
  have "translate s (tframe s d + 4 * 0) = Some (tframe s d + 4 * 0)"
    using assms(1) d(1) unfolding vm_wf_def by (metis unat_0 zero_less_numeral)
  with d(2) assms show False using same_page_index [OF d(2)] by (auto simp: translate_eq vm_wf_def)
qed

lemma ensure_table_ok:
  assumes wf: "vm_wf s" and c: "can_map s v"
  obtains s1 where "ensure_table (pd_index v) f s = Ret s1 True" "vm_wf s1" "present s1 (pd_index v)"
    "\<not> table_page s1 v" "\<And>w. translate s1 w = translate s w"
proof (cases "present s (pd_index v)")
  case True
  with c wf show ?thesis by (intro that [of s]) (simp_all add: ensure_table_def present_def can_map_def)
next
  case False
  obtain a s0 where a: "allocate 4096 s = (a, s0)" by fastforce
  note keep = allocate_vm [OF a]
  have ia: "a \<noteq> 0" "ident_frame s a" "fresh_frame s a" using c False a by (auto simp: can_map_def)
  define fl where "fl = (if f AND PAGE_USER \<noteq> 0 then (PAGE_PRESENT OR PAGE_WRITE) OR PAGE_USER else PAGE_PRESENT OR PAGE_WRITE)"
  have fl: "fl AND NOT (mask 12) = 0" "fl AND 1 \<noteq> 0"
    by (simp_all add: fl_def page_flags mask_eq_exp_minus_1)
  let ?s1 = "s0\<lparr>ptab := zeroed a 1024 (ptab s0), page_directory := (page_directory s0)(pd_index v := a OR fl)\<rparr>"
  have wf0: "vm_wf s0" "\<not> present s0 (pd_index v)" "ident_frame s0 a" "fresh_frame s0 a"
    using wf False ia keep by simp_all
  note inst = install_table [OF wf0(1,2) pd_index_bound wf0(3,4) ia(1) fl]
  have e: "ensure_table (pd_index v) f s = Ret ?s1 True"
    using False a ia(1) zero_table_eq [OF wf0(3,4)]
    by (simp add: ensure_table_def present_def fl_def)
  have tp: "\<not> table_page ?s1 v"
  proof
    assume "table_page ?s1 v"
    moreover have "\<not> table_page s0 v" using no_table_in_absent [OF wf0(1,2)] .
    ultimately have "page_of v = page_of a" unfolding table_page_def inst(2,3) by (auto split: if_splits)
    moreover have "translate s0 (a + 4 * 0) = Some (a + 4 * 0)"
      using wf0(3) unfolding ident_frame_def by (metis unat_0 zero_less_numeral)
    ultimately show False using same_page_index [of v a] wf0(1,2) by (auto simp: translate_eq vm_wf_def)
  qed
  show ?thesis using that [OF e inst(4) _ tp] inst(1,2) keep(3) by simp
qed

lemma map_page_ok:
  assumes wf: "vm_wf s" and c: "can_map s v" and f: "f AND NOT (mask 12) = 0"
  obtains s' where "map_page p v f s = Ret s' ()" "vm_wf s'" "last (hw_trace s') = Invlpg v"
    "maps_only v (if f AND 1 = 0 then None else Some (frame_of p)) s s'" "paging_step s s'"
    "\<not> table_page s' v" "present s' (pd_index v)"
proof -
  obtain s1 where s1: "ensure_table (pd_index v) f s = Ret s1 True" "vm_wf s1" "present s1 (pd_index v)"
    "\<not> table_page s1 v" "\<And>w. translate s1 w = translate s w"
    using ensure_table_ok [OF wf c] by metis
  define s2 where "s2 = (if f AND PAGE_USER \<noteq> 0
    then s1\<lparr>page_directory := (page_directory s1)(pd_index v := page_directory s1 (pd_index v) OR PAGE_USER)\<rparr>
    else s1)"
  have u: "PAGE_USER AND NOT (mask 12) = 0" by (simp add: page_flags mask_eq_exp_minus_1)
  note b = set_user_bit [OF s1(3) u]
  have s2: "vm_wf s2" "present s2 (pd_index v)" "\<not> table_page s2 v" "translate s2 w = translate s w" for w
    using s1 b unfolding s2_def by (cases "f AND PAGE_USER \<noteq> 0"; simp add: table_page_def)+
  let ?x = "frame_of p OR f"
  let ?s3 = "s2\<lparr>ptab := (ptab s2)(pte_addr s2 v := ?x)\<rparr>"
  let ?s4 = "invlpg v ?s3"
  note e = set_entry [OF s2(1-3), where x = ?x]
  have m: "map_page p v f s = Ret ?s4 ()"
    using s1(1) e(1) by (simp add: map_page_def s2_def [symmetric] pte_addr_def [symmetric])
  have tr: "translate ?s4 w = translate ?s3 w" for w
    by (simp add: translate_def pte_addr_def hw_ops)
  have pr: "present ?s4 d = present ?s3 d" "tframe ?s4 d = tframe ?s3 d" for d
    by (simp_all add: present_def tframe_def hw_ops)
  have "vm_wf ?s4" using e(4) unfolding vm_wf_def tr pr by (simp add: hw_ops)
  moreover have "last (hw_trace ?s4) = Invlpg v" by (simp add: hw_ops)
  moreover have "?x AND 1 = f AND 1" unfolding frame_of_bits
    by (rule bit_word_eqI) (auto simp: bit_simps)
  moreover have "frame_of ?x = frame_of p" using frame_of_or_low [OF f] by simp
  ultimately have "maps_only v (if f AND 1 = 0 then None else Some (frame_of p)) s ?s4"
    using e(2,3) s2(4) unfolding maps_only_def tr by auto
  moreover have "paging_step s ?s4" using map_page_paging [of s p v f] m by simp
  moreover have "\<not> table_page ?s4 v" "present ?s4 (pd_index v)"
    using s2(2,3) by (simp_all add: table_page_def pr)
  ultimately show ?thesis using that [OF m \<open>vm_wf ?s4\<close>] by (simp add: hw_ops)
qed

section \<open>Allocating, looking up and unmapping\<close>

lemma maps_only_other: "maps_only v p s s' \<Longrightarrow> page_of w \<noteq> page_of v \<Longrightarrow> translate s' w = translate s w"
  by (simp add: maps_only_def)

lemma maps_only_same:
  "maps_only v p s s' \<Longrightarrow> page_of w = page_of v \<Longrightarrow> translate s' w = map_option (\<lambda>f. f OR (w AND 0xFFF)) p"
  by (simp add: maps_only_def)

text \<open>The walk and its invariant depend on the tables only.\<close>

lemma vm_cong:
  assumes "page_directory s' = page_directory s" "ptab s' = ptab s" "paging_on s' = paging_on s"
  shows "translate s' w = translate s w" "present s' d = present s d" "tframe s' d = tframe s d"
    "vm_wf s' = vm_wf s" "table_page s' w = table_page s w" "pte_addr s' w = pte_addr s w"
    "ident_frame s' a = ident_frame s a" "fresh_frame s' a = fresh_frame s a"
proof -
  show tr: "translate s' w = translate s w" for w using assms by (simp add: translate_def pte_addr_def)
  show pr: "present s' d = present s d" "tframe s' d = tframe s d" for d
    using assms by (simp_all add: present_def tframe_def)
  show "vm_wf s' = vm_wf s" unfolding vm_wf_def tr pr assms(3) ..
  show "table_page s' w = table_page s w" unfolding table_page_def pr ..
  show "pte_addr s' w = pte_addr s w" using assms by (simp add: pte_addr_def)
  show "ident_frame s' a = ident_frame s a" unfolding ident_frame_def tr ..
  show "fresh_frame s' a = fresh_frame s a" unfolding fresh_frame_def pr ..
qed

lemma take_virtual_vm:
  assumes "take_virtual s = (v, s1)"
  shows "translate s1 w = translate s w" "vm_wf s1 = vm_wf s"
proof -
  have "page_directory s1 = page_directory s" "ptab s1 = ptab s" "paging_on s1 = paging_on s"
    using assms by (auto simp: take_virtual_def Let_def split: if_splits)
  note * = vm_cong [OF this]
  show "translate s1 w = translate s w" "vm_wf s1 = vm_wf s" by (fact *)+
qed

lemma allocate_page_none:
  "fst (allocate 4096 s) = 0 \<Longrightarrow> allocate_page flag s = Ret (snd (allocate 4096 s)) 0"
  by (simp add: allocate_page_def split_beta)

lemma default_flags_low: "flag AND NOT (mask 12) = 0 \<Longrightarrow> default_flags flag AND NOT (mask 12) = 0"
  by (simp add: default_flags_def page_flags mask_eq_exp_minus_1)

lemma allocate_page_ok:
  assumes wf: "vm_wf s" and p: "allocate 4096 s = (p, s1)" "p \<noteq> 0" and v: "take_virtual s1 = (v, s2)"
    and c: "can_map s2 v" and f: "flag AND NOT (mask 12) = 0" "flag = 0 \<or> flag AND 1 \<noteq> 0"
  obtains s' where "allocate_page flag s = Ret s' v" "vm_wf s'" "maps_only v (Some (frame_of p)) s s'"
    "paging_step s2 s'"
proof -
  have wf2: "vm_wf s2" using wf allocate_vm(6) [OF p(1)] take_virtual_vm(2) [OF v] by simp
  obtain s' where s': "map_page p v (default_flags flag) s2 = Ret s' ()" "vm_wf s'"
    "maps_only v (if default_flags flag AND 1 = 0 then None else Some (frame_of p)) s2 s'" "paging_step s2 s'"
    using map_page_ok [OF wf2 c default_flags_low [OF f(1)]] by metis
  have "default_flags flag AND 1 \<noteq> 0" using f(2) by (auto simp: default_flags_def page_flags)
  with s'(3) have "maps_only v (Some (frame_of p)) s s'"
    using allocate_vm(3) [OF p(1)] take_virtual_vm(1) [OF v] by (simp add: maps_only_def)
  moreover have "allocate_page flag s = Ret s' v"
    using p v s'(1) by (simp add: allocate_page_def)
  ultimately show ?thesis using that s' by blast
qed

lemma translate_frame: "frame_of (frame_of x OR (w AND 0xFFF)) = frame_of x"
  unfolding frame_of_bits mask_lits by (rule bit_word_eqI) (auto simp: bit_simps)

lemma get_pte_eq:
  "get_pte v s = (if present s (pd_index v) then pte_addr s v else 0)"
  by (simp add: get_pte_def present_def pte_addr_def Let_def)

lemma pte_addr_nonnull: "vm_wf s \<Longrightarrow> present s (pd_index v) \<Longrightarrow> pte_addr s v \<noteq> 0"
proof
  assume "vm_wf s" "present s (pd_index v)" "pte_addr s v = 0"
  moreover have "frame_of 0 = 0" by (simp add: frame_of_def)
  ultimately show False using pte_addr_frame [of s v] by (simp add: vm_wf_def tframe_def)
qed

lemma load_pte_ok:
  "vm_wf s \<Longrightarrow> present s (pd_index v) \<Longrightarrow> load_pte (pte_addr s v) s = Ret s (ptab s (pte_addr s v))"
  by (simp add: load_pte_def vm_wf_table_ident)

lemma get_map_ok:
  assumes wf: "vm_wf s"
  shows "get_map v s = Ret s (case translate s v of None \<Rightarrow> 0 | Some q \<Rightarrow> frame_of q)"
proof (cases "present s (pd_index v)")
  case True
  then show ?thesis
    using wf load_pte_ok [OF wf True] pte_addr_nonnull [OF wf True]
    by (simp add: get_map_def get_pte_eq Let_def translate_eq vm_wf_def translate_frame)
next
  case False
  then show ?thesis using wf by (simp add: get_map_def get_pte_eq translate_eq vm_wf_def)
qed

lemma translate_page_none:
  assumes "page_of w = page_of v"
  shows "translate s w = None \<longleftrightarrow> translate s v = None"
  using same_page_index [OF assms] same_page_pte [OF assms, of s] by (simp add: translate_eq)

lemma unmapped_maps_none: "translate s v = None \<Longrightarrow> maps_only v None s s"
  using translate_page_none by (auto simp: maps_only_def)

lemma unmapped_entry:
  assumes "vm_wf s" "translate s v = None" "present s (pd_index v)"
  shows "ptab s (pte_addr s v) AND 1 = 0"
  using assms by (simp add: translate_eq vm_wf_def split: if_splits)

lemma unmap_page_ok:
  assumes wf: "vm_wf s" and t: "\<not> table_page s v"
  obtains s' where "unmap_page v s = Ret s' ()" "vm_wf s'" "maps_only v None s s'"
proof (cases "translate s v")
  case None
  then have "unmap_page v s = Ret s ()"
    using unmapped_entry [OF wf None] load_pte_ok [OF wf]
    by (simp add: unmap_page_def get_pte_eq Let_def)
  then show ?thesis using that [of s] wf unmapped_maps_none [OF None] by blast
next
  case (Some q)
  then have p: "present s (pd_index v)" "ptab s (pte_addr s v) AND 1 \<noteq> 0"
    using wf by (auto simp: translate_eq vm_wf_def split: if_splits)
  let ?s1 = "s\<lparr>ptab := (ptab s)(pte_addr s v := 0)\<rparr>"
  note e = set_entry [OF wf p(1) t, where x = 0]
  have "unmap_page v s = Ret (invlpg v ?s1) ()"
    using p load_pte_ok [OF wf p(1)] pte_addr_nonnull [OF wf p(1)] e(1)
    by (simp add: unmap_page_def get_pte_eq Let_def)
  moreover note vm_cong [of "invlpg v ?s1" ?s1]
  moreover have "maps_only v None s ?s1" unfolding maps_only_def using e(2,3) by simp
  ultimately show ?thesis using that [of "invlpg v ?s1"] e(4) by (simp add: maps_only_def hw_ops)
qed

text \<open>\<open>free_page\<close> gives the frame behind the page back and clears the entry, but leaves
  the TLB alone; the page number goes on top of the stack of free pages.\<close>

lemma free_page_ok:
  assumes wf: "vm_wf s" and t: "\<not> table_page s v" and n: "free_count s < 1024"
  obtains s' where "free_page v s = Ret s' ()" "vm_wf s'" "maps_only v None s s'"
    "free_count s' = free_count s + 1" "free_virtual s' = (free_virtual s)(free_count s := v)"
    "mm_map s' = mm_map (case translate s v of None \<Rightarrow> s | Some q \<Rightarrow> free (frame_of q) s)"
    "mm_entry s' = mm_entry (case translate s v of None \<Rightarrow> s | Some q \<Rightarrow> free (frame_of q) s)"
proof -
  let ?s0 = "s\<lparr>free_virtual := (free_virtual s)(free_count s := v), free_count := free_count s + 1\<rparr>"
  have push: "push_virtual v s = Ret ?s0 ()" using n by (simp add: push_virtual_def)
  have "page_directory ?s0 = page_directory s" "ptab ?s0 = ptab s" "paging_on ?s0 = paging_on s" by simp_all
  note c0 = vm_cong [OF this]
  have wf0: "vm_wf ?s0" and t0: "\<not> table_page ?s0 v" and tr0: "translate ?s0 w = translate s w" for w
    using wf t unfolding c0 by simp_all
  have free0: "mm_map (free a ?s0) = mm_map (free a s)" "mm_entry (free a ?s0) = mm_entry (free a s)" for a
    by (simp_all add: free_def entries_def Let_def split_beta del: merge_prev.simps merge_next.simps)
  show ?thesis
  proof (cases "translate s v")
    case None
    then have "free_page v s = Ret ?s0 ()"
      using unmapped_entry [OF wf0, of v] load_pte_ok [OF wf0, of v] tr0 push
      by (simp add: free_page_def get_pte_eq Let_def)
    moreover have "maps_only v None s ?s0"
      using unmapped_maps_none [OF None] unfolding maps_only_def tr0 .
    ultimately show ?thesis using that [of ?s0] wf0 None by (simp add: vm_wf_def)
  next
    case (Some q)
    then have p: "present ?s0 (pd_index v)" "ptab ?s0 (pte_addr ?s0 v) AND 1 \<noteq> 0"
      using wf by (auto simp: translate_eq vm_wf_def c0(2) pte_addr_def split: if_splits)
    have q: "frame_of q = frame_of (ptab ?s0 (pte_addr ?s0 v))"
      using Some wf p by (auto simp: translate_eq vm_wf_def c0(2,6) translate_frame split: if_splits)
    let ?s1 = "free (frame_of q) ?s0"
    obtain e m where s1: "?s1 = ?s0\<lparr>mm_entry := e, mm_map := m\<rparr>" using free_shape by blast
    have "page_directory ?s1 = page_directory ?s0" "ptab ?s1 = ptab ?s0" "paging_on ?s1 = paging_on ?s0"
      unfolding s1 by simp_all
    note c1 = vm_cong [OF this]
    have wf1: "vm_wf ?s1" and t1: "\<not> table_page ?s1 v" and tr1: "translate ?s1 w = translate ?s0 w"
      and p1: "present ?s1 (pd_index v)" "pte_addr ?s1 v = pte_addr ?s0 v" for w
      using wf0 t0 p(1) unfolding c1 by simp_all
    note e = set_entry [OF wf1 p1(1) t1, where x = 0]
    let ?s2 = "?s1\<lparr>ptab := (ptab ?s1)(pte_addr ?s1 v := 0)\<rparr>"
    have "free_page v s = Ret ?s2 ()"
      using push p load_pte_ok [OF wf0 p(1)] pte_addr_nonnull [OF wf0 p(1)] e(1) p1(2)
      by (simp add: free_page_def get_pte_eq Let_def q)
    moreover have "maps_only v None s ?s2"
      unfolding maps_only_def using e(2,3) tr1 tr0 by simp
    moreover have "free_count ?s2 = free_count s + 1" "free_virtual ?s2 = (free_virtual s)(free_count s := v)" unfolding s1 by simp_all
    moreover have "mm_map ?s2 = mm_map (free (frame_of q) s)" "mm_entry ?s2 = mm_entry (free (frame_of q) s)"
      using free0 by simp_all
    ultimately show ?thesis using that [of ?s2] e(4) Some by simp
  qed
qed

section \<open>The first page table\<close>

lemma first_table_entries:
  assumes "n \<le> 1024" "frame_of a = a"
    and that: "unat (i :: u32) < 1024"
  shows "fold (\<lambda>k m. m(a + 4 * of_nat k := (of_nat k * 0x1000) OR 7)) [0..<n] m (a + 4 * i) =
    (if unat i < n then (i * 0x1000) OR 7 else m (a + 4 * i))"
  using assms(1)
proof (induction n)
  case (Suc n)
  have n: "unat (of_nat n :: u32) = n" using Suc.prems by (simp add: unat_small)
  have "a + 4 * i = a + 4 * of_nat n \<longleftrightarrow> i = of_nat n"
    using entry_addr_inj [of i "of_nat n" a a] that Suc.prems n assms(2) by auto
  moreover have "i = of_nat n \<longleftrightarrow> unat i = n" using n by (auto simp: word_unat_eq_iff)
  ultimately have e: "a + 4 * i = a + 4 * of_nat n \<longleftrightarrow> unat i = n" by simp
  let ?f = "\<lambda>k m. m(a + 4 * of_nat k := (of_nat k * 0x1000) OR 7)"
  have "fold ?f [0..<Suc n] m (a + 4 * i) =
      (if unat i = n then (of_nat n * 0x1000) OR 7 else fold ?f [0..<n] m (a + 4 * i))"
    using e by simp
  also have "\<dots> = (if unat i < Suc n then (i * 0x1000) OR 7 else m (a + 4 * i))"
    using Suc.IH Suc.prems by (auto simp del: fun_upd_apply)
  finally show ?case .
qed simp

lemma cleared_directory:
  "n \<le> 1024 \<Longrightarrow> fold (\<lambda>k m. m(of_nat k := 0)) [1..<n] m (i :: u32) =
    (if 0 < unat i \<and> unat i < n then 0 else m i)" for m :: "u32 \<Rightarrow> u32"
proof (induction n)
  case (Suc n)
  have n: "unat (of_nat n :: u32) = n" using Suc.prems by (simp add: unat_small)
  have "i = of_nat n \<longleftrightarrow> unat i = n" using n by (auto simp: word_unat_eq_iff)
  then show ?case using Suc by (cases "n = 0") (auto simp: less_Suc_eq)
qed simp

lemma pd_index_zero: "pd_index v = 0 \<longleftrightarrow> unat v < 0x400000"
proof -
  have "pd_index v = 0 \<longleftrightarrow> unat (pd_index v) = 0" by (simp add: word_unat_eq_iff)
  also have "unat (pd_index v) = unat v div 4194304"
    unfolding pd_index_def unat_drop_bit_eq by (simp add: drop_bit_eq_div)
  also have "\<dots> = 0 \<longleftrightarrow> unat v < 0x400000" by auto
  finally show ?thesis .
qed

definition link_ok :: "'a paging_scheme \<Rightarrow> bool" where
  "link_ok s \<longleftrightarrow> frame_of (addr_page_table s) = addr_page_table s \<and> addr_page_table s \<noteq> 0 \<and>
     unat (addr_page_table s) < 0x400000"

lemma entry_of_page: "pd_index v = 0 \<Longrightarrow> frame_of ((pt_index v * 0x1000) OR 7) OR (v AND 0xFFF) = v"
proof -
  assume p: "pd_index v = 0"
  have "pt_index v * 0x1000 = push_bit 12 (pt_index v)" by (simp add: push_bit_eq_mult)
  moreover have "frame_of (push_bit 12 (pt_index v) OR mask 3) OR (v AND 0xFFF) = v"
  proof (rule bit_word_eqI)
    fix n assume "n < LENGTH(32)"
    have "\<not> bit v n" if "n \<ge> 22"
    proof -
      have "\<not> bit (pd_index v) (n - 22)" using p by simp
      with that show ?thesis by (simp add: pd_index_def bit_simps)
    qed
    then show "bit (frame_of (push_bit 12 (pt_index v) OR mask 3) OR (v AND 0xFFF)) n = bit v n"
      using \<open>n < LENGTH(32)\<close> unfolding frame_of_bits pt_index_def mask_lits
      by (cases "n \<ge> 22") (auto simp: bit_simps)
  qed
  moreover have "(mask 3 :: u32) = 7" by (simp add: mask_eq_exp_minus_1)
  ultimately show ?thesis by simp
qed

text \<open>After \<open>build_first_page\<close> and \<open>enable_paging\<close> the first 4 MB are mapped to
  themselves and nothing else is mapped.\<close>

lemma identity_map:
  assumes l: "link_ok s"
  defines "s' \<equiv> enable_paging (build_first_page s)"
  shows "translate s' v = (if unat v < 0x400000 then Some v else None)" "vm_wf s'"
proof -
  let ?a = "addr_page_table s"
  have a: "frame_of ?a = ?a" "?a \<noteq> 0" "unat ?a < 0x400000" using l by (simp_all add: link_ok_def)
  have pd: "page_directory s' i = (if i = 0 then ?a OR 7 else if unat i < 1024 then 0 else page_directory s i)" for i
    unfolding s'_def enable_paging_def build_first_page_def Let_def
    by (simp add: hw_ops cleared_directory [OF le_refl, unfolded One_nat_def])
      (simp add: word_unat_eq_iff)
  have seven: "(7 :: u32) = mask 3" by (simp add: mask_eq_exp_minus_1)
  have low7: "(7 :: u32) AND NOT (mask 12) = 0" by (simp add: mask_eq_exp_minus_1)
  have pr: "present s' i \<longleftrightarrow> i = 0" for i
  proof (cases "i = 0")
    case True
    have "bit (?a OR 7) 0" by (simp only: seven) (simp add: bit_simps)
    with True show ?thesis by (simp add: present_def pd and_one_bit)
  next
    case False
    then show ?thesis by (simp add: present_def pd)
  qed
  have tf: "tframe s' 0 = ?a" using frame_of_or_low [OF low7] a by (simp add: tframe_def pd)
  have on: "paging_on s'" by (simp add: s'_def enable_paging_def hw_ops)
  show tr: "translate s' v = (if unat v < 0x400000 then Some v else None)" for v
  proof (cases "pd_index v = 0")
    case True
    have e: "ptab s' (?a + 4 * pt_index v) = (pt_index v * 0x1000) OR 7"
      using first_table_entries [OF le_refl a(1) pt_index_bound] pt_index_bound [of v]
      by (simp add: s'_def enable_paging_def build_first_page_def hw_ops)
    have "bit ((pt_index v * 0x1000) OR 7) 0" by (simp only: seven) (simp add: bit_simps)
    then show ?thesis using True on pr [of 0] entry_of_page [OF True] pd_index_zero [of v]
      by (simp add: translate_eq pte_addr_tframe tf e and_one_bit)
  next
    case False
    then show ?thesis using on pr pd_index_zero [of v] by (simp add: translate_eq)
  qed
  have "translate s' (?a + 4 * k) = Some (?a + 4 * k)" if "unat k < 1024" for k
  proof -
    have "page_of (?a + 4 * k) = page_of ?a"
      using entry_addr_frame [OF that, of ?a] by (simp add: page_of_eq_frame a)
    then have "pd_index (?a + 4 * k) = pd_index ?a" by (simp add: pd_index_page)
    then show ?thesis using pd_index_zero a(3) by (simp add: tr) metis
  qed
  then show "vm_wf s'" using on a(2) unfolding vm_wf_def pr by (auto simp: tf)
qed

text \<open>When the table is there already, \<open>map_page\<close> writes one entry and neither allocates
  nor moves a table.\<close>

lemma map_page_present:
  assumes wf: "vm_wf s" and pr: "present s (pd_index v)" and t: "\<not> table_page s v"
  obtains pd pt where "map_page p v f s = Ret (invlpg v (s\<lparr>page_directory := pd, ptab := pt\<rparr>)) ()"
    "\<And>d. present (s\<lparr>page_directory := pd, ptab := pt\<rparr>) d = present s d"
    "\<And>d. tframe (s\<lparr>page_directory := pd, ptab := pt\<rparr>) d = tframe s d"
proof -
  define s2 where "s2 = (if f AND PAGE_USER \<noteq> 0
    then s\<lparr>page_directory := (page_directory s)(pd_index v := page_directory s (pd_index v) OR PAGE_USER)\<rparr>
    else s)"
  have u: "PAGE_USER AND NOT (mask 12) = 0" by (simp add: page_flags mask_eq_exp_minus_1)
  note b = set_user_bit [OF pr u]
  have s2: "vm_wf s2" "present s2 (pd_index v)" "\<not> table_page s2 v"
    using wf pr t b unfolding s2_def by (cases "f AND PAGE_USER \<noteq> 0"; simp add: table_page_def)+
  have k: "present s2 d = present s d" "tframe s2 d = tframe s d" for d
    using b unfolding s2_def by (cases "f AND PAGE_USER \<noteq> 0"; simp)+
  let ?m = "(ptab s2)(pte_addr s2 v := frame_of p OR f)"
  have "map_page p v f s = Ret (invlpg v (s2\<lparr>ptab := ?m\<rparr>)) ()"
    using pr set_entry(1) [OF s2, where x = "frame_of p OR f"]
    by (simp add: map_page_def ensure_table_def s2_def [symmetric] pte_addr_def [symmetric] present_def)
  moreover have "s2\<lparr>ptab := ?m\<rparr> = s\<lparr>page_directory := page_directory s2, ptab := ?m\<rparr>"
    by (simp add: s2_def)
  moreover have "present (s\<lparr>page_directory := page_directory s2, ptab := ?m\<rparr>) d = present s d"
    "tframe (s\<lparr>page_directory := page_directory s2, ptab := ?m\<rparr>) d = tframe s d" for d
    using k [of d] by (simp_all add: present_def tframe_def)
  ultimately show ?thesis using that by metis
qed

lemma allocate_cong:
  assumes "mm_map s' = mm_map s" "mm_entry s' = mm_entry s"
  shows "fst (allocate n s') = fst (allocate n s)"
    "mm_map (snd (allocate n s')) = mm_map (snd (allocate n s))"
    "mm_entry (snd (allocate n s')) = mm_entry (snd (allocate n s))"
  using assms by (simp_all add: allocate_def entries_def Let_def)

lemma alloc_many_cong:
  "mm_map s' = mm_map s \<Longrightarrow> mm_entry s' = mm_entry s \<Longrightarrow>
   fst (alloc_many (allocate n) k s') = fst (alloc_many (allocate n) k s)"
proof (induction k arbitrary: s s')
  case (Suc k)
  note c = allocate_cong [OF Suc.prems, of n]
  show ?case using c(1) Suc.IH [OF c(2,3)] by (simp add: split_beta Let_def)
qed simp

text \<open>Four consecutive pages for a stack, or any number: page \<open>k\<close> is backed by the
  \<open>k\<close>-th frame of the same number of successive allocations.\<close>

lemma unat_of_nat_u32: "m < 4294967296 \<Longrightarrow> unat (of_nat m :: u32) = m"
  by (simp add: unat_of_nat take_bit_eq_mod)

lemma page_of_offset: "unat (b :: u32) + 4096 * k < 2 ^ 32 \<Longrightarrow>
  unat (page_of (b + of_nat k * 4096)) = unat (page_of b) + k"
proof -
  assume b: "unat b + 4096 * k < 2 ^ 32"
  then have k: "unat (of_nat (k * 4096) :: u32) = k * 4096"
    by (intro unat_of_nat_u32) simp
  have "unat (b + of_nat (k * 4096)) = unat b + k * 4096"
    using b k by (subst unat_add_lem [THEN iffD1]) (simp_all del: of_nat_mult)
  then have "unat (b + of_nat k * 4096) = unat b + k * 4096" by simp
  moreover have "unat (page_of x) = unat x div 4096" for x
    unfolding page_of_def unat_drop_bit_eq by (simp add: drop_bit_eq_div)
  ultimately show ?thesis by simp
qed

lemma contig_loop_ok:
  assumes "vm_wf s" "flag AND NOT (mask 12) = 0" "flag AND 1 \<noteq> 0"
    "\<And>j. k \<le> j \<Longrightarrow> j < k + n \<Longrightarrow> present s (pd_index (b + of_nat j * 4096)) \<and> \<not> table_page s (b + of_nat j * 4096)"
    "unat b + 4096 * (k + n) \<le> 2 ^ 32" "length (fst (alloc_many (allocate 4096) n s)) = n"
  shows "\<exists>s'. contig_loop n k b flag s = Ret s' b \<and> vm_wf s' \<and>
    (\<forall>w. translate s' w =
       (if \<exists>j < n. page_of w = page_of (b + of_nat (k + j) * 4096)
        then Some (frame_of (fst (alloc_many (allocate 4096) n s) ! (unat (page_of w) - unat (page_of b) - k)) OR (w AND 0xFFF))
        else translate s w))"
  using assms
proof (induction n arbitrary: k s)
  case 0
  then show ?case by simp
next
  case (Suc n)
  let ?v = "b + of_nat k * 4096"
  obtain p s1 where a: "allocate 4096 s = (p, s1)" by fastforce
  obtain fs where fs: "fst (alloc_many (allocate 4096) n s1) = fs" by blast
  from Suc.prems(6) a fs have p0: "p \<noteq> 0" and len: "length fs = n"
    by (auto simp: split_beta split: if_splits)
  then have all: "fst (alloc_many (allocate 4096) (Suc n) s) = p # fs" using a fs by (simp add: split_beta)
  note keep = allocate_vm [OF a]
  have s1: "vm_wf s1" "present s1 (pd_index ?v)" "\<not> table_page s1 ?v"
    using Suc.prems(1) Suc.prems(4) [of k] keep by simp_all
  obtain pd pt where m: "map_page p ?v flag s1 = Ret (invlpg ?v (s1\<lparr>page_directory := pd, ptab := pt\<rparr>)) ()"
    and pr: "\<And>d. present (s1\<lparr>page_directory := pd, ptab := pt\<rparr>) d = present s1 d"
      "\<And>d. tframe (s1\<lparr>page_directory := pd, ptab := pt\<rparr>) d = tframe s1 d"
    using map_page_present [OF s1] by metis
  let ?s2 = "invlpg ?v (s1\<lparr>page_directory := pd, ptab := pt\<rparr>)"
  have "can_map s1 ?v" using s1 by (simp add: can_map_def)
  then obtain s'' where s'': "map_page p ?v flag s1 = Ret s'' ()" "vm_wf s''"
    "maps_only ?v (if flag AND 1 = 0 then None else Some (frame_of p)) s1 s''"
    by (rule map_page_ok [OF s1(1) _ Suc.prems(2)])
  moreover have "s'' = ?s2" using s''(1) unfolding m by (rule outcome.inject(1) [THEN iffD1, THEN conjunct1, symmetric])
  ultimately have s2: "vm_wf ?s2" "maps_only ?v (Some (frame_of p)) s1 ?s2"
    using Suc.prems(3) by simp_all
  have "page_directory ?s2 = page_directory (s1\<lparr>page_directory := pd, ptab := pt\<rparr>)"
    by (simp add: hw_ops)
  then have pr2: "present ?s2 d = present s d" "tframe ?s2 d = tframe s d" for d
    using pr [of d] keep(4,5) by (simp_all add: present_def tframe_def)
  have fs2: "fst (alloc_many (allocate 4096) n ?s2) = fs"
    using alloc_many_cong [of ?s2 s1] fs by (simp add: hw_ops)
  have "\<exists>s'. contig_loop n (Suc k) b flag ?s2 = Ret s' b \<and> vm_wf s' \<and>
    (\<forall>w. translate s' w =
       (if \<exists>j < n. page_of w = page_of (b + of_nat (Suc k + j) * 4096)
        then Some (frame_of (fst (alloc_many (allocate 4096) n ?s2) ! (unat (page_of w) - unat (page_of b) - Suc k)) OR (w AND 0xFFF))
        else translate ?s2 w))"
  proof (rule Suc.IH [OF s2(1) Suc.prems(2,3)])
    show "present ?s2 (pd_index (b + of_nat j * 4096)) \<and> \<not> table_page ?s2 (b + of_nat j * 4096)"
      if "Suc k \<le> j" "j < Suc k + n" for j
      using Suc.prems(4) [of j] that unfolding table_page_def pr2 by simp
  qed (use Suc.prems(5) len fs2 in simp_all)
  then obtain s' where s': "contig_loop n (Suc k) b flag ?s2 = Ret s' b" "vm_wf s'"
    and tr: "\<And>w. translate s' w =
       (if \<exists>j < n. page_of w = page_of (b + of_nat (Suc k + j) * 4096)
        then Some (frame_of (fs ! (unat (page_of w) - unat (page_of b) - Suc k)) OR (w AND 0xFFF))
        else translate ?s2 w)"
    unfolding fs2 by blast
  have idx: "page_of w = page_of (b + of_nat j * 4096) \<longleftrightarrow> unat (page_of w) = unat (page_of b) + j"
    if "j < k + Suc n" for w j
    using page_of_offset [of b j] that Suc.prems(5) by (auto simp: word_unat_eq_iff)
  have ex: "(\<exists>j < N. page_of w = page_of (b + of_nat (K + j) * 4096)) \<longleftrightarrow>
      unat (page_of b) + K \<le> unat (page_of w) \<and> unat (page_of w) < unat (page_of b) + K + N"
    if "K + N \<le> k + Suc n" for w N K
  proof
    define j where "j = unat (page_of w) - unat (page_of b) - K"
    assume "unat (page_of b) + K \<le> unat (page_of w) \<and> unat (page_of w) < unat (page_of b) + K + N"
    then have "j < N" "unat (page_of w) = unat (page_of b) + (K + j)" unfolding j_def by linarith+
    moreover have "K + j < k + Suc n" using \<open>j < N\<close> that by simp
    ultimately show "\<exists>j < N. page_of w = page_of (b + of_nat (K + j) * 4096)"
      using idx [of "K + j" w] by blast
  next
    assume "\<exists>j < N. page_of w = page_of (b + of_nat (K + j) * 4096)"
    then obtain j where j: "j < N" "page_of w = page_of (b + of_nat (K + j) * 4096)" by blast
    then have "unat (page_of w) = unat (page_of b) + (K + j)" using idx [of "K + j" w] that by simp
    with j(1) show "unat (page_of b) + K \<le> unat (page_of w) \<and> unat (page_of w) < unat (page_of b) + K + N"
      by simp
  qed
  have ex1: "(\<exists>j < n. page_of w = page_of (b + of_nat (Suc k + j) * 4096)) \<longleftrightarrow>
      unat (page_of b) + Suc k \<le> unat (page_of w) \<and> unat (page_of w) < unat (page_of b) + Suc k + n" for w
    by (rule ex) simp
  have ex2: "(\<exists>j < Suc n. page_of w = page_of (b + of_nat (k + j) * 4096)) \<longleftrightarrow>
      unat (page_of b) + k \<le> unat (page_of w) \<and> unat (page_of w) < unat (page_of b) + k + Suc n" for w
    by (rule ex) simp
  have "translate s' w =
       (if \<exists>j < Suc n. page_of w = page_of (b + of_nat (k + j) * 4096)
        then Some (frame_of ((p # fs) ! (unat (page_of w) - unat (page_of b) - k)) OR (w AND 0xFFF))
        else translate s w)" for w
  proof -
    consider "unat (page_of w) = unat (page_of b) + k"
      | "unat (page_of b) + Suc k \<le> unat (page_of w)" "unat (page_of w) < unat (page_of b) + Suc k + n"
      | "unat (page_of w) < unat (page_of b) + k \<or> unat (page_of b) + Suc k + n \<le> unat (page_of w)"
      by linarith
    then show ?thesis
    proof cases
      case 1
      then have "page_of w = page_of ?v" using idx [of k w] by simp
      with 1 show ?thesis using s2(2) unfolding tr ex1 ex2
        by (simp add: maps_only_def)
    next
      case 2
      then have "(p # fs) ! (unat (page_of w) - unat (page_of b) - k) = fs ! (unat (page_of w) - unat (page_of b) - Suc k)"
        by (simp add: nth_Cons')
      with 2 show ?thesis unfolding tr ex1 ex2 by simp
    next
      case 3
      then have "page_of w \<noteq> page_of ?v" using idx [of k w] by auto
      with 3 show ?thesis using s2(2) keep(3) unfolding tr ex1 ex2
        by (auto simp: maps_only_def)
    qed
  qed
  moreover have "contig_loop (Suc n) k b flag s = Ret s' b" using a p0 m s'(1) by simp
  ultimately show ?case using s'(2) unfolding all by blast
qed


lemma allocate_pages_contig_ok:
  assumes "vm_wf s" "flag AND NOT (mask 12) = 0" "flag = 0 \<or> flag AND 1 \<noteq> 0"
    and b: "b = next_virtual s" "unat b + 4096 * n \<le> 2 ^ 32"
    and dirs: "\<And>k. k < n \<Longrightarrow> present s (pd_index (b + of_nat k * 4096)) \<and> \<not> table_page s (b + of_nat k * 4096)"
    and fs: "fst (alloc_many (allocate 4096) n s) = fs" "length fs = n"
  shows "\<exists>s'. allocate_pages_contig (int n) flag s = Ret s' b \<and> vm_wf s' \<and>
    (\<forall>w. translate s' w =
       (if \<exists>k < n. page_of w = page_of (b + of_nat k * 4096)
        then Some (frame_of (fs ! (unat (page_of w) - unat (page_of b))) OR (w AND 0xFFF))
        else translate s w))"
proof -
  let ?s = "s\<lparr>next_virtual := b + word_of_int (int n * 4096)\<rparr>"
  have "page_directory ?s = page_directory s" "ptab ?s = ptab s" "paging_on ?s = paging_on s" by simp_all
  note c = vm_cong [OF this]
  have fs': "fst (alloc_many (allocate 4096) n ?s) = fs"
    using alloc_many_cong [of ?s s] fs(1) by simp
  have "\<exists>s'. contig_loop n 0 b (default_flags flag) ?s = Ret s' b \<and> vm_wf s' \<and>
    (\<forall>w. translate s' w =
       (if \<exists>j < n. page_of w = page_of (b + of_nat (0 + j) * 4096)
        then Some (frame_of (fst (alloc_many (allocate 4096) n ?s) ! (unat (page_of w) - unat (page_of b) - 0)) OR (w AND 0xFFF))
        else translate ?s w))"
  proof (rule contig_loop_ok)
    show "default_flags flag AND 1 \<noteq> 0" using assms(3) by (auto simp: default_flags_def page_flags)
    show "present ?s (pd_index (b + of_nat j * 4096)) \<and> \<not> table_page ?s (b + of_nat j * 4096)"
      if "0 \<le> j" "j < 0 + n" for j using dirs [of j] that unfolding c by simp
  next
    show "vm_wf ?s" using assms(1) unfolding c .
  qed (use b fs fs' default_flags_low [OF assms(2)] in simp_all)
  moreover have "allocate_pages_contig (int n) flag s = contig_loop n 0 b (default_flags flag) ?s"
    by (simp add: allocate_pages_contig_def b(1) Let_def)
  ultimately show ?thesis unfolding fs' c(1) add_0 diff_zero by simp
qed

section \<open>Filling and copying memory\<close>

definition phys :: "'a paging_scheme \<Rightarrow> u32 \<Rightarrow> u32" where
  "phys s v = the (translate s v)"

lemma translate_ram [simp]: "translate (s\<lparr>ram := m\<rparr>) v = translate s v"
  by (simp add: translate_def pte_addr_def)

lemma phys_ram [simp]: "phys (s\<lparr>ram := m\<rparr>) v = phys s v"
  by (simp add: phys_def)

lemma store8_mapped: "translate s v \<noteq> None \<Longrightarrow> store8 v x s = Ret (s\<lparr>ram := (ram s)(phys s v := x)\<rparr>) ()"
  by (auto simp: store8_def phys_def)

lemma load8_mapped: "translate s v \<noteq> None \<Longrightarrow> load8 v s = Ret s (ram s (phys s v))"
  by (auto simp: load8_def phys_def)

lemma memset_loop_ok:
  assumes "\<And>k. k < n \<Longrightarrow> translate s (p + of_nat k) \<noteq> None"
  shows "memset_loop n p x s =
    Ret (s\<lparr>ram := (\<lambda>q. if \<exists>k < n. q = phys s (p + of_nat k) then x else ram s q)\<rparr>) ()"
  using assms
proof (induction n arbitrary: p s)
  case 0
  then show ?case by simp
next
  case (Suc n)
  let ?s = "s\<lparr>ram := (ram s)(phys s p := x)\<rparr>"
  have "translate s (p + 1 + of_nat k) \<noteq> None" if "k < n" for k
    using Suc.prems [of "Suc k"] that by (simp add: ac_simps)
  then have "memset_loop n (p + 1) x ?s =
      Ret (?s\<lparr>ram := (\<lambda>q. if \<exists>k < n. q = phys ?s (p + 1 + of_nat k) then x else ram ?s q)\<rparr>) ()"
    by (intro Suc.IH) simp
  moreover have "(\<lambda>q. if \<exists>k < n. q = phys ?s (p + 1 + of_nat k) then x else ram ?s q) =
      (\<lambda>q. if \<exists>k < Suc n. q = phys s (p + of_nat k) then x else ram s q)"
    by (auto simp: fun_eq_iff less_Suc_eq_0_disj add.assoc)
  ultimately show ?case using Suc.prems [of 0] by (simp add: store8_mapped)
qed

lemma memset_fault:
  assumes "translate s p = None" "n \<noteq> 0"
  shows "memset p x n s = Stop s (Page_fault p)"
proof -
  obtain k where "unat n = Suc k" using assms(2) by (metis unat_eq_0 not0_implies_Suc)
  with assms(1) show ?thesis by (simp add: memset_def store8_def)
qed

lemma memcpy_loop_ok:
  assumes "\<And>k. i \<le> k \<Longrightarrow> k < i + n \<Longrightarrow> translate s (src + of_nat k) \<noteq> None \<and> translate s (d + of_nat k) \<noteq> None"
    and "\<And>k l. i \<le> k \<Longrightarrow> k < l \<Longrightarrow> l < i + n \<Longrightarrow> phys s (src + of_nat l) \<noteq> phys s (d + of_nat k)"
    and "\<And>k l. i \<le> k \<Longrightarrow> k < l \<Longrightarrow> l < i + n \<Longrightarrow> phys s (d + of_nat l) \<noteq> phys s (d + of_nat k)"
  shows "\<exists>m. memcpy_loop n (of_nat i) d src s = Ret (s\<lparr>ram := m\<rparr>) () \<and>
    (\<forall>k. i \<le> k \<and> k < i + n \<longrightarrow> m (phys s (d + of_nat k)) = ram s (phys s (src + of_nat k))) \<and>
    (\<forall>q. (\<forall>k. i \<le> k \<and> k < i + n \<longrightarrow> q \<noteq> phys s (d + of_nat k)) \<longrightarrow> m q = ram s q)"
  using assms
proof (induction n arbitrary: i s)
  case 0
  show ?case by (rule exI [of _ "ram s"]) auto
next
  case (Suc n)
  let ?x = "ram s (phys s (src + of_nat i))"
  let ?s = "s\<lparr>ram := (ram s)(phys s (d + of_nat i) := ?x)\<rparr>"
  have "\<exists>m. memcpy_loop n (of_nat (Suc i)) d src ?s = Ret (?s\<lparr>ram := m\<rparr>) () \<and>
    (\<forall>k. Suc i \<le> k \<and> k < Suc i + n \<longrightarrow> m (phys ?s (d + of_nat k)) = ram ?s (phys ?s (src + of_nat k))) \<and>
    (\<forall>q. (\<forall>k. Suc i \<le> k \<and> k < Suc i + n \<longrightarrow> q \<noteq> phys ?s (d + of_nat k)) \<longrightarrow> m q = ram ?s q)"
    by (rule Suc.IH) (use Suc.prems in simp_all)
  then obtain m where m: "memcpy_loop n (of_nat (Suc i)) d src ?s = Ret (?s\<lparr>ram := m\<rparr>) ()"
    "\<And>k. Suc i \<le> k \<Longrightarrow> k < Suc i + n \<Longrightarrow> m (phys s (d + of_nat k)) = ram ?s (phys s (src + of_nat k))"
    "\<And>q. (\<forall>k. Suc i \<le> k \<and> k < Suc i + n \<longrightarrow> q \<noteq> phys s (d + of_nat k)) \<Longrightarrow> m q = ram ?s q"
    by auto
  have "memcpy_loop (Suc n) (of_nat i) d src s = Ret (s\<lparr>ram := m\<rparr>) ()"
    using m(1) Suc.prems(1) [of i] by (simp add: load8_mapped store8_mapped ac_simps)
  moreover have "m (phys s (d + of_nat k)) = ram s (phys s (src + of_nat k))" if "i \<le> k" "k < i + Suc n" for k
  proof (cases "k = i")
    case True
    have "m (phys s (d + of_nat i)) = ram ?s (phys s (d + of_nat i))"
    proof (intro m(3) allI impI)
      fix l assume "Suc i \<le> l \<and> l < Suc i + n"
      then show "phys s (d + of_nat i) \<noteq> phys s (d + of_nat l)" using Suc.prems(3) [of i l] by simp
    qed
    with True show ?thesis by simp
  next
    case False
    then show ?thesis using m(2) [of k] Suc.prems(2) [of i k] that by simp
  qed
  moreover have "m q = ram s q" if "\<forall>k. i \<le> k \<and> k < i + Suc n \<longrightarrow> q \<noteq> phys s (d + of_nat k)" for q
    using that m(3) [of q] by simp
  ultimately show ?case by blast
qed

section \<open>The stack of free virtual pages\<close>

lemma take_virtual_pushed:
  "free_count s < 1024 \<Longrightarrow> push_virtual v s = Ret s' () \<Longrightarrow>
   take_virtual s' = (v, s\<lparr>free_virtual := (free_virtual s)(free_count s := v)\<rparr>)"
proof -
  assume n: "free_count s < 1024" and p: "push_virtual v s = Ret s' ()"
  then have s': "s' = s\<lparr>free_virtual := (free_virtual s)(free_count s := v), free_count := free_count s + 1\<rparr>"
    by (auto simp: push_virtual_def not_le [symmetric] split: if_splits)
  have "free_count s + 1 \<noteq> 0" using n unfolding word_less_nat_alt by (auto simp: unat_eq_0 [symmetric] unat_word_ariths)
  then show ?thesis unfolding s' by (simp add: take_virtual_def word_gt_0)
qed

section \<open>What any routine of this layer can change\<close>

definition vm_step :: "'a paging_scheme \<Rightarrow> 'a paging_scheme \<Rightarrow> bool" where
  "vm_step s s' \<longleftrightarrow> (\<exists>t v i j e m pd pt nv fv fc. s' = s\<lparr>hw_trace := t, vram := v, scr_i := i,
     scr_j := j, mm_entry := e, mm_map := m, page_directory := pd, ptab := pt,
     next_virtual := nv, free_virtual := fv, free_count := fc\<rparr>)"

lemma paging_vm: "paging_step s s' \<Longrightarrow> vm_step s s'"
proof -
  assume "paging_step s s'"
  then obtain t v i j e m pd pt where s': "s' = s\<lparr>hw_trace := t, vram := v, scr_i := i, scr_j := j,
     mm_entry := e, mm_map := m, page_directory := pd, ptab := pt\<rparr>" unfolding paging_step_def by blast
  show ?thesis unfolding vm_step_def s'
    by (rule exI [of _ t], rule exI [of _ v], rule exI [of _ i], rule exI [of _ j], rule exI [of _ e],
        rule exI [of _ m], rule exI [of _ pd], rule exI [of _ pt],
        rule exI [of _ "next_virtual s"], rule exI [of _ "free_virtual s"], rule exI [of _ "free_count s"]) simp
qed

lemma vm_step_trans: "vm_step s s' \<Longrightarrow> vm_step s' s'' \<Longrightarrow> vm_step s s''"
  unfolding vm_step_def by (elim exE) (simp, blast)

interpretation vm_frame: effect_frame vm_step
  by unfold_locales (rule paging_vm, rule paging_step_refl, rule vm_step_trans)

lemma vm_updates:
  "vm_step s (s\<lparr>next_virtual := nv\<rparr>)" "vm_step s (s\<lparr>free_count := fc\<rparr>)"
  "vm_step s (s\<lparr>free_virtual := fv, free_count := fc\<rparr>)"
proof -
  have *: "vm_step s (s\<lparr>next_virtual := nv, free_virtual := fv, free_count := fc\<rparr>)" for nv fv fc
    unfolding vm_step_def
    by (rule exI [of _ "hw_trace s"], rule exI [of _ "vram s"], rule exI [of _ "scr_i s"], rule exI [of _ "scr_j s"],
        rule exI [of _ "mm_entry s"], rule exI [of _ "mm_map s"], rule exI [of _ "page_directory s"],
        rule exI [of _ "ptab s"], rule exI [of _ nv], rule exI [of _ fv], rule exI [of _ fc]) simp
  show "vm_step s (s\<lparr>next_virtual := nv\<rparr>)"
    using * [where nv = nv and fv = "free_virtual s" and fc = "free_count s"] by simp
  show "vm_step s (s\<lparr>free_count := fc\<rparr>)"
    using * [where nv = "next_virtual s" and fv = "free_virtual s" and fc = fc] by simp
  show "vm_step s (s\<lparr>free_virtual := fv, free_count := fc\<rparr>)"
    using * [where nv = "next_virtual s" and fv = fv and fc = fc] by simp
qed

lemmas vm_frames = kprint_paging [THEN paging_vm] free_paging [THEN paging_vm] ptab_paging [THEN paging_vm]
  invlpg_paging [THEN paging_vm] pte_paging(1) [THEN paging_vm] pte_paging(2) vm_updates vm_frame.refl map_page_paging [THEN paging_vm]

lemma take_virtual_vm_step: "take_virtual s = (v, s') \<Longrightarrow> vm_step s s'"
  by (auto simp: take_virtual_def Let_def vm_updates split: if_splits)

lemma allocate_vm_step: "allocate n s = (a, s') \<Longrightarrow> vm_step s s'"
  by (rule paging_vm) (rule allocate_paging)

lemma allocate_page_vm: "vm_step s (out_state (allocate_page f s))"
proof -
  obtain p s1 where a: "allocate 4096 s = (p, s1)" by fastforce
  obtain v s2 where v: "take_virtual s1 = (v, s2)" by fastforce
  have "vm_step s2 (out_state (bind_out (map_page p v (default_flags f) s2) (\<lambda>s _. Ret s v)))"
    by (rule vm_frame.frame_bind) (simp_all add: vm_frames)
  then have "vm_step s1 (out_state (if p = 0 then Ret s1 0 else
      bind_out (map_page p v (default_flags f) s2) (\<lambda>s _. Ret s v)))"
    using vm_frame.trans [OF take_virtual_vm_step [OF v]] by (simp add: vm_frame.refl)
  then have "vm_step s (out_state (if p = 0 then Ret s1 0 else
      bind_out (map_page p v (default_flags f) s2) (\<lambda>s _. Ret s v)))"
    by (rule vm_frame.trans [OF allocate_vm_step [OF a]])
  then show ?thesis by (cases "p = 0") (simp_all add: allocate_page_def a v)
qed

lemma contig_loop_vm: "vm_step s (out_state (contig_loop n k b f s))"
proof (induction n arbitrary: k s)
  case (Suc n)
  obtain p s1 where a: "allocate 4096 s = (p, s1)" by fastforce
  have "vm_step s1 (out_state (bind_out (map_page p (b + of_nat k * 4096) f s1) (\<lambda>s _. contig_loop n (Suc k) b f s)))"
    by (rule vm_frame.frame_bind) (simp_all add: vm_frames Suc.IH)
  then show ?case using vm_frame.trans [OF allocate_vm_step [OF a]] allocate_vm_step [OF a] by (simp add: a)
qed (simp add: vm_frame.refl)

lemma allocate_pages_contig_vm: "vm_step s (out_state (allocate_pages_contig n f s))"
  unfolding allocate_pages_contig_def Let_def
  by (rule vm_frame.trans [OF _ contig_loop_vm]) (rule vm_updates)

lemma free_page_vm: "vm_step s (out_state (free_page v s))"
  unfolding free_page_def
proof (rule vm_frame.frame_bind)
  show "vm_step s (out_state (push_virtual v s))" by (simp add: push_virtual_def vm_frames)
  fix s1
  have "vm_step s1 (out_state (bind_out (load_pte (get_pte v s1) s1) (\<lambda>s e.
      if e AND 1 = 0 then Ret s () else store_pte (get_pte v s1) 0 (free (frame_of e) s))))"
  proof (rule vm_frame.frame_bind)
    fix s2 e
    have "vm_step s2 (out_state (store_pte (get_pte v s1) 0 (free (frame_of e) s2)))"
      by (rule vm_frame.trans [of _ "free (frame_of e) s2"]) (simp_all add: vm_frames)
    then show "vm_step s2 (out_state (if e AND 1 = 0 then Ret s2 () else
        store_pte (get_pte v s1) 0 (free (frame_of e) s2)))" by (simp add: vm_frame.refl)
  qed (simp add: vm_frames)
  then show "vm_step s1 (out_state (let pte = get_pte v s1 in if pte = 0 then Ret s1 () else
      bind_out (load_pte pte s1) (\<lambda>s e. if e AND 1 = 0 then Ret s () else store_pte pte 0 (free (frame_of e) s))))"
    by (simp add: Let_def vm_frame.refl)
qed

lemma unmap_page_vm: "vm_step s (out_state (unmap_page v s))"
proof -
  have "vm_step s (out_state (bind_out (load_pte (get_pte v s) s) (\<lambda>s' e.
      if e AND 1 = 0 then Ret s' () else bind_out (store_pte (get_pte v s) 0 s') (\<lambda>s _. Ret (invlpg v s) ()))))"
  proof (rule vm_frame.frame_bind)
    fix s1 e
    have "vm_step s1 (out_state (bind_out (store_pte (get_pte v s) 0 s1) (\<lambda>s _. Ret (invlpg v s) ())))"
      by (rule vm_frame.frame_bind) (simp_all add: vm_frames)
    then show "vm_step s1 (out_state (if e AND 1 = 0 then Ret s1 () else
      bind_out (store_pte (get_pte v s) 0 s1) (\<lambda>s _. Ret (invlpg v s) ())))" by (simp add: vm_frame.refl)
  qed (simp add: vm_frames)
  then show ?thesis by (simp add: unmap_page_def Let_def vm_frame.refl)
qed

lemmas vm_routines = allocate_page_vm allocate_pages_contig_vm free_page_vm unmap_page_vm

end
