(* ===== verification/KHeap.thy ===== *)
theory KHeap
  imports Paging
begin

text \<open>
  The kernel heap of kernel/pmm.c: \<open>kmalloc\<close>, \<open>kfree\<close> and \<open>inspect\<close> on the singly linked
  list of block headers. The packed \<open>Block\<close> headers are a store from addresses to
  records; every access to one goes through the page walk first and may fault. The lemmas
  show that the block handed out is a best fit, that live allocations never overlap, and
  what happens at a request larger than a fresh page can hold.
\<close>

section \<open>State\<close>

record block =
  bsize :: u32
  btype :: u8
  bnext :: u32

record heap = paging +
  blocks :: "u32 \<Rightarrow> block"
  heap_head :: u32
  current_block :: u32

text \<open>\<open>sizeof(Block)\<close> of the packed structure.\<close>

definition BLOCK_SIZE :: u32 where "BLOCK_SIZE = 9"

abbreviation next_block :: "'a heap_scheme \<Rightarrow> u32 \<Rightarrow> u32" where
  "next_block s b \<equiv> bnext (blocks s b)"

text \<open>A dereference of a kernel pointer: it faults when the page is not mapped.\<close>

definition touch :: "u32 \<Rightarrow> 'a paging_scheme \<Rightarrow> ('a paging_scheme, unit) outcome" where
  "touch p s = (if translate s p = None then Stop s (Page_fault p) else Ret s ())"

definition set_block :: "u32 \<Rightarrow> block \<Rightarrow> 'a heap_scheme \<Rightarrow> 'a heap_scheme" where
  "set_block b x s = s\<lparr>blocks := (blocks s)(b := x)\<rparr>"

section \<open>Operations of kernel/pmm.c\<close>

text \<open>A page from \<open>allocate_page\<close> becomes one free block; its address is not checked.\<close>

definition init_page_block :: "u32 \<Rightarrow> 'a heap_scheme \<Rightarrow> ('a heap_scheme, unit) outcome" where
  "init_page_block p s =
     bind_out (touch p s) (\<lambda>s _.
       Ret (set_block p \<lparr>bsize = 4096 - BLOCK_SIZE, btype = 1, bnext = 0\<rparr> s) ())"

definition first_page :: "u32 \<Rightarrow> 'a heap_scheme \<Rightarrow> ('a heap_scheme, unit) outcome" where
  "first_page flag s =
     bind_out (allocate_page flag s) (\<lambda>s p. init_page_block p (s\<lparr>heap_head := p, current_block := p\<rparr>))"

definition another_page :: "u32 \<Rightarrow> 'a heap_scheme \<Rightarrow> ('a heap_scheme, u32) outcome" where
  "another_page flag s =
     bind_out (allocate_page flag s) (\<lambda>s new_page.
     bind_out (init_page_block new_page s) (\<lambda>s _.
     bind_out (touch (current_block s) s) (\<lambda>s _.
       let cur = current_block s;
           s = set_block cur ((blocks s cur)\<lparr>bnext := new_page\<rparr>) s
       in Ret (s\<lparr>current_block := new_page\<rparr>) new_page)))"

definition best_block_step :: "'a heap_scheme \<Rightarrow> u32 \<Rightarrow> u32 \<Rightarrow> u32 \<Rightarrow> u32" where
  "best_block_step s sz best cur =
     (if btype (blocks s cur) = 1 \<and> bsize (blocks s cur) \<ge> sz then
        if best = 0 \<or> bsize (blocks s best) > bsize (blocks s cur) then cur else best
      else best)"

partial_function (option) best_block_loop ::
  "'a heap_scheme \<Rightarrow> u32 \<Rightarrow> u32 \<Rightarrow> u32 \<Rightarrow> ('a heap_scheme, u32) outcome option" where
  "best_block_loop s sz best cur =
     (if cur = 0 then Some (Ret s best)
      else if translate s cur = None then Some (Stop s (Page_fault cur))
      else best_block_loop s sz (best_block_step s sz best cur) (next_block s cur))"

text \<open>The tail of \<open>kmalloc\<close>: split the block when a header fits behind the request.\<close>

definition carve :: "u32 \<Rightarrow> u32 \<Rightarrow> 'a heap_scheme \<Rightarrow> ('a heap_scheme, u32) outcome" where
  "carve best sz s =
     (if bsize (blocks s best) \<ge> sz + BLOCK_SIZE then
        let new_block = best + BLOCK_SIZE + sz
        in bind_out (touch new_block s) (\<lambda>s _.
          let s = set_block new_block \<lparr>bsize = bsize (blocks s best) - sz - BLOCK_SIZE, btype = 1,
                                       bnext = next_block s best\<rparr> s;
              s = set_block best \<lparr>bsize = sz, btype = 2, bnext = new_block\<rparr> s
          in Ret s (best + BLOCK_SIZE))
      else Ret (set_block best ((blocks s best)\<lparr>btype := 2\<rparr>) s) (best + BLOCK_SIZE))"

definition kmalloc :: "u32 \<Rightarrow> u32 \<Rightarrow> 'a heap_scheme \<Rightarrow> ('a heap_scheme, u32) outcome" where
  "kmalloc sz flag s =
     (let flag = default_flags flag
      in if sz > 4096 \<or> sz = 0 then Ret s 0
         else
           bind_out (if heap_head s = 0 then first_page flag s else Ret s ()) (\<lambda>s _.
           bind_out (run_loop s (best_block_loop s sz 0 (heap_head s))) (\<lambda>s best_block.
           bind_out (if best_block = 0 then another_page flag s else Ret s best_block) (\<lambda>s best_block.
             carve best_block sz s))))"

definition kfree_hit :: "u32 \<Rightarrow> 'a heap_scheme \<Rightarrow> u32 \<Rightarrow> ('a heap_scheme, unit) outcome option" where
  "kfree_hit addr s p =
     (if p = 0 then Some (Ret s ())
      else if translate s p = None then Some (Stop s (Page_fault p))
      else if p + BLOCK_SIZE = addr then Some (Ret (set_block p ((blocks s p)\<lparr>btype := 1\<rparr>) s) ())
      else None)"

partial_function (option) kfree_loop ::
  "u32 \<Rightarrow> 'a heap_scheme \<Rightarrow> u32 \<Rightarrow> ('a heap_scheme, unit) outcome option" where
  "kfree_loop addr s p =
     (case kfree_hit addr s p of Some r \<Rightarrow> Some r | None \<Rightarrow> kfree_loop addr s (next_block s p))"

definition kfree :: "u32 \<Rightarrow> 'a heap_scheme \<Rightarrow> ('a heap_scheme, unit) outcome" where
  "kfree addr s = run_loop s (kfree_loop addr s (heap_head s))"

definition inspect_block :: "u32 \<Rightarrow> 'a heap_scheme \<Rightarrow> ('a heap_scheme, unit) outcome" where
  "inspect_block cur s =
     (let s = kprint ([10] @ str_bytes ''Block: '') s;
          s = kprint_hex cur s;
          s = kprint (str_bytes '' size='') s
      in bind_out (touch cur s) (\<lambda>s _.
           let s = kprint_number (bsize (blocks s cur)) s;
               s = kprint (str_bytes '' type='') s
           in Ret (kprint_number (ucast (btype (blocks s cur))) s) ()))"

partial_function (option) inspect_loop ::
  "'a heap_scheme \<Rightarrow> u32 \<Rightarrow> ('a heap_scheme, unit) outcome option" where
  "inspect_loop s cur =
     (if cur = 0 then Some (Ret s ()) else
        (case inspect_block cur s of
           Ret s u \<Rightarrow> inspect_loop s (next_block s cur)
         | Stop s r \<Rightarrow> Some (Stop s r)))"

definition inspect :: "'a heap_scheme \<Rightarrow> ('a heap_scheme, unit) outcome" where
  "inspect s = run_loop s (inspect_loop s (heap_head s))"

definition boot_heap :: heap where
  "boot_heap = paging.extend boot_paging (heap.fields (\<lambda>_. \<lparr>bsize = 0, btype = 0, bnext = 0\<rparr>) 0 0)"

section \<open>Walking the list\<close>

interpretation kfree_search: pointer_search "kfree_loop addr" next_block "kfree_hit addr" for addr
  by unfold_locales (rule kfree_loop.simps)

lemma best_block_loop_chain:
  "chain (next_block s) cur bs \<Longrightarrow> \<forall>b \<in> set bs. translate s b \<noteq> None \<Longrightarrow>
   best_block_loop s sz best cur = Some (Ret s (fold (\<lambda>b best. best_block_step s sz best b) bs best))"
proof (induction bs arbitrary: cur best)
  case Nil
  then show ?case by (subst best_block_loop.simps) simp
next
  case (Cons b bs)
  then show ?case by (subst best_block_loop.simps) simp
qed

definition fitting :: "'a heap_scheme \<Rightarrow> u32 \<Rightarrow> u32 \<Rightarrow> bool" where
  "fitting s sz b \<longleftrightarrow> btype (blocks s b) = 1 \<and> sz \<le> bsize (blocks s b)"

definition best_block :: "'a heap_scheme \<Rightarrow> u32 \<Rightarrow> u32 list \<Rightarrow> u32" where
  "best_block s sz bs = fold (\<lambda>b best. best_block_step s sz best b) bs 0"

text \<open>The search returns null exactly when no block fits, and otherwise a fitting block of
  least size.\<close>

lemma best_block_spec:
  assumes "0 \<notin> set bs"
  shows "(best_block s sz bs = 0 \<longleftrightarrow> (\<forall>b \<in> set bs. \<not> fitting s sz b)) \<and>
    (best_block s sz bs \<noteq> 0 \<longrightarrow> best_block s sz bs \<in> set bs \<and> fitting s sz (best_block s sz bs) \<and>
      (\<forall>b \<in> set bs. fitting s sz b \<longrightarrow> bsize (blocks s (best_block s sz bs)) \<le> bsize (blocks s b)))"
  using assms
proof (induction bs rule: rev_induct)
  case Nil
  then show ?case by (simp add: best_block_def)
next
  case (snoc b bs)
  define r where "r = best_block s sz bs"
  have IH: "(r = 0 \<longleftrightarrow> (\<forall>b \<in> set bs. \<not> fitting s sz b)) \<and> (r \<noteq> 0 \<longrightarrow> r \<in> set bs \<and> fitting s sz r \<and>
      (\<forall>b \<in> set bs. fitting s sz b \<longrightarrow> bsize (blocks s r) \<le> bsize (blocks s b)))"
    unfolding r_def by (rule snoc.IH) (use snoc.prems in simp)
  have e: "best_block s sz (bs @ [b]) = best_block_step s sz r b"
    by (simp add: best_block_def r_def)
  have b0: "b \<noteq> 0" using snoc.prems by simp
  consider "\<not> fitting s sz b" | "fitting s sz b" "r = 0 \<or> bsize (blocks s b) < bsize (blocks s r)"
    | "fitting s sz b" "r \<noteq> 0" "bsize (blocks s r) \<le> bsize (blocks s b)"
    by (meson not_le)
  then show ?case
  proof cases
    case 1
    then have "best_block_step s sz r b = r" by (auto simp: best_block_step_def fitting_def)
    then show ?thesis unfolding e using IH 1 by auto
  next
    case 2
    then have "best_block_step s sz r b = b" by (simp add: best_block_step_def fitting_def)
    moreover have "\<forall>c \<in> set bs. fitting s sz c \<longrightarrow> bsize (blocks s b) \<le> bsize (blocks s c)"
      using IH 2(2) by (metis (full_types) less_imp_le order.trans)
    ultimately show ?thesis unfolding e using 2(1) b0 by auto
  next
    case 3
    then have "best_block_step s sz r b = r" by (auto simp: best_block_step_def fitting_def not_less)
    then show ?thesis unfolding e using IH 3 by auto
  qed
qed

section \<open>Live allocations\<close>

definition block_size :: "'a heap_scheme \<Rightarrow> u32 \<Rightarrow> nat" where
  "block_size s b = unat (bsize (blocks s b))"

definition span :: "'a heap_scheme \<Rightarrow> u32 \<Rightarrow> nat set" where
  "span s b = {unat b..<unat b + 9 + block_size s b}"

definition region :: "u32 \<times> u32 \<Rightarrow> nat set" where
  "region x = {unat (fst x)..<unat (fst x) + unat (snd x)}"

definition page_bytes :: "u32 \<Rightarrow> nat set" where
  "page_bytes p = {4096 * unat p..<4096 * unat p + 4096}"

definition block_fits :: "'a heap_scheme \<Rightarrow> u32 \<Rightarrow> bool" where
  "block_fits s b \<longleftrightarrow> unat b mod 4096 + 9 + block_size s b \<le> 4096"

definition apart_spans :: "'a heap_scheme \<Rightarrow> u32 set \<Rightarrow> bool" where
  "apart_spans s B \<longleftrightarrow> (\<forall>b \<in> B. \<forall>c \<in> B. b \<noteq> c \<longrightarrow> span s b \<inter> span s c = {})"

definition owns :: "'a heap_scheme \<Rightarrow> u32 \<Rightarrow> u32 \<times> u32 \<Rightarrow> bool" where
  "owns s b x \<longleftrightarrow> fst x = b + BLOCK_SIZE \<and> btype (blocks s b) \<noteq> 1 \<and> unat (snd x) \<le> block_size s b"

text \<open>
  \<open>P\<close> are the pages the heap has taken, \<open>L\<close> the allocations its clients hold (address and
  size), \<open>bs\<close> the block list. A live allocation meets a listed block only as that block's
  own payload.
\<close>

definition heap_ok :: "u32 set \<Rightarrow> (u32 \<times> u32) set \<Rightarrow> 'a heap_scheme \<Rightarrow> u32 list \<Rightarrow> bool" where
  "heap_ok P L s bs \<longleftrightarrow>
     chain (next_block s) (heap_head s) bs \<and> (bs \<noteq> [] \<longrightarrow> current_block s \<in> set bs) \<and>
     (\<forall>b \<in> set bs. block_fits s b \<and> page_of b \<in> P \<and> translate s b \<noteq> None) \<and>
     apart_spans s (set bs) \<and>
     (\<forall>x \<in> L. \<forall>b \<in> set bs. region x \<inter> span s b = {} \<or> owns s b x) \<and>
     (\<forall>x \<in> L. \<exists>p \<in> P. region x \<subseteq> page_bytes p) \<and>
     (\<forall>x \<in> L. \<forall>y \<in> L. x \<noteq> y \<longrightarrow> region x \<inter> region y = {})"

lemma heap_okD:
  assumes "heap_ok P L s bs"
  shows "chain (next_block s) (heap_head s) bs" "bs \<noteq> [] \<Longrightarrow> current_block s \<in> set bs"
    "b \<in> set bs \<Longrightarrow> block_fits s b" "b \<in> set bs \<Longrightarrow> page_of b \<in> P" "b \<in> set bs \<Longrightarrow> translate s b \<noteq> None"
    "b \<in> set bs \<Longrightarrow> c \<in> set bs \<Longrightarrow> b \<noteq> c \<Longrightarrow> span s b \<inter> span s c = {}"
    "x \<in> L \<Longrightarrow> b \<in> set bs \<Longrightarrow> region x \<inter> span s b = {} \<or> owns s b x"
    "x \<in> L \<Longrightarrow> \<exists>p \<in> P. region x \<subseteq> page_bytes p"
    "x \<in> L \<Longrightarrow> y \<in> L \<Longrightarrow> x \<noteq> y \<Longrightarrow> region x \<inter> region y = {}"
  using assms by (simp_all add: heap_ok_def apart_spans_def)

lemma page_of_unat: "unat (page_of v) = unat v div 4096"
  unfolding page_of_def unat_drop_bit_eq by (simp add: drop_bit_eq_div)

lemma in_page_add:
  assumes "unat (b :: u32) mod 4096 + unat k < 4096"
  shows "unat (b + k) = unat b + unat k" "page_of (b + k) = page_of b"
    "unat (b + k) mod 4096 = unat b mod 4096 + unat k"
proof -
  have d: "unat b = 4096 * (unat b div 4096) + unat b mod 4096" by simp
  have "unat b div 4096 < 1048576" using unat_u32 [of b] by simp
  then have "4096 * (unat b div 4096) + unat b mod 4096 + unat k < 4294967296" using assms by linarith
  then have "unat b + unat k < 2 ^ 32" unfolding d [symmetric] by simp
  then show s: "unat (b + k) = unat b + unat k" by (intro unat_add_lem [THEN iffD1]) simp
  have e: "unat b + unat k = 4096 * (unat b div 4096) + (unat b mod 4096 + unat k)" by simp
  show "unat (b + k) mod 4096 = unat b mod 4096 + unat k"
    unfolding s by (subst e, subst mod_mult_self4) (use assms in simp)
  have "(unat b + unat k) div 4096 = unat b div 4096"
    by (subst e, subst div_mult_self4) (use assms in simp_all)
  then show "page_of (b + k) = page_of b" by (simp add: word_unat_eq_iff page_of_unat s)
qed

lemma block_payload:
  assumes "block_fits s b" "0 < block_size s b"
  shows "unat (b + BLOCK_SIZE) = unat b + 9"
  using assms in_page_add(1) [of b BLOCK_SIZE] by (simp add: block_fits_def BLOCK_SIZE_def)

lemma span_page: "block_fits s b \<Longrightarrow> span s b \<subseteq> page_bytes (page_of b)"
proof
  fix x assume f: "block_fits s b" and x: "x \<in> span s b"
  have d: "unat b = 4096 * (unat b div 4096) + unat b mod 4096" by simp
  from f x d show "x \<in> page_bytes (page_of b)"
    unfolding block_fits_def span_def page_bytes_def page_of_unat atLeastLessThan_iff by linarith
qed

lemma page_bytes_disjoint: "p \<noteq> q \<Longrightarrow> page_bytes p \<inter> page_bytes q = {}"
proof -
  assume "p \<noteq> q"
  then have "unat p \<noteq> unat q" by (simp add: word_unat_eq_iff)
  then show ?thesis by (auto simp: page_bytes_def)
qed

text \<open>The client holds block \<open>a - 9\<close> of the list.\<close>

definition holds :: "'a heap_scheme \<Rightarrow> u32 list \<Rightarrow> u32 \<Rightarrow> u32 \<Rightarrow> bool" where
  "holds s bs a sz \<longleftrightarrow> a - BLOCK_SIZE \<in> set bs \<and> owns s (a - BLOCK_SIZE) (a, sz)"

text \<open>Replacing one free block by pieces of it, one of which is handed out.\<close>

lemma heap_ok_replace:
  assumes ok: "heap_ok P L s bs" and b: "b \<in> set bs" "btype (blocks s b) = 1"
    and ch: "chain (next_block s') (heap_head s') bs'" and cur: "current_block s' \<in> set bs'"
    and tr: "\<And>w. translate s' w = translate s w"
    and old: "\<And>c. c \<in> set bs \<Longrightarrow> c \<noteq> b \<Longrightarrow> block_size s' c = block_size s c \<and> btype (blocks s' c) = btype (blocks s c)"
    and set: "set bs' = (set bs - {b}) \<union> N"
    and new: "\<And>c. c \<in> N \<Longrightarrow> block_fits s' c \<and> page_of c = page_of b \<and> span s' c \<subseteq> span s b"
    and apart: "apart_spans s' N"
    and x: "region x \<subseteq> span s b" "\<And>c. c \<in> N \<Longrightarrow> region x \<inter> span s' c = {} \<or> owns s' c x"
  shows "heap_ok P (insert x L) s' bs' \<and> (\<forall>y \<in> L. region x \<inter> region y = {})"
proof -
  have L: "region y \<inter> span s b = {}" if "y \<in> L" for y
    using ok b that unfolding heap_ok_def owns_def by blast
  with x(1) have xy: "\<forall>y \<in> L. region x \<inter> region y = {}" by blast
  have keep: "span s' c = span s c" "owns s' c y = owns s c y" "block_fits s' c = block_fits s c"
    if "c \<in> set bs" "c \<noteq> b" for c y
    using old [OF that] by (simp_all add: span_def owns_def block_fits_def)
  have pb: "page_of b \<in> P" "block_fits s b" "translate s b \<noteq> None" using ok b(1) by (auto simp: heap_ok_def)
  have blk: "block_fits s' c \<and> page_of c \<in> P \<and> translate s' c \<noteq> None" if "c \<in> set bs'" for c
  proof (cases "c \<in> N")
    case True
    then have "page_of c = page_of b" using new by blast
    then have "translate s' c \<noteq> None" unfolding tr using pb(3) translate_page_none [of c b s] by simp
    then show ?thesis using new [OF True] pb(1) by simp
  next
    case False
    then have "c \<in> set bs" "c \<noteq> b" using that set by blast+
    then show ?thesis using ok keep(3) unfolding tr by (simp add: heap_ok_def)
  qed
  have ob: "span s c \<inter> span s b = {}" if "c \<in> set bs" "c \<noteq> b" for c
    using ok b(1) that unfolding heap_ok_def apart_spans_def by blast
  have sp: "span s' c \<inter> span s' d = {}" if "c \<in> set bs'" "d \<in> set bs'" "c \<noteq> d" for c d
  proof (cases "c \<in> N"; cases "d \<in> N")
    assume "c \<in> N" "d \<in> N"
    then show ?thesis using apart that(3) unfolding apart_spans_def by blast
  next
    assume "c \<in> N" "d \<notin> N"
    then have "d \<in> set bs" "d \<noteq> b" "span s' c \<subseteq> span s b" using that set new by blast+
    then show ?thesis using ob keep(1) by blast
  next
    assume "c \<notin> N" "d \<in> N"
    then have "c \<in> set bs" "c \<noteq> b" "span s' d \<subseteq> span s b" using that set new by blast+
    then show ?thesis using ob keep(1) by blast
  next
    assume "c \<notin> N" "d \<notin> N"
    then have cd: "c \<in> set bs" "c \<noteq> b" "d \<in> set bs" "d \<noteq> b" using that set by blast+
    then show ?thesis using ok that(3) keep(1) unfolding heap_ok_def apart_spans_def by simp
  qed
  have lv: "region y \<inter> span s' c = {} \<or> owns s' c y" if "y \<in> insert x L" "c \<in> set bs'" for y c
  proof (cases "c \<in> N")
    case True
    then show ?thesis using that(1) x(2) L new by (cases "y = x") blast+
  next
    case False
    then have c: "c \<in> set bs" "c \<noteq> b" using that set by blast+
    show ?thesis
    proof (cases "y = x")
      case True
      then show ?thesis using ob [OF c] keep(1) [OF c] x(1) by blast
    next
      case False
      then have "y \<in> L" using that by blast
      then show ?thesis using ok c keep [OF c] unfolding heap_ok_def by simp
    qed
  qed
  have pg: "\<exists>p \<in> P. region y \<subseteq> page_bytes p" if "y \<in> insert x L" for y
    using that ok x(1) span_page [OF pb(2)] pb(1) unfolding heap_ok_def by (cases "y = x") blast+
  have rr: "region y \<inter> region z = {}" if "y \<in> insert x L" "z \<in> insert x L" "y \<noteq> z" for y z
  proof -
    have "region y \<inter> region z = {}" if "y \<in> L" "z \<in> L"
      using ok that \<open>y \<noteq> z\<close> unfolding heap_ok_def by simp
    then show ?thesis using that xy by (metis Int_commute insertE)
  qed
  have "heap_ok P (insert x L) s' bs'"
    unfolding heap_ok_def apart_spans_def
  proof (intro conjI ballI impI)
    fix c assume "c \<in> set bs'"
    from blk [OF this] show "block_fits s' c" "page_of c \<in> P" "translate s' c \<noteq> None" by simp_all
  next
    fix y c assume "y \<in> insert x L" "c \<in> set bs'"
    then show "region y \<inter> span s' c = {} \<or> owns s' c y" by (rule lv)
  next
    fix y assume "y \<in> insert x L"
    then show "\<exists>p \<in> P. region y \<subseteq> page_bytes p" by (rule pg)
  next
    fix y z assume "y \<in> insert x L" "z \<in> insert x L" "y \<noteq> z"
    then show "region y \<inter> region z = {}" by (rule rr)
  next
    fix c d assume "c \<in> set bs'" "d \<in> set bs'" "c \<noteq> d"
    then show "span s' c \<inter> span s' d = {}" by (rule sp)
  qed (use ch cur in simp_all)
  with xy show ?thesis by blast
qed

section \<open>Handing a block out\<close>

lemma translate_blocks [simp]: "translate (s\<lparr>blocks := m\<rparr>) v = translate s v"
  by (simp add: translate_def pte_addr_def)

lemma translate_heap [simp]:
  "translate (s\<lparr>heap_head := h\<rparr>) v = translate s v" "translate (s\<lparr>current_block := h\<rparr>) v = translate s v"
  by (simp_all add: translate_def pte_addr_def)

lemma translate_set_block [simp]: "translate (set_block b x s) v = translate s v"
  by (simp add: set_block_def)

lemma set_block_fields [simp]:
  "blocks (set_block b x s) = (blocks s)(b := x)" "heap_head (set_block b x s) = heap_head s"
  "current_block (set_block b x s) = current_block s"
  by (simp_all add: set_block_def)

lemma carve_whole:
  assumes ok: "heap_ok P L s bs" and b: "b \<in> set bs" "fitting s sz b" and z: "sz \<noteq> 0"
    and small: "\<not> sz + BLOCK_SIZE \<le> bsize (blocks s b)"
  defines "s' \<equiv> set_block b ((blocks s b)\<lparr>btype := 2\<rparr>) s"
  shows "carve b sz s = Ret s' (b + BLOCK_SIZE)" "heap_ok P (insert (b + BLOCK_SIZE, sz) L) s' bs"
    "\<forall>y \<in> L. region (b + BLOCK_SIZE, sz) \<inter> region y = {}" "holds s' bs (b + BLOCK_SIZE) sz"
proof -
  have fit: "block_fits s b" "chain (next_block s) (heap_head s) bs" "current_block s \<in> set bs"
    "btype (blocks s b) = 1"
    using ok b by (auto simp: heap_ok_def fitting_def)
  have le: "unat sz \<le> block_size s b" using b(2) by (simp add: fitting_def block_size_def word_le_nat_alt)
  moreover have "0 < unat sz" using z by (simp add: word_gt_0 unat_gt_0)
  ultimately have pb: "unat (b + BLOCK_SIZE) = unat b + 9" using block_payload [OF fit(1)] by simp
  show "carve b sz s = Ret s' (b + BLOCK_SIZE)" using small by (simp add: carve_def s'_def)
  have old: "block_size s' c = block_size s c" "c \<noteq> b \<Longrightarrow> btype (blocks s' c) = btype (blocks s c)" for c
    by (simp_all add: s'_def block_size_def)
  have r: "region (b + BLOCK_SIZE, sz) \<subseteq> span s b"
    using le pb by (auto simp: region_def span_def)
  have ch: "chain (next_block s') (heap_head s') bs"
    using fit(2) chain_cong [of bs "next_block s'" "next_block s"] by (simp add: s'_def)
  have N: "c \<in> {b} \<Longrightarrow> block_fits s' c \<and> page_of c = page_of b \<and> span s' c \<subseteq> span s b" for c
    using fit(1) old by (simp add: block_fits_def span_def)
  have own: "c \<in> {b} \<Longrightarrow> region (b + BLOCK_SIZE, sz) \<inter> span s' c = {} \<or> owns s' c (b + BLOCK_SIZE, sz)" for c
    using le old by (simp add: owns_def s'_def block_size_def)
  show "holds s' bs (b + BLOCK_SIZE) sz"
    using le old b(1) by (simp add: holds_def owns_def s'_def block_size_def)
  have "heap_ok P (insert (b + BLOCK_SIZE, sz) L) s' bs \<and> (\<forall>y \<in> L. region (b + BLOCK_SIZE, sz) \<inter> region y = {})"
  proof (rule heap_ok_replace [OF ok b(1) fit(4) ch, where N = "{b}"])
    show "apart_spans s' {b}" by (simp add: apart_spans_def)
    show "set bs = set bs - {b} \<union> {b}" using b(1) by blast
  qed (use b fit old N r own in \<open>simp_all add: s'_def\<close>)
  then show "heap_ok P (insert (b + BLOCK_SIZE, sz) L) s' bs"
    "\<forall>y \<in> L. region (b + BLOCK_SIZE, sz) \<inter> region y = {}" by blast+
qed

lemma carve_split:
  assumes ok: "heap_ok P L s bs" and b: "b \<in> set bs" "fitting s sz b" and z: "sz \<noteq> 0" "sz \<le> 4096"
    and large: "sz + BLOCK_SIZE \<le> bsize (blocks s b)"
  defines "nb \<equiv> b + BLOCK_SIZE + sz"
  defines "s' \<equiv> set_block b \<lparr>bsize = sz, btype = 2, bnext = nb\<rparr>
    (set_block nb \<lparr>bsize = bsize (blocks s b) - sz - BLOCK_SIZE, btype = 1, bnext = next_block s b\<rparr> s)"
  shows "\<exists>bs'. carve b sz s = Ret s' (b + BLOCK_SIZE) \<and> heap_ok P (insert (b + BLOCK_SIZE, sz) L) s' bs' \<and>
    (\<forall>y \<in> L. region (b + BLOCK_SIZE, sz) \<inter> region y = {}) \<and> holds s' bs' (b + BLOCK_SIZE) sz"
proof -
  have fit: "block_fits s b" "chain (next_block s) (heap_head s) bs" "current_block s \<in> set bs"
    "btype (blocks s b) = 1" "translate s b \<noteq> None" "apart_spans s (set bs)"
    using ok b by (auto simp: heap_ok_def fitting_def)
  have "unat sz \<le> 4096" using z(2) by (simp add: word_le_nat_alt)
  then have "unat (sz + BLOCK_SIZE) = unat sz + 9"
    unfolding BLOCK_SIZE_def by (subst unat_add_lem [THEN iffD1]) simp_all
  then have le: "unat sz + 9 \<le> block_size s b" using large by (simp add: word_le_nat_alt block_size_def)
  have z0: "0 < unat sz" using z by (simp add: word_gt_0 unat_gt_0)
  have pb: "unat (b + BLOCK_SIZE) = unat b + 9" using block_payload [OF fit(1)] le by simp
  have "unat (BLOCK_SIZE + sz) = unat sz + 9" using \<open>unat (sz + BLOCK_SIZE) = unat sz + 9\<close> by (simp add: add.commute)
  then have nb: "unat nb = unat b + 9 + unat sz" "page_of nb = page_of b"
    "unat nb mod 4096 = unat b mod 4096 + (9 + unat sz)"
    using in_page_add [of b "BLOCK_SIZE + sz"] fit(1) le
    by (simp_all add: nb_def block_fits_def add.assoc)
  have nbb: "nb \<noteq> b" using nb(1) by auto
  have rest: "unat (bsize (blocks s b) - sz - BLOCK_SIZE) = block_size s b - unat sz - 9"
    using le by (simp add: unat_sub_if' block_size_def BLOCK_SIZE_def word_le_nat_alt)
  have size: "block_size s' b = unat sz" "block_size s' nb = block_size s b - unat sz - 9"
    using nbb rest by (simp_all add: s'_def block_size_def)
  have spb: "span s' b = {unat b..<unat b + 9 + unat sz}"
    "span s' nb = {unat b + 9 + unat sz..<unat b + 9 + block_size s b}"
    using size nb(1) le by (auto simp: span_def)
  have "nb \<notin> set bs"
  proof
    assume "nb \<in> set bs"
    then have "span s nb \<inter> span s b = {}" using fit(6) b(1) nbb unfolding apart_spans_def by blast
    moreover have "unat nb \<in> span s nb" "unat nb \<in> span s b"
      using nb(1) le by (auto simp: span_def)
    ultimately show False by blast
  qed
  then have old: "block_size s' c = block_size s c" "btype (blocks s' c) = btype (blocks s c)"
    if "c \<in> set bs" "c \<noteq> b" for c
    using that by (auto simp: s'_def block_size_def)
  have nb0: "nb \<noteq> 0"
  proof
    assume "nb = 0"
    then have "unat nb = 0" by simp
    then show False using nb(1) by simp
  qed
  from b(1) obtain xs ys where bs: "bs = xs @ b # ys" by (meson split_list)
  have bd: "b \<notin> set xs" "b \<notin> set ys" using chain_distinct [OF fit(2)] bs by auto
  have "chain (next_block s) (next_block s b) ys" using fit(2) chain_tail_at unfolding bs by blast
  moreover have "chain (next_block s') (next_block s b) ys = chain (next_block s) (next_block s b) ys"
    using bd \<open>nb \<notin> set bs\<close> bs by (intro chain_cong) (auto simp: s'_def)
  ultimately have "chain (next_block s') nb (nb # ys)" using nb0 nbb by (simp add: s'_def)
  then have ch: "chain (next_block s') (heap_head s') (xs @ b # nb # ys)"
    using fit(2) bd \<open>nb \<notin> set bs\<close> bs unfolding bs
    by (intro chain_set_next [of "next_block s" "heap_head s'" xs b ys "next_block s'" "nb # ys"])
      (auto simp: s'_def)
  have tn: "translate s nb \<noteq> None" using fit(5) translate_page_none [OF nb(2), of s] by simp
  have "carve b sz s = Ret s' (b + BLOCK_SIZE)"
    using large tn nbb by (simp add: carve_def touch_def nb_def [symmetric] s'_def Let_def)
  moreover have "heap_ok P (insert (b + BLOCK_SIZE, sz) L) s' (xs @ b # nb # ys) \<and>
      (\<forall>y \<in> L. region (b + BLOCK_SIZE, sz) \<inter> region y = {})"
  proof (rule heap_ok_replace [OF ok b(1) fit(4) ch, where N = "{b, nb}"])
    show "current_block s' \<in> set (xs @ b # nb # ys)" using fit(3) bs by (auto simp: s'_def)
    show "set (xs @ b # nb # ys) = set bs - {b} \<union> {b, nb}" using bs bd by auto
    show "block_fits s' c \<and> page_of c = page_of b \<and> span s' c \<subseteq> span s b" if "c \<in> {b, nb}" for c
    proof -
      have "block_fits s' nb"
        using fit(1) le size by (simp add: block_fits_def nb(3))
      moreover have "block_fits s' b" using fit(1) le size by (simp add: block_fits_def)
      moreover have "span s' b \<subseteq> span s b" "span s' nb \<subseteq> span s b" unfolding spb using le by (auto simp: span_def)
      ultimately show ?thesis using that nb(2) by auto
    qed
    show "apart_spans s' {b, nb}" using spb by (auto simp: apart_spans_def)
    show "region (b + BLOCK_SIZE, sz) \<subseteq> span s b" using le pb by (auto simp: region_def span_def)
    show "region (b + BLOCK_SIZE, sz) \<inter> span s' c = {} \<or> owns s' c (b + BLOCK_SIZE, sz)" if "c \<in> {b, nb}" for c
    proof (cases "c = b")
      case True
      then show ?thesis using size by (simp add: owns_def s'_def)
    next
      case False
      then have "c = nb" using that by simp
      then show ?thesis using spb(2) pb by (simp add: region_def)
    qed
  qed (use old in \<open>simp_all add: s'_def\<close>)
  moreover have "holds s' (xs @ b # nb # ys) (b + BLOCK_SIZE) sz"
    using size by (simp add: holds_def owns_def s'_def)
  ultimately show ?thesis by blast
qed


lemma carve_ok:
  assumes "heap_ok P L s bs" "b \<in> set bs" "fitting s sz b" "sz \<noteq> 0" "sz \<le> 4096"
  obtains s' bs' where "carve b sz s = Ret s' (b + BLOCK_SIZE)"
    "heap_ok P (insert (b + BLOCK_SIZE, sz) L) s' bs'"
    "\<forall>y \<in> L. region (b + BLOCK_SIZE, sz) \<inter> region y = {}" "holds s' bs' (b + BLOCK_SIZE) sz"
proof (cases "sz + BLOCK_SIZE \<le> bsize (blocks s b)")
  case True
  then show ?thesis using carve_split [OF assms True] that by blast
next
  case False
  then show ?thesis using carve_whole [OF assms(1-4) False] that by blast
qed

section \<open>Growing the heap\<close>

text \<open>What the heap needs from the page allocator when it has to grow.\<close>

definition page_supply :: "u32 set \<Rightarrow> u32 \<Rightarrow> 'a heap_scheme \<Rightarrow> bool" where
  "page_supply P f s \<longleftrightarrow> (\<exists>s1 p. allocate_page f s = Ret s1 p \<and> p \<noteq> 0 \<and> unat p mod 4096 = 0 \<and>
     page_of p \<notin> P \<and> translate s1 p \<noteq> None \<and> (\<forall>w. translate s w \<noteq> None \<longrightarrow> translate s1 w \<noteq> None))"

lemma vm_step_heap:
  "vm_step s s' \<Longrightarrow> blocks s' = blocks s \<and> heap_head s' = heap_head s \<and> current_block s' = current_block s"
  unfolding vm_step_def by (elim exE) simp

lemma supply_heap:
  assumes "page_supply P f s"
  obtains s1 p where "allocate_page f s = Ret s1 p" "p \<noteq> 0" "unat p mod 4096 = 0" "page_of p \<notin> P"
    "translate s1 p \<noteq> None" "\<And>w. translate s w \<noteq> None \<Longrightarrow> translate s1 w \<noteq> None"
    "blocks s1 = blocks s" "heap_head s1 = heap_head s" "current_block s1 = current_block s"
  using assms unfolding page_supply_def
proof (elim exE conjE)
  fix s1 p
  assume a: "allocate_page f s = Ret s1 p" and b: "p \<noteq> 0" "unat p mod 4096 = 0" "page_of p \<notin> P"
    "translate s1 p \<noteq> None" and c: "\<forall>w. translate s w \<noteq> None \<longrightarrow> translate s1 w \<noteq> None"
  have "vm_step s s1" using allocate_page_vm [of s f] a by simp
  from vm_step_heap [OF this] show thesis using that [OF a b] c by simp
qed

abbreviation fresh_block :: block where
  "fresh_block \<equiv> \<lparr>bsize = 4096 - BLOCK_SIZE, btype = 1, bnext = 0\<rparr>"

lemma fresh_size: "unat (4096 - BLOCK_SIZE) = 4087"
  by (simp add: BLOCK_SIZE_def)

text \<open>A page outside \<open>P\<close> joins the list behind a part of the old list.\<close>

lemma heap_ok_join:
  assumes ok: "heap_ok P L s bs" and p: "page_of p \<notin> P" "unat p mod 4096 = 0"
    and ch: "chain (next_block s') (heap_head s') (xs @ [p])" and cur: "current_block s' = p"
    and xs: "set xs \<subseteq> set bs"
    and tr: "translate s' p \<noteq> None" "\<And>w. translate s w \<noteq> None \<Longrightarrow> translate s' w \<noteq> None"
    and old: "\<And>c. c \<in> set xs \<Longrightarrow> block_size s' c = block_size s c \<and> btype (blocks s' c) = btype (blocks s c)"
    and new: "blocks s' p = fresh_block"
  shows "heap_ok (insert (page_of p) P) L s' (xs @ [p])"
proof -
  have keep: "span s' c = span s c" "owns s' c y = owns s c y" "block_fits s' c = block_fits s c"
    if "c \<in> set xs" for c y
    using old [OF that] by (simp_all add: span_def owns_def block_fits_def)
  have fp: "block_fits s' p" using p(2) by (simp add: block_fits_def block_size_def new fresh_size)
  have inP: "page_of c \<in> P" "block_fits s' c" "translate s' c \<noteq> None" if "c \<in> set xs" for c
  proof -
    have "page_of c \<in> P \<and> block_fits s c \<and> translate s c \<noteq> None"
      using ok subsetD [OF xs that] unfolding heap_ok_def by simp
    then show "page_of c \<in> P" "block_fits s' c" "translate s' c \<noteq> None"
      using keep(3) [OF that] tr(2) by simp_all
  qed
  have cp: "span s' c \<inter> span s' p = {}" if "c \<in> set xs" for c
  proof -
    have "page_of c \<noteq> page_of p" using inP(1) [OF that] p(1) by metis
    then show ?thesis
      using span_page [OF inP(2) [OF that]] span_page [OF fp] page_bytes_disjoint by blast
  qed
  have sp: "span s' c \<inter> span s' d = {}" if "c \<in> set (xs @ [p])" "d \<in> set (xs @ [p])" "c \<noteq> d" for c d
  proof -
    have "span s' c \<inter> span s' d = {}" if "c \<in> set xs" "d \<in> set xs"
      using heap_okD(6) [OF ok subsetD [OF xs that(1)] subsetD [OF xs that(2)] \<open>c \<noteq> d\<close>]
      by (simp only: keep(1) [OF that(1)] keep(1) [OF that(2)])
    then show ?thesis using that cp by (auto simp: Int_commute)
  qed
  have lv: "region y \<inter> span s' c = {} \<or> owns s' c y" if y: "y \<in> L" "c \<in> set (xs @ [p])" for y c
  proof (cases "c \<in> set xs")
    case True
    then show ?thesis using heap_okD(7) [OF ok y(1) subsetD [OF xs True]] by (simp only: keep [OF True])
  next
    case False
    then have "c = p" using y(2) by simp
    moreover obtain q where "q \<in> P" "region y \<subseteq> page_bytes q" using heap_okD(8) [OF ok y(1)] by blast
    moreover have "q \<noteq> page_of p" using \<open>q \<in> P\<close> p(1) by blast
    ultimately show ?thesis using page_bytes_disjoint span_page [OF fp] by blast
  qed
  show ?thesis unfolding heap_ok_def apart_spans_def
  proof (intro conjI ballI impI)
    fix c assume "c \<in> set (xs @ [p])"
    then show "block_fits s' c" "page_of c \<in> insert (page_of p) P" "translate s' c \<noteq> None"
      using inP fp tr(1) by auto
  next
    fix y c assume "y \<in> L" "c \<in> set (xs @ [p])"
    then show "region y \<inter> span s' c = {} \<or> owns s' c y" by (rule lv)
  next
    fix c d assume "c \<in> set (xs @ [p])" "d \<in> set (xs @ [p])" "c \<noteq> d"
    then show "span s' c \<inter> span s' d = {}" by (rule sp)
  next
    fix y assume "y \<in> L"
    then show "\<exists>q \<in> insert (page_of p) P. region y \<subseteq> page_bytes q" using heap_okD(8) [OF ok] by blast
  next
    fix y z assume "y \<in> L" "z \<in> L" "y \<noteq> z"
    then show "region y \<inter> region z = {}" using ok unfolding heap_ok_def by simp
  qed (use ch cur in simp_all)
qed

lemma first_page_ok:
  assumes ok: "heap_ok P L s []" and sup: "page_supply P f s"
  obtains s' p where "first_page f s = Ret s' ()" "heap_head s' = p" "heap_ok (insert (page_of p) P) L s' [p]"
    "blocks s' p = fresh_block"
proof -
  obtain s1 p where s1: "allocate_page f s = Ret s1 p" "p \<noteq> 0" "unat p mod 4096 = 0" "page_of p \<notin> P"
    "translate s1 p \<noteq> None" "\<And>w. translate s w \<noteq> None \<Longrightarrow> translate s1 w \<noteq> None" "blocks s1 = blocks s"
    using supply_heap [OF sup] by metis
  let ?s' = "set_block p fresh_block (s1\<lparr>heap_head := p, current_block := p\<rparr>)"
  have "first_page f s = Ret ?s' ()"
    using s1(1,5) by (simp add: first_page_def init_page_block_def touch_def)
  moreover have "heap_ok (insert (page_of p) P) L ?s' ([] @ [p])"
    by (rule heap_ok_join [OF ok s1(4,3)]) (use s1(2,5,6) in simp_all)
  ultimately show ?thesis using that [of ?s' p] by simp
qed

text \<open>A later page is linked behind \<open>current_block\<close>: whatever followed it leaves the list.\<close>

lemma another_page_ok:
  assumes ok: "heap_ok P L s (xs @ current_block s # ys)" and sup: "page_supply P f s"
  obtains s' p where "another_page f s = Ret s' p"
    "heap_ok (insert (page_of p) P) L s' ((xs @ [current_block s]) @ [p])" "blocks s' p = fresh_block"
    "page_of p \<notin> P"
proof -
  let ?cur = "current_block s"
  obtain s1 p where s1: "allocate_page f s = Ret s1 p" "p \<noteq> 0" "unat p mod 4096 = 0" "page_of p \<notin> P"
    "translate s1 p \<noteq> None" "\<And>w. translate s w \<noteq> None \<Longrightarrow> translate s1 w \<noteq> None"
    "blocks s1 = blocks s" "heap_head s1 = heap_head s" "current_block s1 = ?cur"
    using supply_heap [OF sup] by metis
  have chs: "chain (next_block s) (heap_head s) (xs @ ?cur # ys)" and tc: "translate s ?cur \<noteq> None"
    and pg: "\<And>b. b \<in> set (xs @ [?cur]) \<Longrightarrow> page_of b \<in> P"
    using ok by (auto simp: heap_ok_def)
  have ne: "p \<notin> set (xs @ [?cur])" using pg s1(4) by blast
  have dist: "?cur \<notin> set xs" using chain_distinct [OF chs] by simp
  let ?s' = "(set_block ?cur ((blocks s ?cur)\<lparr>bnext := p\<rparr>) (set_block p fresh_block s1))\<lparr>current_block := p\<rparr>"
  have "another_page f s = Ret ?s' p"
    using s1(1,5,6,7,9) tc ne by (auto simp: another_page_def init_page_block_def touch_def Let_def)
  moreover have "heap_ok (insert (page_of p) P) L ?s' ((xs @ [?cur]) @ [p])"
  proof (rule heap_ok_join [OF ok s1(4,3)])
    have nx: "next_block ?s' ?cur = p" "next_block ?s' p = 0" using ne by auto
    have "next_block ?s' c = next_block s c" if "c \<in> set xs" for c
      using that ne dist s1(7) by auto
    moreover have "chain (next_block s) (heap_head ?s') (xs @ ?cur # ys)" using chs s1(8) by simp
    moreover have "chain (next_block ?s') (next_block ?s' ?cur) [p]" using nx s1(2) by simp
    ultimately have "chain (next_block ?s') (heap_head ?s') (xs @ ?cur # [p])"
      using chain_set_next by blast
    then show "chain (next_block ?s') (heap_head ?s') ((xs @ [?cur]) @ [p])" by simp
  qed (use s1 ne dist in \<open>auto simp: block_size_def\<close>)
  moreover have "blocks ?s' p = fresh_block" using ne by auto
  ultimately show ?thesis using that s1(4) by blast
qed

section \<open>kmalloc and kfree\<close>

lemma default_flags_idem [simp]: "default_flags (default_flags f) = default_flags f"
  by (simp add: default_flags_def page_flags)

lemma fresh_fitting:
  "blocks s p = fresh_block \<Longrightarrow> unat sz \<le> 4087 \<Longrightarrow> fitting s sz p"
  using fresh_size by (simp add: fitting_def word_le_nat_alt)

text \<open>The search on a well-formed list.\<close>

lemma best_block_run:
  assumes "heap_ok P L s bs"
  shows "run_loop s (best_block_loop s sz 0 (heap_head s)) = Ret s (best_block s sz bs)"
  using best_block_loop_chain [of s "heap_head s" bs sz 0] heap_okD(1,5) [OF assms]
  by (simp add: best_block_def)

lemma best_block_heap:
  assumes "heap_ok P L s bs"
  shows "best_block s sz bs = 0 \<longleftrightarrow> (\<forall>b \<in> set bs. \<not> fitting s sz b)"
    "best_block s sz bs \<noteq> 0 \<Longrightarrow> best_block s sz bs \<in> set bs \<and> fitting s sz (best_block s sz bs) \<and>
      (\<forall>b \<in> set bs. fitting s sz b \<longrightarrow> bsize (blocks s (best_block s sz bs)) \<le> bsize (blocks s b))"
  using best_block_spec [OF chain_nonnull [OF heap_okD(1) [OF assms]], of s sz] by simp_all

text \<open>\<open>kmalloc\<close> from a block that is there: no page is taken and the block is a best fit.\<close>

lemma kmalloc_fit:
  assumes ok: "heap_ok P L s bs" and sz: "sz \<noteq> 0" "sz \<le> 4096" and b: "\<exists>b \<in> set bs. fitting s sz b"
  obtains s' bs' where "kmalloc sz f s = Ret s' (best_block s sz bs + BLOCK_SIZE)"
    "heap_ok P (insert (best_block s sz bs + BLOCK_SIZE, sz) L) s' bs'"
    "\<forall>y \<in> L. region (best_block s sz bs + BLOCK_SIZE, sz) \<inter> region y = {}"
    "holds s' bs' (best_block s sz bs + BLOCK_SIZE) sz"
proof -
  let ?b = "best_block s sz bs"
  have b0: "?b \<noteq> 0" using best_block_heap(1) [OF ok] b by blast
  then have bb: "?b \<in> set bs" "fitting s sz ?b" using best_block_heap(2) [OF ok] by blast+
  have "heap_head s \<noteq> 0" using heap_okD(1) [OF ok] bb(1) by (cases bs) auto
  moreover have "\<not> sz > 4096" using sz(2) by simp
  ultimately have "kmalloc sz f s = carve ?b sz s"
    using sz(1) b0 best_block_run [OF ok] by (simp add: kmalloc_def Let_def)
  then show ?thesis using carve_ok [OF ok bb sz] that by metis
qed

text \<open>\<open>kmalloc\<close> in general, for the sizes one page can hold.\<close>

lemma kmalloc_ok:
  assumes ok: "heap_ok P L s bs" and sz: "0 < unat sz" "unat sz \<le> 4087"
    and sup: "(\<forall>b \<in> set bs. \<not> fitting s sz b) \<Longrightarrow> page_supply P (default_flags f) s"
  shows "\<exists>s' a P' bs'. kmalloc sz f s = Ret s' a \<and> P \<subseteq> P' \<and> heap_ok P' (insert (a, sz) L) s' bs' \<and>
    (\<forall>y \<in> L. region (a, sz) \<inter> region y = {}) \<and> holds s' bs' a sz"
proof -
  have sz': "sz \<noteq> 0" "sz \<le> 4096" "\<not> sz > 4096" using sz by (auto simp: word_le_nat_alt word_less_nat_alt)
  show ?thesis
  proof (cases "\<exists>b \<in> set bs. fitting s sz b")
    case True
    then show ?thesis using kmalloc_fit [OF ok sz'(1,2)] by (metis subset_refl)
  next
    case False
    then have none: "best_block s sz bs = 0" and spl: "page_supply P (default_flags f) s"
      using best_block_heap(1) [OF ok] sup by blast+
    show ?thesis
    proof (cases "bs = []")
      case True
      then have h: "heap_head s = 0" using heap_okD(1) [OF ok] by simp
      obtain s1 p where s1: "first_page (default_flags f) s = Ret s1 ()" "heap_head s1 = p"
        "heap_ok (insert (page_of p) P) L s1 [p]" "blocks s1 p = fresh_block"
        using first_page_ok [OF ok [unfolded True] spl] by metis
      have fp: "fitting s1 sz p" using fresh_fitting [OF s1(4) sz(2)] .
      then have b: "best_block s1 sz [p] \<noteq> 0" using best_block_heap(1) [OF s1(3)] by simp
      then have bp: "best_block s1 sz [p] = p" using best_block_heap(2) [OF s1(3)] by simp
      have "kmalloc sz f s = carve p sz s1"
        using sz' h s1(1) best_block_run [OF s1(3), of sz] b by (simp add: kmalloc_def Let_def bp)
      moreover obtain s' bs' where "carve p sz s1 = Ret s' (p + BLOCK_SIZE)"
        "heap_ok (insert (page_of p) P) (insert (p + BLOCK_SIZE, sz) L) s' bs'"
        "\<forall>y \<in> L. region (p + BLOCK_SIZE, sz) \<inter> region y = {}" "holds s' bs' (p + BLOCK_SIZE) sz"
        using carve_ok [OF s1(3) _ fp sz'(1,2)] by (metis list.set_intros(1))
      ultimately show ?thesis by (metis subset_insertI)
    next
      case ne: False
      have h: "heap_head s \<noteq> 0" using heap_okD(1) [OF ok] ne by (cases bs) auto
      obtain xs ys where bs: "bs = xs @ current_block s # ys"
        using heap_okD(2) [OF ok ne] by (meson split_list)
      obtain s1 p where s1: "another_page (default_flags f) s = Ret s1 p"
        "heap_ok (insert (page_of p) P) L s1 ((xs @ [current_block s]) @ [p])" "blocks s1 p = fresh_block"
        using another_page_ok [OF ok [unfolded bs] spl] by metis
      have "kmalloc sz f s = carve p sz s1"
        using sz' h s1(1) best_block_run [OF ok, of sz] by (simp add: kmalloc_def Let_def none)
      moreover obtain s' bs' where "carve p sz s1 = Ret s' (p + BLOCK_SIZE)"
        "heap_ok (insert (page_of p) P) (insert (p + BLOCK_SIZE, sz) L) s' bs'"
        "\<forall>y \<in> L. region (p + BLOCK_SIZE, sz) \<inter> region y = {}" "holds s' bs' (p + BLOCK_SIZE) sz"
        by (rule carve_ok [OF s1(2) _ fresh_fitting [OF s1(3) sz(2)] sz'(1,2)]) simp
      ultimately show ?thesis by (metis subset_insertI)
    qed
  qed
qed

lemma kmalloc_rejects: "sz = 0 \<or> 4096 < sz \<Longrightarrow> kmalloc sz f s = Ret s 0"
  by (auto simp: kmalloc_def Let_def)

text \<open>Freeing: the block of the address becomes free when it is still on the list, and
  nothing happens otherwise; either way the other allocations stay safe.\<close>

definition freed :: "u32 \<Rightarrow> u32 list \<Rightarrow> 'a heap_scheme \<Rightarrow> 'a heap_scheme" where
  "freed addr bs s = (let p = addr - BLOCK_SIZE
     in if p \<in> set bs then set_block p ((blocks s p)\<lparr>btype := 1\<rparr>) s else s)"

lemma kfree_eq:
  assumes ok: "heap_ok P L s bs"
  shows "kfree addr s = Ret (freed addr bs s) ()"
proof -
  have hit: "kfree_hit addr s b = (if b = addr - BLOCK_SIZE then
      Some (Ret (set_block b ((blocks s b)\<lparr>btype := 1\<rparr>) s) ()) else None)" if "b \<in> set bs" for b
    using that heap_okD(5) [OF ok that] chain_nonnull [OF heap_okD(1) [OF ok]]
    by (auto simp: kfree_hit_def eq_diff_eq)
  have "first_hit (kfree_hit addr s) (Ret s ()) as = Ret (freed addr as s) ()" if "set as \<subseteq> set bs" for as
    using that by (induction as) (auto simp: hit freed_def Let_def)
  moreover have "kfree_hit addr s 0 = Some (Ret s ())" by (simp add: kfree_hit_def)
  ultimately show ?thesis
    using kfree_search.search_chain [OF heap_okD(1) [OF ok]] by (simp add: kfree_def)
qed

lemma kfree_ok:
  assumes ok: "heap_ok P L s bs"
  shows "heap_ok P {x \<in> L. fst x \<noteq> addr} (freed addr bs s) bs"
proof (cases "addr - BLOCK_SIZE \<in> set bs")
  case True
  let ?p = "addr - BLOCK_SIZE"
  let ?s' = "set_block ?p ((blocks s ?p)\<lparr>btype := 1\<rparr>) s"
  have s': "freed addr bs s = ?s'" using True by (simp add: freed_def Let_def)
  have nx: "next_block ?s' = next_block s" by (auto simp: fun_eq_iff)
  have sz: "block_size ?s' c = block_size s c" for c by (simp add: block_size_def)
  then have same: "span ?s' c = span s c" "block_fits ?s' c = block_fits s c" for c
    by (simp_all add: span_def block_fits_def)
  have own: "owns ?s' c x" if "owns s c x" "fst x \<noteq> addr" for c x
    using that sz by (auto simp: owns_def)
  have live: "region x \<inter> span s b = {} \<or> owns ?s' b x"
    if "x \<in> {x \<in> L. fst x \<noteq> addr}" "b \<in> set bs" for x b
    using that heap_okD(7) [OF ok, of x b] own [of b x] by blast
  show ?thesis unfolding s' heap_ok_def apart_spans_def same nx
    using heap_okD(1-6,8,9) [OF ok] live by simp
next
  case False
  then show ?thesis using ok by (auto simp: freed_def heap_ok_def Let_def)
qed

text \<open>After a free the block is a candidate again.\<close>

lemma kfree_fitting:
  "holds s bs a sz \<Longrightarrow> fitting (freed a bs s) sz (a - BLOCK_SIZE)"
  by (simp add: holds_def owns_def freed_def fitting_def Let_def block_size_def word_le_nat_alt)

text \<open>An allocation followed by its release.\<close>

lemma kmalloc_kfree:
  assumes ok: "heap_ok P L s bs" and sz: "0 < unat sz" "unat sz \<le> 4087"
    and sup: "(\<forall>b \<in> set bs. \<not> fitting s sz b) \<Longrightarrow> page_supply P (default_flags f) s"
  shows "\<exists>s' a s'' P' bs'. kmalloc sz f s = Ret s' a \<and> kfree a s' = Ret s'' () \<and>
    heap_ok P' {x \<in> L. fst x \<noteq> a} s'' bs' \<and> fitting s'' sz (a - BLOCK_SIZE)"
proof -
  obtain s' a P' bs' where k: "kmalloc sz f s = Ret s' a" "heap_ok P' (insert (a, sz) L) s' bs'" "holds s' bs' a sz"
    using kmalloc_ok [OF assms] by blast
  have "{x \<in> insert (a, sz) L. fst x \<noteq> a} = {x \<in> L. fst x \<noteq> a}" by auto
  then have "heap_ok P' {x \<in> L. fst x \<noteq> a} (freed a bs' s') bs'" using kfree_ok [OF k(2), of a] by simp
  then show ?thesis using k kfree_eq [OF k(2)] kfree_fitting [OF k(3)] by blast
qed

text \<open>When no region of a page is left, \<open>allocate_page\<close> returns 0, which \<open>kmalloc\<close> takes for
  a page: it writes a header at address 0 and returns 9.\<close>

definition exhausted :: "'a pmm_scheme \<Rightarrow> bool" where
  "exhausted s \<longleftrightarrow> best_fit (entries s) (mm_map s) 4096 = -1"

lemma allocate_exhausted: "exhausted s \<Longrightarrow> allocate 4096 s = (0, s)"
  by (simp add: allocate_def exhausted_def Let_def)

lemma allocate_page_exhausted: "exhausted s \<Longrightarrow> allocate_page f s = Ret s 0"
  by (simp add: allocate_page_def allocate_exhausted Let_def)

lemma exhausted_heap:
  "mm_map s' = mm_map s \<Longrightarrow> mm_entry s' = mm_entry s \<Longrightarrow> exhausted s' = exhausted s"
  by (simp add: exhausted_def entries_def)

lemma first_page_exhausted:
  "exhausted s \<Longrightarrow> translate s 0 \<noteq> None \<Longrightarrow>
   first_page f s = Ret (set_block 0 fresh_block (s\<lparr>heap_head := 0, current_block := 0\<rparr>)) ()"
  by (simp add: first_page_def allocate_page_exhausted init_page_block_def touch_def)

lemma another_page_exhausted:
  assumes "exhausted s" "translate s 0 \<noteq> None" "current_block s = 0"
  shows "another_page f s = Ret (set_block 0 fresh_block s) 0"
  using assms
  by (simp add: another_page_def allocate_page_exhausted init_page_block_def touch_def Let_def)
    (simp add: set_block_def)

lemma kmalloc_exhausted:
  assumes h: "heap_head s = 0" and e: "exhausted s" and m: "translate s 0 \<noteq> None"
    and sz: "sz \<noteq> 0" "unat sz \<le> 4096"
  shows "\<exists>s'. kmalloc sz f s = Ret s' 9"
proof -
  let ?s1 = "set_block 0 fresh_block (s\<lparr>heap_head := 0, current_block := 0\<rparr>)"
  let ?s2 = "set_block 0 fresh_block ?s1"
  have e1: "exhausted ?s1" using e by (subst exhausted_heap [of _ s]) (simp_all add: set_block_def)
  have "\<not> sz > 4096" using sz(2) by (simp add: word_less_nat_alt)
  moreover have "best_block_loop ?s1 sz 0 0 = Some (Ret ?s1 0)" by (subst best_block_loop.simps) simp
  ultimately have k: "kmalloc sz f s = carve 0 sz ?s2"
    using sz(1) h first_page_exhausted [OF e m] another_page_exhausted [OF e1] m
    by (simp add: kmalloc_def Let_def)
  show ?thesis
  proof (cases "sz + BLOCK_SIZE \<le> bsize (blocks ?s2 0)")
    case True
    have u: "unat (sz + BLOCK_SIZE) = unat sz + 9"
      unfolding BLOCK_SIZE_def using sz(2) by (subst unat_add_lem [THEN iffD1]) simp_all
    have "unat sz + 9 \<le> 4087" using True fresh_size unfolding word_le_nat_alt u by simp
    then have "page_of (0 + (sz + BLOCK_SIZE)) = page_of 0" by (intro in_page_add) (simp add: u)
    then have "translate ?s2 (BLOCK_SIZE + sz) \<noteq> None"
      using translate_page_none [of "BLOCK_SIZE + sz" 0 s] m by (simp add: add.commute)
    with True k show ?thesis by (simp add: carve_def touch_def Let_def) (simp add: BLOCK_SIZE_def)
  next
    case False
    with k show ?thesis by (simp add: carve_def) (simp add: BLOCK_SIZE_def)
  qed
qed

text \<open>A request of 4088 to 4096 bytes passes the size check, finds no block (none is that
  large) and gets a fresh page whose 4087 bytes of payload end before the request does.\<close>

lemma kmalloc_oversized:
  assumes ok: "heap_ok P L s bs" and ne: "bs \<noteq> []" and sz: "4087 < unat sz" "unat sz \<le> 4096"
    and sup: "page_supply P (default_flags f) s"
  shows "\<exists>s' p. kmalloc sz f s = Ret s' (p + BLOCK_SIZE) \<and> block_size s' p = 4087 \<and> unat p mod 4096 = 0 \<and>
    unat (p + BLOCK_SIZE) + unat sz > unat p + 4096"
proof -
  have sz': "sz \<noteq> 0" "\<not> sz > 4096" using sz by (auto simp: word_less_nat_alt)
  have "block_size s b \<le> 4087" if "b \<in> set bs" for b
    using heap_okD(3) [OF ok that] by (simp add: block_fits_def)
  then have none: "best_block s sz bs = 0"
    using sz(1) unfolding best_block_heap(1) [OF ok] fitting_def block_size_def word_le_nat_alt
    by (metis leD order_le_less_trans)
  have h: "heap_head s \<noteq> 0" using heap_okD(1) [OF ok] ne by (cases bs) auto
  obtain xs ys where bs: "bs = xs @ current_block s # ys" using heap_okD(2) [OF ok ne] by (meson split_list)
  obtain s1 p where s1: "another_page (default_flags f) s = Ret s1 p"
    "heap_ok (insert (page_of p) P) L s1 ((xs @ [current_block s]) @ [p])" "blocks s1 p = fresh_block"
    using another_page_ok [OF ok [unfolded bs] sup] by metis
  have k: "kmalloc sz f s = carve p sz s1"
    using sz' h s1(1) best_block_run [OF ok, of sz] by (simp add: kmalloc_def Let_def none)
  have bp: "block_size s1 p = 4087" using s1(3) fresh_size by (simp add: block_size_def)
  have "unat (sz + BLOCK_SIZE) = unat sz + 9"
    unfolding BLOCK_SIZE_def using sz(2) by (subst unat_add_lem [THEN iffD1]) simp_all
  then have "\<not> sz + BLOCK_SIZE \<le> bsize (blocks s1 p)" using sz(1) bp by (simp add: word_le_nat_alt block_size_def)
  then have c: "carve p sz s1 = Ret (set_block p ((blocks s1 p)\<lparr>btype := 2\<rparr>) s1) (p + BLOCK_SIZE)"
    by (simp add: carve_def)
  have fp: "block_fits s1 p" using heap_okD(3) [OF s1(2)] by simp
  then have "unat p mod 4096 = 0" using bp by (simp add: block_fits_def)
  moreover have "unat (p + BLOCK_SIZE) = unat p + 9" using block_payload [OF fp] bp by simp
  ultimately show ?thesis using k c sz(1) bp by (auto simp: block_size_def)
qed

text \<open>The tail behind \<open>current_block\<close> is lost when the heap grows: the list that results
  holds the blocks up to \<open>current_block\<close> and the new page.\<close>

lemma another_page_drops_tail:
  assumes ok: "heap_ok P L s (xs @ current_block s # ys)" and sup: "page_supply P f s"
    and r: "another_page f s = Ret s' p" and y: "y \<in> set ys"
  shows "\<exists>bs. chain (next_block s') (heap_head s') bs \<and> y \<notin> set bs"
proof -
  obtain s1 q where s1: "another_page f s = Ret s1 q"
    "heap_ok (insert (page_of q) P) L s1 ((xs @ [current_block s]) @ [q])" "page_of q \<notin> P"
    using another_page_ok [OF ok sup] by metis
  have "y \<noteq> q" using heap_okD(4) [OF ok, of y] y s1(3) by auto
  moreover have "y \<notin> set xs" "y \<noteq> current_block s"
    using chain_distinct [OF heap_okD(1) [OF ok]] y by auto
  moreover have "s1 = s'" using s1(1) r by simp
  ultimately show ?thesis using heap_okD(1) [OF s1(2)] by (intro exI [of _ "xs @ [current_block s, q]"]) simp
qed

section \<open>Printing the list\<close>

lemma kprint_blocks:
  "blocks (kprint str s) = blocks s" "blocks (kprint_hex n s) = blocks s" "blocks (kprint_number n s) = blocks s"
proof -
  show "blocks (kprint str s) = blocks s" using kprint_shape [of str s] by auto
  show "blocks (kprint_hex n s) = blocks s" using kprint_hex_shape [of n s] by auto
  show "blocks (kprint_number n s) = blocks s" using kprint_number_shape [of n s] by auto
qed

interpretation inspect_sweep: pointer_sweep inspect_loop next_block inspect_block
proof unfold_locales
  show "inspect_loop h p = (if p = 0 then Some (Ret h ()) else
      (case inspect_block p h of Ret h' u \<Rightarrow> inspect_loop h' (next_block h' p) | Stop h' r \<Rightarrow> Some (Stop h' r)))"
    for h :: "'a heap_scheme" and p by (rule inspect_loop.simps)
  show "next_block h' = next_block h" if "inspect_block p h = Ret h' u" for p h u and h' :: "'a heap_scheme"
    using that by (auto simp: inspect_block_def touch_def Let_def kprint_blocks split: if_splits)
qed

lemma inspect_chain:
  "chain (next_block s) (heap_head s) bs \<Longrightarrow>
   inspect s = fold (\<lambda>b out. bind_out out (\<lambda>s _. inspect_block b s)) bs (Ret s ())"
  by (simp add: inspect_def inspect_sweep.sweep_chain [of s "heap_head s" bs])

text \<open>The supply, from the state of the page allocator.\<close>

lemma page_supply_ready:
  fixes s :: "'a heap_scheme"
  assumes "vm_wf s" "allocate 4096 s = (p, s1)" "p \<noteq> 0" "take_virtual s1 = (v, s2)" "can_map s2 v"
    "f AND NOT (mask 12) = 0" "f = 0 \<or> f AND 1 \<noteq> 0" and v: "v \<noteq> 0" "unat v mod 4096 = 0" "page_of v \<notin> P"
  shows "page_supply P f s"
proof -
  obtain s' where s': "allocate_page f s = Ret s' v" "maps_only v (Some (frame_of p)) s s'"
    using allocate_page_ok [OF assms(1-7)] by metis
  have "translate s' v \<noteq> None" using maps_only_same [OF s'(2) refl] by simp
  moreover have "translate s' w \<noteq> None" if "translate s w \<noteq> None" for w
    using that s'(2) by (simp add: maps_only_def)
  ultimately show ?thesis using s'(1) v unfolding page_supply_def
    by (intro exI [of _ s'] exI [of _ v] conjI allI impI) simp_all
qed

section \<open>What the heap leaves alone\<close>

definition below_heap :: "'a heap_scheme \<Rightarrow> _" where
  "below_heap s = (heap.more s, idt s, gdt s, tss s, ticks s, last_key s, command s, command_index s,
     command_ready s, paging_on s, addr_page_table s, kernel_end s, ram s)"

definition heap_step :: "'a heap_scheme \<Rightarrow> 'a heap_scheme \<Rightarrow> bool" where
  "heap_step s s' \<longleftrightarrow> below_heap s' = below_heap s"

interpretation heap_frame: effect_frame heap_step
  by unfold_locales (simp_all add: heap_step_def)

lemma vm_heap_step: "vm_step s s' \<Longrightarrow> heap_step s s'"
  unfolding vm_step_def heap_step_def below_heap_def by (elim exE) simp

lemma heap_updates:
  "heap_step s (set_block b x s)" "heap_step s (s\<lparr>heap_head := h\<rparr>)" "heap_step s (s\<lparr>current_block := h\<rparr>)"
  "heap_step s (s\<lparr>heap_head := h, current_block := h'\<rparr>)"
  by (simp_all add: heap_step_def below_heap_def set_block_def)

lemma touch_state [simp]: "out_state (touch p s) = s"
  by (simp add: touch_def)

lemmas heap_frames = heap_updates heap_frame.refl heap_frame.trans [OF heap_updates(1) heap_updates(3)]
  heap_frame.trans [OF heap_updates(1) heap_updates(1)] vm_routines [THEN vm_heap_step]

lemma init_page_block_step: "heap_step s (out_state (init_page_block p s))"
  unfolding init_page_block_def by (rule heap_frame.frame_bind) (simp_all add: heap_frames)

lemma first_page_step: "heap_step s (out_state (first_page f s))"
  unfolding first_page_def
  by (rule heap_frame.frame_bind)
    (simp_all add: heap_frames heap_frame.trans [OF heap_updates(4) init_page_block_step])

lemma another_page_step: "heap_step s (out_state (another_page f s))"
  unfolding another_page_def Let_def
  by (rule heap_frame.frame_bind, simp add: heap_frames, rule heap_frame.frame_bind [OF init_page_block_step],
      rule heap_frame.frame_bind) (simp_all add: heap_frames)

lemma carve_step: "heap_step s (out_state (carve b sz s))"
proof -
  have "heap_step s (out_state (bind_out (touch n s) (\<lambda>s _. Ret (set_block b (x s) (set_block n (y s) s)) (r :: u32))))" for n x y r
    by (rule heap_frame.frame_bind) (simp_all add: heap_frames)
  then show ?thesis by (simp add: carve_def Let_def heap_frames)
qed

lemma best_block_loop_state:
  "best_block_loop s sz best cur = Some r \<Longrightarrow> out_state r = s"
  by (erule best_block_loop.raw_induct [where P = "\<lambda>s sz best cur r. out_state r = s", rotated])
    (auto split: if_splits)

lemma kmalloc_step: "heap_step s (out_state (kmalloc sz f s))"
proof -
  have run: "heap_step s (out_state (run_loop s (best_block_loop s sz 0 h)))" for h and s :: "'a heap_scheme"
    using best_block_loop_state [of s sz 0 h] by (cases "best_block_loop s sz 0 h") (simp_all add: heap_frames)
  have "heap_step s (out_state (
     bind_out (if heap_head s = 0 then first_page (default_flags f) s else Ret s ()) (\<lambda>s _.
     bind_out (run_loop s (best_block_loop s sz 0 (heap_head s))) (\<lambda>s best_block.
     bind_out (if best_block = 0 then another_page (default_flags f) s else Ret s best_block) (\<lambda>s best_block.
       carve best_block sz s)))))"
    by (rule heap_frame.frame_bind, simp add: first_page_step heap_frames, rule heap_frame.frame_bind [OF run],
        rule heap_frame.frame_bind [OF _ carve_step]) (simp add: another_page_step heap_frames)
  then show ?thesis by (simp add: kmalloc_def Let_def heap_frames)
qed

lemma kfree_loop_step: "kfree_loop addr s p = Some r \<Longrightarrow> heap_step s (out_state r)"
  by (erule kfree_loop.raw_induct [where P = "\<lambda>addr s p r. heap_step s (out_state r)", rotated])
    (auto simp: kfree_hit_def heap_frames split: if_splits)

lemma kfree_step: "heap_step s (out_state (kfree addr s))"
  using kfree_loop_step [of addr s "heap_head s"]
  by (cases "kfree_loop addr s (heap_head s)") (simp_all add: kfree_def heap_frames)

end
