(* ===== verification/Process.thy ===== *)
theory Process
  imports KHeap
begin

text \<open>
  Processes of kernel/process.c and kernel/process.h: the process list, creation and
  removal, the saved register frames, the round-robin scheduler, wake-up, context switch
  and exit, with set_kernel_stack of kernel/tss.c. Process structures and register frames
  are stores from addresses to records. The lemmas refine the pointer code to operations
  on the list of processes: the scheduler is a search of the list rotated to start behind
  the current process.
\<close>

section \<open>State\<close>

datatype process_state =
    PROCESS_READY
  | PROCESS_RUNNING
  | PROCESS_BLOCKED
  | PROCESS_TERMINATED
  | PROCESS_ZOMBIE

record registers =
  r_gs :: u32
  r_fs :: u32
  r_es :: u32
  r_ds :: u32
  r_edi :: u32
  r_esi :: u32
  r_ebp :: u32
  r_esp :: u32
  r_ebx :: u32
  r_edx :: u32
  r_ecx :: u32
  r_eax :: u32
  r_eip :: u32
  r_cs :: u32
  r_eflags :: u32
  r_user_esp :: u32
  r_user_ss :: u32

record process =
  pid :: u32
  proc_page_directory :: u32
  kernel_stack :: u32
  kernel_stack_to :: u32
  regs :: u32
  pstate :: process_state
  exit_code :: u32
  pentry :: u32
  wake :: u32
  pnext :: u32
  parent :: u32
  user_stack :: u32

text \<open>\<open>addr_process_entry\<close> is the link address of the routine every kernel process starts in.\<close>

record sched = heap +
  procs :: "u32 \<Rightarrow> process"
  reg_mem :: "u32 \<Rightarrow> registers"
  process_list :: u32
  current_process :: u32
  process_number :: u16
  addr_process_entry :: u32

definition PROCESS_KERNEL :: u32 where "PROCESS_KERNEL = 0"
definition PROCESS_USER :: u32 where "PROCESS_USER = 1"
definition KERNEL_STACK_SIZE :: u32 where "KERNEL_STACK_SIZE = 4096 * 4"
definition USER_STACK_TOP :: u32 where "USER_STACK_TOP = 0xBFFFF000"
definition sizeof_process :: u32 where "sizeof_process = 48"
definition sizeof_registers :: u32 where "sizeof_registers = 68"

definition zero_registers :: registers where
  "zero_registers = \<lparr>r_gs = 0, r_fs = 0, r_es = 0, r_ds = 0, r_edi = 0, r_esi = 0, r_ebp = 0, r_esp = 0,
     r_ebx = 0, r_edx = 0, r_ecx = 0, r_eax = 0, r_eip = 0, r_cs = 0, r_eflags = 0, r_user_esp = 0,
     r_user_ss = 0\<rparr>"

abbreviation next_proc :: "'a sched_scheme \<Rightarrow> u32 \<Rightarrow> u32" where
  "next_proc s p \<equiv> pnext (procs s p)"

definition update_proc :: "u32 \<Rightarrow> (process \<Rightarrow> process) \<Rightarrow> 'a sched_scheme \<Rightarrow> 'a sched_scheme" where
  "update_proc p f s = s\<lparr>procs := (procs s)(p := f (procs s p))\<rparr>"

definition update_regs :: "u32 \<Rightarrow> (registers \<Rightarrow> registers) \<Rightarrow> 'a sched_scheme \<Rightarrow> 'a sched_scheme" where
  "update_regs r f s = s\<lparr>reg_mem := (reg_mem s)(r := f (reg_mem s r))\<rparr>"

text \<open>An assignment through a pointer to a process or to a register frame.\<close>

definition set_proc :: "u32 \<Rightarrow> (process \<Rightarrow> process) \<Rightarrow> 'a sched_scheme \<Rightarrow> ('a sched_scheme, unit) outcome" where
  "set_proc p f s = bind_out (touch p s) (\<lambda>s _. Ret (update_proc p f s) ())"

definition get_proc :: "u32 \<Rightarrow> 'a sched_scheme \<Rightarrow> ('a sched_scheme, process) outcome" where
  "get_proc p s = bind_out (touch p s) (\<lambda>s _. Ret s (procs s p))"

definition set_regs :: "u32 \<Rightarrow> (registers \<Rightarrow> registers) \<Rightarrow> 'a sched_scheme \<Rightarrow> ('a sched_scheme, unit) outcome" where
  "set_regs r f s = bind_out (touch r s) (\<lambda>s _. Ret (update_regs r f s) ())"

definition get_regs :: "u32 \<Rightarrow> 'a sched_scheme \<Rightarrow> ('a sched_scheme, registers) outcome" where
  "get_regs r s = bind_out (touch r s) (\<lambda>s _. Ret s (reg_mem s r))"

section \<open>The process list\<close>

text \<open>The walk of \<open>add_process\<close> to the last node.\<close>

definition last_hit :: "'a sched_scheme \<Rightarrow> u32 \<Rightarrow> ('a sched_scheme, u32) outcome option" where
  "last_hit s p =
     (if translate s p = None then Some (Stop s (Page_fault p))
      else if next_proc s p = 0 then Some (Ret s p) else None)"

partial_function (option) last_loop :: "'a sched_scheme \<Rightarrow> u32 \<Rightarrow> ('a sched_scheme, u32) outcome option" where
  "last_loop s p = (case last_hit s p of Some r \<Rightarrow> Some r | None \<Rightarrow> last_loop s (next_proc s p))"

definition add_process :: "u32 \<Rightarrow> 'a sched_scheme \<Rightarrow> ('a sched_scheme, unit) outcome" where
  "add_process pro s =
     bind_out (set_proc pro (\<lambda>p. p\<lparr>pnext := 0\<rparr>) s) (\<lambda>s _.
       if process_list s = 0 then Ret (s\<lparr>process_list := pro, current_process := pro\<rparr>) ()
       else bind_out (run_loop s (last_loop s (process_list s))) (\<lambda>s current.
              set_proc current (\<lambda>p. p\<lparr>pnext := pro\<rparr>) s))"

definition remove_process :: "u32 \<Rightarrow> 'a sched_scheme \<Rightarrow> ('a sched_scheme, unit) outcome" where
  "remove_process pro s =
     bind_out (get_proc pro s) (\<lambda>s p.
       bind_out (free_page (kernel_stack p) s) (\<lambda>s _. kfree pro s))"

partial_function (option) remove_loop ::
  "u32 \<Rightarrow> 'a sched_scheme \<Rightarrow> u32 \<Rightarrow> u32 \<Rightarrow> ('a sched_scheme, unit) outcome option" where
  "remove_loop pro s previous current =
     (if current = 0 then Some (Ret s ())
      else if translate s current = None then Some (Stop s (Page_fault current))
      else if current = pro then
        Some (bind_out (if previous = 0 then Ret (s\<lparr>process_list := next_proc s current\<rparr>) ()
                        else set_proc previous (\<lambda>p. p\<lparr>pnext := next_proc s current\<rparr>) s) (\<lambda>s _.
                remove_process current s))
      else remove_loop pro s current (next_proc s current))"

definition remove_process_list :: "u32 \<Rightarrow> 'a sched_scheme \<Rightarrow> ('a sched_scheme, unit) outcome" where
  "remove_process_list pro s = run_loop s (remove_loop pro s 0 (process_list s))"

definition find_hit :: "u32 \<Rightarrow> 'a sched_scheme \<Rightarrow> u32 \<Rightarrow> ('a sched_scheme, u32) outcome option" where
  "find_hit pro s p =
     (if p = 0 then Some (Ret s 0)
      else if p = pro then Some (Ret s pro)
      else if translate s p = None then Some (Stop s (Page_fault p)) else None)"

partial_function (option) find_loop ::
  "u32 \<Rightarrow> 'a sched_scheme \<Rightarrow> u32 \<Rightarrow> ('a sched_scheme, u32) outcome option" where
  "find_loop pro s p = (case find_hit pro s p of Some r \<Rightarrow> Some r | None \<Rightarrow> find_loop pro s (next_proc s p))"

definition find_process :: "u32 \<Rightarrow> 'a sched_scheme \<Rightarrow> ('a sched_scheme, u32) outcome" where
  "find_process pro s = run_loop s (find_loop pro s (process_list s))"

text \<open>\<open>is_valid_process_ptr\<close> is the same walk with 1 and 0 as its results.\<close>

definition is_valid_process_ptr :: "u32 \<Rightarrow> 'a sched_scheme \<Rightarrow> ('a sched_scheme, bool) outcome" where
  "is_valid_process_ptr pro s =
     bind_out (find_process pro s) (\<lambda>s p. Ret s (p \<noteq> 0))"

section \<open>Creation\<close>

definition stack_frame :: "u32 \<Rightarrow> u32" where
  "stack_frame stack = stack + KERNEL_STACK_SIZE - sizeof_registers"

definition initial_registers :: "u32 \<Rightarrow> u32 \<Rightarrow> u32 \<Rightarrow> u32 \<Rightarrow> u32 \<Rightarrow> registers" where
  "initial_registers mode start entry stack ustack =
     (if mode = PROCESS_KERNEL then
        zero_registers\<lparr>r_gs := KERNEL_DS, r_fs := KERNEL_DS, r_es := KERNEL_DS, r_ds := KERNEL_DS,
          r_eip := start, r_cs := KERNEL_CS, r_eflags := 0x202, r_esp := stack + KERNEL_STACK_SIZE\<rparr>
      else
        zero_registers\<lparr>r_gs := USER_DS, r_fs := USER_DS, r_es := USER_DS, r_ds := USER_DS,
          r_eip := entry, r_cs := USER_CS, r_eflags := 0x202, r_esp := stack + KERNEL_STACK_SIZE,
          r_user_esp := ustack + 4096, r_user_ss := USER_DS\<rparr>)"

definition init_process :: "u32 \<Rightarrow> u32 \<Rightarrow> u32 \<Rightarrow> u32 \<Rightarrow> u32 \<Rightarrow> 'a sched_scheme \<Rightarrow> ('a sched_scheme, u32) outcome" where
  "init_process pro entry mode stack ustack s =
     (let r = stack_frame stack in
      bind_out (set_proc pro (\<lambda>p. p\<lparr>regs := r, kernel_stack := stack,
          kernel_stack_to := stack + KERNEL_STACK_SIZE, pid := ucast (process_number s),
          pstate := PROCESS_READY, wake := 0, pnext := 0, pentry := entry\<rparr>) s) (\<lambda>s _.
      let s = s\<lparr>process_number := process_number s + 1\<rparr> in
      bind_out (set_regs r (\<lambda>_. initial_registers mode (addr_process_entry s) entry stack ustack) s) (\<lambda>s _.
      bind_out (set_proc pro (\<lambda>p. p\<lparr>parent := current_process s\<rparr>) s) (\<lambda>s _.
      bind_out (add_process pro s) (\<lambda>s _. Ret s pro)))))"

definition create_process :: "u32 \<Rightarrow> u32 \<Rightarrow> 'a sched_scheme \<Rightarrow> ('a sched_scheme, u32) outcome" where
  "create_process entry mode s =
     bind_out (kmalloc sizeof_process (PAGE_PRESENT OR PAGE_WRITE) s) (\<lambda>s pro.
     if pro = 0 then Ret s 0
     else bind_out (allocate_pages_contig (uint (KERNEL_STACK_SIZE div 4096)) (PAGE_PRESENT OR PAGE_WRITE) s) (\<lambda>s stack.
     if stack = 0 then bind_out (kfree pro s) (\<lambda>s _. Ret s 0)
     else if mode = PROCESS_USER then
       bind_out (allocate_page (PAGE_PRESENT OR PAGE_WRITE OR PAGE_USER) s) (\<lambda>s ustack.
       if ustack = 0 then
         bind_out (free_page stack s) (\<lambda>s _. bind_out (kfree pro s) (\<lambda>s _. Ret s 0))
       else
         bind_out (set_proc pro (\<lambda>p. p\<lparr>user_stack := ustack\<rparr>) s) (\<lambda>s _.
           init_process pro entry mode stack ustack s))
     else init_process pro entry mode stack 0 s))"

section \<open>Context switch\<close>

definition copy_context :: "registers \<Rightarrow> registers \<Rightarrow> registers" where
  "copy_context r old =
     (let new = old\<lparr>r_gs := r_gs r, r_fs := r_fs r, r_es := r_es r, r_ds := r_ds r, r_edi := r_edi r,
        r_esi := r_esi r, r_ebp := r_ebp r, r_esp := r_esp r, r_ebx := r_ebx r, r_edx := r_edx r,
        r_ecx := r_ecx r, r_eax := r_eax r, r_eip := r_eip r, r_cs := r_cs r, r_eflags := r_eflags r\<rparr>
      in if r_cs r AND 3 = 3 then new\<lparr>r_user_esp := r_user_esp r, r_user_ss := r_user_ss r\<rparr> else new)"

definition save_context :: "u32 \<Rightarrow> 'a sched_scheme \<Rightarrow> ('a sched_scheme, unit) outcome" where
  "save_context r s =
     (if current_process s = 0 then Ret s ()
      else bind_out (get_proc (current_process s) s) (\<lambda>s p.
        if regs p = 0 then Ret s ()
        else bind_out (get_regs r s) (\<lambda>s x. set_regs (regs p) (copy_context x) s)))"

text \<open>restore_esp.asm pops the frame and never comes back.\<close>

definition restore_esp :: "u32 \<Rightarrow> 'a sched_scheme \<Rightarrow> ('a sched_scheme, 'b) outcome" where
  "restore_esp p s =
     bind_out (get_proc p s) (\<lambda>s x. bind_out (touch (regs x) s) (\<lambda>s _. Stop s (Resume (regs x))))"

definition context_switch :: "u32 \<Rightarrow> u32 \<Rightarrow> 'a sched_scheme \<Rightarrow> ('a sched_scheme, unit) outcome" where
  "context_switch r p s =
     bind_out (save_context r s) (\<lambda>s _.
       let s = s\<lparr>current_process := p\<rparr> in
       bind_out (get_proc p s) (\<lambda>s x.
         restore_esp p (s\<lparr>tss := (tss s)\<lparr>esp0 := kernel_stack_to x\<rparr>\<rparr>)))"

definition set_kernel_stack :: "u32 \<Rightarrow> 'a sched_scheme \<Rightarrow> ('a sched_scheme, unit) outcome" where
  "set_kernel_stack p s =
     bind_out (get_proc p s) (\<lambda>s x. Ret (s\<lparr>tss := (tss s)\<lparr>esp0 := kernel_stack x + 4096\<rparr>\<rparr>) ())"

section \<open>Scheduling\<close>

text \<open>The two loops of \<open>schedule\<close>: behind the current process, then from the front up to it.
  Each returns \<open>stop\<close>, which the first loop takes as the end of the list.\<close>

definition ready_hit :: "u32 \<Rightarrow> 'a sched_scheme \<Rightarrow> u32 \<Rightarrow> ('a sched_scheme, u32) outcome option" where
  "ready_hit stop s p =
     (if p = stop then Some (Ret s 0)
      else if translate s p = None then Some (Stop s (Page_fault p))
      else if pstate (procs s p) = PROCESS_READY then Some (Ret s p) else None)"

partial_function (option) ready_loop ::
  "u32 \<Rightarrow> 'a sched_scheme \<Rightarrow> u32 \<Rightarrow> ('a sched_scheme, u32) outcome option" where
  "ready_loop stop s p =
     (case ready_hit stop s p of Some r \<Rightarrow> Some r | None \<Rightarrow> ready_loop stop s (next_proc s p))"

definition schedule :: "'a sched_scheme \<Rightarrow> ('a sched_scheme, u32) outcome" where
  "schedule s =
     bind_out (get_proc (current_process s) s) (\<lambda>s cur.
     bind_out (run_loop s (ready_loop 0 s (pnext cur))) (\<lambda>s found.
       if found \<noteq> 0 then Ret s found
       else run_loop s (ready_loop (current_process s) s (process_list s))))"

text \<open>kernel/process.c declares \<open>ticks\<close> as a signed integer, and the comparison is signed.\<close>

definition wake_one :: "u32 \<Rightarrow> 'a sched_scheme \<Rightarrow> ('a sched_scheme, unit) outcome" where
  "wake_one p s =
     bind_out (get_proc p s) (\<lambda>s x.
       Ret (if pstate x = PROCESS_BLOCKED \<and> wake x \<le>s ticks s
            then update_proc p (\<lambda>x. x\<lparr>pstate := PROCESS_READY\<rparr>) s else s) ())"

partial_function (option) wake_loop :: "'a sched_scheme \<Rightarrow> u32 \<Rightarrow> ('a sched_scheme, unit) outcome option" where
  "wake_loop s p =
     (if p = 0 then Some (Ret s ()) else
        (case wake_one p s of Ret s u \<Rightarrow> wake_loop s (next_proc s p) | Stop s r \<Rightarrow> Some (Stop s r)))"

definition wake_processes :: "'a sched_scheme \<Rightarrow> ('a sched_scheme, unit) outcome" where
  "wake_processes s = run_loop s (wake_loop s (process_list s))"

section \<open>Exit\<close>

text \<open>\<open>cli; hlt\<close>: the processor stays halted.\<close>

definition panic :: "u8 list \<Rightarrow> 'a screen_scheme \<Rightarrow> ('a screen_scheme, 'b) outcome" where
  "panic msg s = Stop (hlt (cli (kprint msg s))) Halted"

definition exit_process :: "'a sched_scheme \<Rightarrow> ('a sched_scheme, unit) outcome" where
  "exit_process s =
     (let dead = current_process s in
      bind_out (set_proc dead (\<lambda>p. p\<lparr>pstate := PROCESS_ZOMBIE\<rparr>) s) (\<lambda>s _.
      bind_out (get_proc dead s) (\<lambda>s d.
      bind_out (if parent d \<noteq> 0 then set_proc (parent d) (\<lambda>p. p\<lparr>pstate := PROCESS_READY\<rparr>) s
                else Ret s ()) (\<lambda>s _.
      bind_out (schedule s) (\<lambda>s p.
        if p = 0 \<or> p = dead then panic (str_bytes ''PANIC: no ready process after exit'' @ [10]) s
        else
          let s = (if p \<noteq> current_process s then s\<lparr>current_process := p\<rparr> else s)
          in restore_esp p s)))))"

text \<open>The code at the entry point of a process is a parameter.\<close>

definition process_entry ::
  "(u32 \<Rightarrow> 'a sched_scheme \<Rightarrow> ('a sched_scheme, unit) outcome) \<Rightarrow> 'a sched_scheme \<Rightarrow> ('a sched_scheme, unit) outcome" where
  "process_entry call s =
     bind_out (get_proc (current_process s) s) (\<lambda>s p.
       bind_out (call (pentry p) s) (\<lambda>s _. exit_process s))"

text \<open>The first \<open>n\<close> rounds of the endless loop of \<open>process_test\<close>.\<close>

definition process_test :: "nat \<Rightarrow> 'a screen_scheme \<Rightarrow> ('a screen_scheme, unit) outcome" where
  "process_test n s = rounds n (\<lambda>_ s. Ret (kprint (str_bytes ''starint process'') s) ()) () s"

definition boot_sched :: sched where
  "boot_sched = heap.extend boot_heap
     (sched.fields (\<lambda>_. \<lparr>pid = 0, proc_page_directory = 0, kernel_stack = 0, kernel_stack_to = 0, regs = 0,
        pstate = PROCESS_READY, exit_code = 0, pentry = 0, wake = 0, pnext = 0, parent = 0, user_stack = 0\<rparr>)
      (\<lambda>_. zero_registers) 0 0 1 0x1500)"

section \<open>The list of processes\<close>

definition plist :: "'a sched_scheme \<Rightarrow> u32 list \<Rightarrow> bool" where
  "plist s ps \<longleftrightarrow> chain (next_proc s) (process_list s) ps \<and> (\<forall>p \<in> set ps. translate s p \<noteq> None)"

lemma plistD:
  assumes "plist s ps"
  shows "chain (next_proc s) (process_list s) ps" "p \<in> set ps \<Longrightarrow> translate s p \<noteq> None"
    "distinct ps" "0 \<notin> set ps"
proof -
  show c: "chain (next_proc s) (process_list s) ps" using assms by (simp add: plist_def)
  show "p \<in> set ps \<Longrightarrow> translate s p \<noteq> None" using assms by (simp add: plist_def)
  show "distinct ps" using chain_distinct [OF c] .
  show "0 \<notin> set ps" using chain_nonnull [OF c] .
qed

lemma translate_sched [simp]:
  "translate (s\<lparr>procs := m\<rparr>) v = translate s v" "translate (s\<lparr>reg_mem := rm\<rparr>) v = translate s v"
  "translate (s\<lparr>process_list := q\<rparr>) v = translate s v" "translate (s\<lparr>current_process := q\<rparr>) v = translate s v"
  "translate (s\<lparr>process_number := n\<rparr>) v = translate s v" "translate (s\<lparr>tss := x\<rparr>) v = translate s v"
  by (simp_all add: translate_def pte_addr_def)

lemma translate_updates [simp]:
  "translate (update_proc p f s) v = translate s v" "translate (update_regs r g s) v = translate s v"
  by (simp_all add: update_proc_def update_regs_def)

lemma update_fields [simp]:
  "procs (update_proc p f s) = (procs s)(p := f (procs s p))" "reg_mem (update_proc p f s) = reg_mem s"
  "process_list (update_proc p f s) = process_list s" "current_process (update_proc p f s) = current_process s"
  "process_number (update_proc p f s) = process_number s" "tss (update_proc p f s) = tss s"
  "ticks (update_proc p f s) = ticks s" "addr_process_entry (update_proc p f s) = addr_process_entry s"
  "procs (update_regs r g s) = procs s" "reg_mem (update_regs r g s) = (reg_mem s)(r := g (reg_mem s r))"
  "process_list (update_regs r g s) = process_list s" "current_process (update_regs r g s) = current_process s"
  "process_number (update_regs r g s) = process_number s" "tss (update_regs r g s) = tss s"
  "addr_process_entry (update_regs r g s) = addr_process_entry s"
  by (simp_all add: update_proc_def update_regs_def)

text \<open>Everything below the process structures: memory, page tables and devices.\<close>

definition machine :: "'a sched_scheme \<Rightarrow> heap" where
  "machine s = heap.truncate s"

lemma machine_updates [simp]:
  "machine (update_proc p f s) = machine s" "machine (update_regs r g s) = machine s"
  "machine (s\<lparr>process_list := q\<rparr>) = machine s" "machine (s\<lparr>current_process := q\<rparr>) = machine s"
  "machine (s\<lparr>process_number := n\<rparr>) = machine s"
  by (simp_all add: machine_def update_proc_def update_regs_def heap.defs)

lemma machine_parts:
  assumes "machine s' = machine s"
  shows "ram s' = ram s" "page_directory s' = page_directory s" "ptab s' = ptab s" "paging_on s' = paging_on s"
    "mm_map s' = mm_map s" "mm_entry s' = mm_entry s" "translate s' v = translate s v"
  using assms by (simp_all add: machine_def heap.defs translate_def pte_addr_def)

lemma touch_mapped: "translate s p \<noteq> None \<Longrightarrow> touch p s = Ret s ()"
  by (simp add: touch_def)

lemma access_mapped:
  "translate s p \<noteq> None \<Longrightarrow> get_proc p s = Ret s (procs s p)"
  "translate s p \<noteq> None \<Longrightarrow> set_proc p f s = Ret (update_proc p f s) ()"
  "translate s p \<noteq> None \<Longrightarrow> get_regs p s = Ret s (reg_mem s p)"
  "translate s p \<noteq> None \<Longrightarrow> set_regs p g s = Ret (update_regs p g s) ()"
  by (simp_all add: get_proc_def set_proc_def get_regs_def set_regs_def touch_mapped)

text \<open>A state with the same links has the same list.\<close>

lemma plist_cong:
  assumes "\<And>p. p \<in> set ps \<Longrightarrow> next_proc s' p = next_proc s p" "process_list s' = process_list s"
    "\<And>p. p \<in> set ps \<Longrightarrow> translate s p \<noteq> None \<Longrightarrow> translate s' p \<noteq> None"
  shows "plist s ps \<Longrightarrow> plist s' ps"
  using chain_cong [of ps "next_proc s'" "next_proc s" "process_list s"] assms by (simp add: plist_def)

interpretation find_search: pointer_search "find_loop pro" next_proc "find_hit pro" for pro
  by unfold_locales (rule find_loop.simps)

interpretation last_search: pointer_search last_loop next_proc last_hit
  by unfold_locales (rule last_loop.simps)

interpretation ready_search: pointer_search "ready_loop stop" next_proc "ready_hit stop" for stop
  by unfold_locales (rule ready_loop.simps)

lemma find_process_ok:
  assumes "plist s ps"
  shows "find_process pro s = Ret s (if pro \<in> set ps then pro else 0)"
proof -
  have "first_hit (find_hit pro s) (Ret s 0) as = Ret s (if pro \<in> set as then pro else 0)"
    if "set as \<subseteq> set ps" for as
    using that
  proof (induction as)
    case (Cons a as)
    then have "translate s a \<noteq> None" "a \<noteq> 0" using plistD(2,4) [OF assms] by auto
    with Cons show ?case by (auto simp: find_hit_def)
  qed simp
  moreover have "find_hit pro s 0 = Some (Ret s 0)" by (simp add: find_hit_def)
  ultimately show ?thesis
    using find_search.search_chain [OF plistD(1) [OF assms]] by (simp add: find_process_def)
qed

lemma is_valid_process_ptr_ok:
  "plist s ps \<Longrightarrow> is_valid_process_ptr pro s = Ret s (pro \<in> set ps)"
  using plistD(4) by (auto simp: is_valid_process_ptr_def find_process_ok)

lemma last_loop_ok:
  assumes "plist s (xs @ [z])"
  shows "last_loop s (process_list s) = Some (Ret s z)"
proof -
  have c: "chain (next_proc s) (process_list s) (xs @ [z])" using plistD(1) [OF assms] .
  then have pa: "path (next_proc s) (process_list s) xs z" and z: "next_proc s z = 0"
    by (auto simp: chain_append)
  have "last_hit s z = Some (Ret s z)" using plistD(2) [OF assms, of z] z by (auto simp: last_hit_def)
  then have "last_loop s (process_list s) = Some (first_hit (last_hit s) (Ret s z) xs)"
    by (rule last_search.search_path [OF pa])
  moreover have "first_hit (last_hit s) (Ret s z) as = Ret s z"
    if "set as \<subseteq> set xs" "\<forall>a \<in> set as. next_proc s a \<noteq> 0" for as
    using that plistD(2) [OF assms] by (induction as) (auto simp: last_hit_def split: if_splits)
  moreover have "next_proc s a \<noteq> 0" if a: "a \<in> set xs" for a
  proof -
    obtain us vs where xs: "xs = us @ a # vs" using a by (meson split_list)
    have "chain (next_proc s) (next_proc s a) (vs @ [z])"
      using c chain_tail_at [of "next_proc s" "process_list s" us a "vs @ [z]"] unfolding xs by simp
    then show ?thesis by (cases vs) auto
  qed
  ultimately show ?thesis by simp
qed

lemma add_process_ok:
  assumes pl: "plist s ps" and p: "pro \<notin> set ps" "pro \<noteq> 0" "translate s pro \<noteq> None"
  obtains s' where "add_process pro s = Ret s' ()" "plist s' (ps @ [pro])"
    "current_process s' = (if ps = [] then pro else current_process s)"
    "\<And>q. procs s' q = (procs s q)\<lparr>pnext := pnext (procs s' q)\<rparr>" "reg_mem s' = reg_mem s"
    "process_number s' = process_number s" "machine s' = machine s"
proof -
  let ?s1 = "update_proc pro (\<lambda>p. p\<lparr>pnext := 0\<rparr>) s"
  have pl1: "plist ?s1 ps" by (rule plist_cong [OF _ _ _ pl]) (use p(1) in auto)
  have s1: "set_proc pro (\<lambda>p. p\<lparr>pnext := 0\<rparr>) s = Ret ?s1 ()" using p(3) by (simp add: access_mapped)
  show ?thesis
  proof (cases ps rule: rev_cases)
    case Nil
    then have "process_list ?s1 = 0" using plistD(1) [OF pl] by simp
    then have "add_process pro s = Ret (?s1\<lparr>process_list := pro, current_process := pro\<rparr>) ()"
      using s1 by (simp add: add_process_def)
    moreover have "plist (?s1\<lparr>process_list := pro, current_process := pro\<rparr>) (ps @ [pro])"
      using Nil p by (simp add: plist_def)
    ultimately show ?thesis using that Nil by simp
  next
    case (snoc xs z)
    let ?s2 = "update_proc z (\<lambda>p. p\<lparr>pnext := pro\<rparr>) ?s1"
    have h: "process_list ?s1 \<noteq> 0" using plistD(1) [OF pl1] snoc by (cases xs) auto
    have z: "translate ?s1 z \<noteq> None" "z \<noteq> pro" "z \<notin> set xs"
      using plistD(2,3) [OF pl1] snoc p(1) by auto
    have a: "add_process pro s = Ret ?s2 ()"
      using s1 h z last_loop_ok [of ?s1 xs z] pl1 snoc by (simp add: add_process_def access_mapped)
    have "chain (next_proc ?s2) (process_list ?s2) (xs @ z # [pro])"
    proof (rule chain_set_next)
      show "chain (next_proc ?s1) (process_list ?s2) (xs @ z # [])" using plistD(1) [OF pl1] snoc by simp
      show "chain (next_proc ?s2) (next_proc ?s2 z) [pro]" using p(2) z(2) by simp
      show "next_proc ?s2 a = next_proc ?s1 a" if "a \<in> set xs" for a using that z(3) by auto
    qed
    then have "plist ?s2 (ps @ [pro])" using snoc p(3) plistD(2) [OF pl] by (simp add: plist_def)
    then show ?thesis using that [OF a] snoc z(2) by simp
  qed
qed

lemma remove_loop_found:
  assumes "plist s (xs @ p # ys)"
  shows "remove_process_list p s = remove_process p
    (if xs = [] then s\<lparr>process_list := next_proc s p\<rparr>
     else update_proc (last xs) (\<lambda>q. q\<lparr>pnext := next_proc s p\<rparr>) s)"
proof -
  note D = plistD [OF assms]
  have "remove_loop p s pre cur = Some (remove_process p
      (if as = [] then (if pre = 0 then s\<lparr>process_list := next_proc s p\<rparr>
         else update_proc pre (\<lambda>q. q\<lparr>pnext := next_proc s p\<rparr>) s)
       else update_proc (last as) (\<lambda>q. q\<lparr>pnext := next_proc s p\<rparr>) s))"
    if "path (next_proc s) cur as p" "set as \<subseteq> set xs" "pre \<noteq> 0 \<longrightarrow> pre \<in> set xs" for pre cur as
    using that
  proof (induction as arbitrary: pre cur)
    case Nil
    have "p \<noteq> 0" "translate s p \<noteq> None" "pre \<noteq> 0 \<longrightarrow> translate s pre \<noteq> None"
      using D(2,4) Nil(3) by auto
    then show ?case using Nil(1) by (subst remove_loop.simps) (auto simp: access_mapped)
  next
    case (Cons a as)
    have a: "a \<in> set xs" "cur = a" "a \<noteq> 0" using Cons.prems by simp_all
    then have "translate s a \<noteq> None" "a \<noteq> p" using D(2,3) by auto
    then have "remove_loop p s pre cur = remove_loop p s a (next_proc s a)"
      using a by (subst remove_loop.simps) auto
    with Cons.IH [of "next_proc s a" a] Cons.prems a show ?case by simp
  qed
  moreover have "path (next_proc s) (process_list s) xs p" using D(1) by (auto simp: chain_append)
  ultimately show ?thesis by (simp add: remove_process_list_def)
qed

lemma remove_loop_list:
  assumes "plist s (xs @ p # ys)"
  shows "plist (if xs = [] then s\<lparr>process_list := next_proc s p\<rparr>
     else update_proc (last xs) (\<lambda>q. q\<lparr>pnext := next_proc s p\<rparr>) s) (xs @ ys)"
proof (cases xs rule: rev_cases)
  case Nil
  then show ?thesis using plistD [OF assms] by (simp add: plist_def)
next
  case (snoc us z)
  note D = plistD [OF assms]
  let ?s = "update_proc z (\<lambda>q. q\<lparr>pnext := next_proc s p\<rparr>) s"
  have "z \<notin> set us" "z \<notin> set ys" using D(3) snoc by auto
  then have "next_proc ?s a = next_proc s a" if "a \<in> set ys" for a using that by auto
  then have "chain (next_proc ?s) (next_proc s p) ys = chain (next_proc s) (next_proc s p) ys"
    by (rule chain_cong)
  then have "chain (next_proc ?s) (next_proc s p) ys" using chain_tail_at [OF D(1)] by simp
  moreover have "next_proc ?s z = next_proc s p" by simp
  ultimately have t: "chain (next_proc ?s) (next_proc ?s z) ys" by (simp only:)
  have c: "chain (next_proc s) (process_list s) (us @ z # p # ys)" using D(1) snoc by simp
  have "chain (next_proc ?s) (process_list s) (us @ z # ys)"
    by (rule chain_set_next [OF c t]) (use \<open>z \<notin> set us\<close> in auto)
  then show ?thesis using D(2) snoc by (simp add: plist_def)
qed

lemma remove_loop_unknown:
  assumes "plist s ps" "p \<notin> set ps"
  shows "remove_process_list p s = Ret s ()"
proof -
  have "remove_loop p s pre cur = Some (Ret s ())"
    if "chain (next_proc s) cur as" "set as \<subseteq> set ps" for pre cur as
    using that
  proof (induction as arbitrary: pre cur)
    case Nil
    then show ?case by (subst remove_loop.simps) simp
  next
    case (Cons a as)
    then have "a \<noteq> p" "translate s a \<noteq> None" "cur = a" "a \<noteq> 0" using assms plistD(2) [OF assms(1)] by auto
    with Cons show ?case by (subst remove_loop.simps) auto
  qed
  with plistD(1) [OF assms(1)] show ?thesis by (simp add: remove_process_list_def)
qed

section \<open>The scheduler\<close>

abbreviation ready :: "'a sched_scheme \<Rightarrow> u32 \<Rightarrow> bool" where
  "ready s p \<equiv> pstate (procs s p) = PROCESS_READY"

definition first_ready :: "'a sched_scheme \<Rightarrow> u32 list \<Rightarrow> u32" where
  "first_ready s ps = (case find (ready s) ps of Some p \<Rightarrow> p | None \<Rightarrow> 0)"

lemma first_ready_Cons [simp]:
  "first_ready s [] = 0" "first_ready s (p # ps) = (if ready s p then p else first_ready s ps)"
  by (simp_all add: first_ready_def)

lemma first_ready_append:
  "first_ready s (xs @ ys) = (if \<exists>p \<in> set xs. ready s p then first_ready s xs else first_ready s ys)"
  by (induction xs) auto

lemma first_ready_zero: "0 \<notin> set ps \<Longrightarrow> first_ready s ps = 0 \<longleftrightarrow> (\<forall>p \<in> set ps. \<not> ready s p)"
  by (induction ps) auto

lemma first_ready_in:
  "first_ready s ps \<noteq> 0 \<Longrightarrow> first_ready s ps \<in> set ps \<and> ready s (first_ready s ps)"
  by (induction ps) auto

lemma ready_loop_path:
  assumes "path (next_proc s) p as stop" "\<forall>a \<in> set as. translate s a \<noteq> None \<and> a \<noteq> stop"
  shows "ready_loop stop s p = Some (Ret s (first_ready s as))"
proof -
  have "ready_hit stop s stop = Some (Ret s 0)" by (simp add: ready_hit_def)
  then have "ready_loop stop s p = Some (first_hit (ready_hit stop s) (Ret s 0) as)"
    by (rule ready_search.search_path [OF assms(1)])
  moreover have "first_hit (ready_hit stop s) (Ret s 0) as = Ret s (first_ready s as)"
    using assms(2) by (induction as) (auto simp: ready_hit_def)
  ultimately show ?thesis by simp
qed

text \<open>\<open>schedule\<close> is the first ready process of the list rotated to start behind the current
  one; the current process itself is never considered.\<close>

lemma schedule_ok:
  assumes pl: "plist s (xs @ c # ys)" and c: "current_process s = c"
  shows "schedule s = Ret s (first_ready s (ys @ xs))"
proof -
  note D = plistD [OF pl]
  have "path (next_proc s) (next_proc s c) ys 0" using chain_tail_at [OF D(1)] by (simp add: chain_def)
  then have l1: "ready_loop 0 s (next_proc s c) = Some (Ret s (first_ready s ys))"
    by (rule ready_loop_path) (use D in auto)
  have "path (next_proc s) (process_list s) xs c" using D(1) by (auto simp: chain_append)
  then have l2: "ready_loop c s (process_list s) = Some (Ret s (first_ready s xs))"
    by (rule ready_loop_path) (use D in auto)
  have z: "first_ready s ys = 0 \<longleftrightarrow> (\<forall>p \<in> set ys. \<not> ready s p)" using D(4) by (intro first_ready_zero) simp
  have "schedule s = Ret s (if first_ready s ys \<noteq> 0 then first_ready s ys else first_ready s xs)"
    using D(2) [of c] c l1 l2 by (simp add: schedule_def access_mapped)
  then show ?thesis using z by (auto simp: first_ready_append)
qed

lemma schedule_chosen:
  assumes "plist s ps" "current_process s \<in> set ps"
  obtains q where "schedule s = Ret s q" "q = 0 \<longleftrightarrow> (\<forall>p \<in> set ps. p \<noteq> current_process s \<longrightarrow> \<not> ready s p)"
    "q \<noteq> 0 \<Longrightarrow> q \<in> set ps \<and> q \<noteq> current_process s \<and> ready s q"
proof -
  obtain xs ys where ps: "ps = xs @ current_process s # ys" using assms(2) by (meson split_list)
  note D = plistD [OF assms(1)]
  have s: "schedule s = Ret s (first_ready s (ys @ xs))"
    using schedule_ok [of s xs "current_process s" ys] assms(1) ps by simp
  have "first_ready s (ys @ xs) = 0 \<longleftrightarrow> (\<forall>p \<in> set (ys @ xs). \<not> ready s p)"
    using D(4) ps by (intro first_ready_zero) simp
  moreover have "set (ys @ xs) = set ps - {current_process s}" using D(3) ps by auto
  ultimately show ?thesis using that [OF s] first_ready_in [of s "ys @ xs"] by auto
qed

section \<open>Waking up\<close>

interpretation wake_sweep: pointer_sweep wake_loop next_proc wake_one
proof unfold_locales
  show "wake_loop h p = (if p = 0 then Some (Ret h ()) else
      (case wake_one p h of Ret h' u \<Rightarrow> wake_loop h' (next_proc h' p) | Stop h' r \<Rightarrow> Some (Stop h' r)))"
    for h :: "'a sched_scheme" and p by (rule wake_loop.simps)
  show "next_proc h' = next_proc h" if "wake_one p h = Ret h' u" for p h u and h' :: "'a sched_scheme"
    using that by (auto simp: wake_one_def get_proc_def touch_def fun_eq_iff split: if_splits)
qed

definition due :: "'a sched_scheme \<Rightarrow> u32 \<Rightarrow> bool" where
  "due s p \<longleftrightarrow> pstate (procs s p) = PROCESS_BLOCKED \<and> wake (procs s p) \<le>s ticks s"

definition woken :: "u32 set \<Rightarrow> 'a sched_scheme \<Rightarrow> 'a sched_scheme" where
  "woken P s = s\<lparr>procs := (\<lambda>p. if p \<in> P \<and> due s p then (procs s p)\<lparr>pstate := PROCESS_READY\<rparr> else procs s p)\<rparr>"

text \<open>Every blocked process of the list whose time has come becomes ready, and nothing else
  changes.\<close>

lemma wake_processes_ok:
  assumes pl: "plist s ps"
  shows "wake_processes s = Ret (woken (set ps) s) ()"
proof -
  let ?f = "\<lambda>as. fold (\<lambda>a out. bind_out out (\<lambda>s _. wake_one a s)) as"
  have one: "wake_one a s = Ret (woken {a} s) ()" if "translate s a \<noteq> None" for a and s :: "'a sched_scheme"
    using that by (auto simp: wake_one_def access_mapped woken_def due_def update_proc_def fun_eq_iff
        intro!: arg_cong [where f = "\<lambda>m. procs_update m s"])
  have "?f as (Ret s ()) = Ret (woken (set as) s) ()"
    if "\<forall>a \<in> set as. translate s a \<noteq> None" "distinct as" for as and s :: "'a sched_scheme"
    using that
  proof (induction as arbitrary: s)
    case Nil
    then show ?case by (simp add: woken_def)
  next
    case (Cons a as)
    have "?f as (Ret (woken {a} s) ()) = Ret (woken (set as) (woken {a} s)) ()"
      by (rule Cons.IH) (use Cons.prems in \<open>simp_all add: woken_def\<close>)
    moreover have "woken (set as) (woken {a} s) = woken (set (a # as)) s"
      using Cons.prems by (auto simp: woken_def due_def fun_eq_iff intro!: arg_cong [where f = "\<lambda>m. procs_update m s"])
    ultimately show ?case using one [of s a] Cons.prems by simp
  qed
  with plistD [OF pl] show ?thesis
    by (simp add: wake_processes_def wake_sweep.sweep_chain [OF plistD(1) [OF pl]])
qed

lemma woken_plist: "plist s ps \<Longrightarrow> plist (woken P s) ps"
  by (rule plist_cong) (auto simp: woken_def)

lemma woken_fields [simp]:
  "current_process (woken P s) = current_process s" "reg_mem (woken P s) = reg_mem s"
  "translate (woken P s) v = translate s v" "regs (procs (woken P s) p) = regs (procs s p)"
  "kernel_stack_to (procs (woken P s) p) = kernel_stack_to (procs s p)" "ticks (woken P s) = ticks s"
  by (simp_all add: woken_def)

lemma woken_ready: "ready (woken P s) p \<longleftrightarrow> ready s p \<or> p \<in> P \<and> due s p"
  by (auto simp add: woken_def due_def)

section \<open>Saving and restoring a context\<close>

text \<open>A frame taken in user mode is copied whole; one taken in kernel mode has no user stack
  pointer on it and keeps the old one.\<close>

lemma copy_context_user: "r_cs x AND 3 = 3 \<Longrightarrow> copy_context x old = x"
  by (simp add: copy_context_def Let_def)

lemma copy_context_kernel:
  "r_cs x AND 3 \<noteq> 3 \<Longrightarrow> copy_context x old = x\<lparr>r_user_esp := r_user_esp old, r_user_ss := r_user_ss old\<rparr>"
  by (simp add: copy_context_def Let_def)

definition runnable :: "'a sched_scheme \<Rightarrow> u32 \<Rightarrow> bool" where
  "runnable s p \<longleftrightarrow> p \<noteq> 0 \<and> translate s p \<noteq> None \<and> regs (procs s p) \<noteq> 0 \<and> translate s (regs (procs s p)) \<noteq> None"

definition saved :: "u32 \<Rightarrow> 'a sched_scheme \<Rightarrow> 'a sched_scheme" where
  "saved r s = update_regs (regs (procs s (current_process s))) (copy_context (reg_mem s r)) s"

lemma save_context_ok:
  "runnable s (current_process s) \<Longrightarrow> translate s r \<noteq> None \<Longrightarrow> save_context r s = Ret (saved r s) ()"
  by (simp add: save_context_def runnable_def access_mapped saved_def)

lemma restore_esp_ok: "runnable s p \<Longrightarrow> restore_esp p s = Stop s (Resume (regs (procs s p)))"
  by (simp add: restore_esp_def runnable_def access_mapped touch_mapped)

definition switched :: "u32 \<Rightarrow> u32 \<Rightarrow> 'a sched_scheme \<Rightarrow> 'a sched_scheme" where
  "switched r p s = (saved r s)\<lparr>current_process := p, tss := (tss s)\<lparr>esp0 := kernel_stack_to (procs s p)\<rparr>\<rparr>"

lemma switched_fields [simp]:
  "current_process (switched r p s) = p" "procs (switched r p s) = procs s"
  "process_list (switched r p s) = process_list s" "translate (switched r p s) v = translate s v"
  "esp0 (tss (switched r p s)) = kernel_stack_to (procs s p)" "ticks (switched r p s) = ticks s"
  by (simp_all add: switched_def saved_def update_regs_def)

lemma switched_frame:
  "reg_mem (switched r p s) f =
     (if f = regs (procs s (current_process s)) then copy_context (reg_mem s r) (reg_mem s f) else reg_mem s f)"
  by (simp add: switched_def saved_def)

lemma context_switch_ok:
  assumes "runnable s (current_process s)" "translate s r \<noteq> None" "runnable s p"
  shows "context_switch r p s = Stop (switched r p s) (Resume (regs (procs s p)))"
proof -
  have "save_context r s = Ret (saved r s) ()" using save_context_ok [OF assms(1,2)] .
  then show ?thesis using assms(3)
    by (simp add: context_switch_def access_mapped restore_esp_def touch_mapped runnable_def switched_def)
      (simp add: saved_def update_regs_def access_mapped touch_mapped)
qed

text \<open>A process that was switched out in user mode and is switched back in resumes with
  exactly the registers it was interrupted with, whatever ran in between, as long as
  nothing else wrote its frame.\<close>

lemma switch_and_back:
  assumes "runnable s p" "current_process s = p" "translate s r \<noteq> None" "runnable s q" "r_cs (reg_mem s r) AND 3 = 3"
    and t: "reg_mem t (regs (procs s p)) = reg_mem (switched r q s) (regs (procs s p))"
    and u: "runnable t (current_process t)" "translate t r' \<noteq> None" "runnable t p"
      "regs (procs t p) = regs (procs s p)" "regs (procs t (current_process t)) \<noteq> regs (procs s p)"
  shows "\<exists>t'. context_switch r' p t = Stop t' (Resume (regs (procs s p))) \<and>
    reg_mem t' (regs (procs s p)) = reg_mem s r \<and> esp0 (tss t') = kernel_stack_to (procs t p)"
proof -
  have "reg_mem (switched r q s) (regs (procs s p)) = reg_mem s r"
    using assms(2,5) by (simp add: switched_frame copy_context_user)
  then show ?thesis using context_switch_ok [OF u(1-3)] t u(4,5) by (simp add: switched_frame)
qed

section \<open>Exit\<close>

definition buried :: "'a sched_scheme \<Rightarrow> 'a sched_scheme" where
  "buried s = (let c = current_process s; s = update_proc c (\<lambda>p. p\<lparr>pstate := PROCESS_ZOMBIE\<rparr>) s
     in if parent (procs s c) \<noteq> 0 then update_proc (parent (procs s c)) (\<lambda>p. p\<lparr>pstate := PROCESS_READY\<rparr>) s else s)"

lemma buried_fields [simp]:
  "translate (buried s) v = translate s v" "process_list (buried s) = process_list s"
  "current_process (buried s) = current_process s" "pnext (procs (buried s) p) = pnext (procs s p)"
  "regs (procs (buried s) p) = regs (procs s p)" "reg_mem (buried s) = reg_mem s" "tss (buried s) = tss s"
  by (simp_all add: buried_def Let_def)

lemma buried_state:
  "pstate (procs (buried s) p) =
     (if p = parent (procs s (current_process s)) \<and> p \<noteq> 0 then PROCESS_READY
      else if p = current_process s then PROCESS_ZOMBIE else pstate (procs s p))"
  by (simp add: buried_def Let_def)

lemma exit_process_steps:
  assumes pl: "plist s ps" and c: "current_process s \<in> set ps"
    and pa: "parent (procs s (current_process s)) \<noteq> 0 \<Longrightarrow> translate s (parent (procs s (current_process s))) \<noteq> None"
  shows "exit_process s = bind_out (schedule (buried s)) (\<lambda>s' p.
        if p = 0 \<or> p = current_process s then panic (str_bytes ''PANIC: no ready process after exit'' @ [10]) s'
        else restore_esp p (if p \<noteq> current_process s' then s'\<lparr>current_process := p\<rparr> else s'))"
proof -
  have t: "translate s (current_process s) \<noteq> None" using plistD(2) [OF pl c] .
  then show ?thesis using pa unfolding exit_process_def buried_def Let_def
    by (simp add: access_mapped)
qed

text \<open>The process that exits becomes a zombie and its parent becomes ready; the processor
  resumes another ready process of the list, or halts when there is none.\<close>

lemma exit_process_ok:
  assumes pl: "plist s ps" and c: "current_process s \<in> set ps"
    and pa: "parent (procs s (current_process s)) \<noteq> 0 \<Longrightarrow> translate s (parent (procs s (current_process s))) \<noteq> None"
    and run: "\<And>p. p \<in> set ps \<Longrightarrow> runnable s p"
  shows "(\<exists>q. q \<in> set ps \<and> q \<noteq> current_process s \<and> ready (buried s) q \<and>
      exit_process s = Stop ((buried s)\<lparr>current_process := q\<rparr>) (Resume (regs (procs s q)))) \<or>
    (\<forall>q \<in> set ps. q \<noteq> current_process s \<longrightarrow> \<not> ready (buried s) q) \<and>
      (\<exists>s'. exit_process s = Stop s' Halted)"
proof -
  have plb: "plist (buried s) ps" by (rule plist_cong [OF _ _ _ pl]) simp_all
  have cb: "current_process (buried s) \<in> set ps" using c by simp
  obtain q where q: "schedule (buried s) = Ret (buried s) q"
    "q = 0 \<longleftrightarrow> (\<forall>p \<in> set ps. p \<noteq> current_process (buried s) \<longrightarrow> \<not> ready (buried s) p)"
    "q \<noteq> 0 \<Longrightarrow> q \<in> set ps \<and> q \<noteq> current_process (buried s) \<and> ready (buried s) q"
    using schedule_chosen [OF plb cb] by metis
  show ?thesis
  proof (cases "q = 0")
    case True
    then have "\<exists>s'. exit_process s = Stop s' Halted"
      using exit_process_steps [OF pl c pa] q(1) by (simp add: panic_def)
    then show ?thesis using True q(2) by simp
  next
    case False
    note q' = q(3) [OF False]
    have "runnable ((buried s)\<lparr>current_process := q\<rparr>) q"
      using run [of q] q' by (simp add: runnable_def)
    then have "exit_process s = Stop ((buried s)\<lparr>current_process := q\<rparr>) (Resume (regs (procs s q)))"
      using exit_process_steps [OF pl c pa] q(1) q' False by (simp add: restore_esp_ok)
    then show ?thesis using q' by auto
  qed
qed

text \<open>\<open>exit_process\<close> resumes the other process with the stack of the dead one in the task
  state segment.\<close>

lemma exit_process_tss:
  assumes pl: "plist s ps" and c: "current_process s \<in> set ps"
    and pa: "parent (procs s (current_process s)) \<noteq> 0 \<Longrightarrow> translate s (parent (procs s (current_process s))) \<noteq> None"
    and run: "\<And>p. p \<in> set ps \<Longrightarrow> runnable s p" and r: "exit_process s = Stop s' (Resume f)"
  shows "tss s' = tss s"
  using exit_process_ok [OF pl c pa run] r by auto

section \<open>Creating a process\<close>

lemma heap_step_sched:
  assumes "heap_step s s'"
  shows "procs s' = procs s" "reg_mem s' = reg_mem s" "process_list s' = process_list s"
    "current_process s' = current_process s" "process_number s' = process_number s"
    "addr_process_entry s' = addr_process_entry s" "ticks s' = ticks s" "tss s' = tss s" "ram s' = ram s"
    "paging_on s' = paging_on s"
  using assms by (cases s, cases s', simp add: heap_step_def below_heap_def)+

lemma heap_plist:
  "heap_step s s' \<Longrightarrow> plist s ps \<Longrightarrow> (\<And>p. p \<in> set ps \<Longrightarrow> translate s' p \<noteq> None) \<Longrightarrow> plist s' ps"
  by (rule plist_cong) (simp_all add: heap_step_sched)

lemma init_process_ok:
  assumes pl: "plist s ps" and pro: "pro \<notin> set ps" "pro \<noteq> 0" "translate s pro \<noteq> None"
    and st: "translate s (stack_frame stack) \<noteq> None"
  obtains s' where "init_process pro entry mode stack ustack s = Ret s' pro" "plist s' (ps @ [pro])"
    "procs s' pro = (procs s pro)\<lparr>regs := stack_frame stack, kernel_stack := stack,
       kernel_stack_to := stack + KERNEL_STACK_SIZE, pid := ucast (process_number s), pstate := PROCESS_READY,
       wake := 0, pnext := 0, pentry := entry, parent := current_process s\<rparr>"
    "\<And>q. q \<noteq> pro \<Longrightarrow> procs s' q = (procs s q)\<lparr>pnext := next_proc s' q\<rparr>"
    "reg_mem s' = (reg_mem s)(stack_frame stack := initial_registers mode (addr_process_entry s) entry stack ustack)"
    "process_number s' = process_number s + 1"
    "current_process s' = (if ps = [] then pro else current_process s)" "machine s' = machine s"
proof -
  let ?f = "\<lambda>p. p\<lparr>regs := stack_frame stack, kernel_stack := stack,
          kernel_stack_to := stack + KERNEL_STACK_SIZE, pid := ucast (process_number s),
          pstate := PROCESS_READY, wake := 0, pnext := 0, pentry := entry\<rparr>"
  let ?s1 = "update_proc pro ?f s"
  let ?s2 = "?s1\<lparr>process_number := process_number s + 1\<rparr>"
  let ?x = "initial_registers mode (addr_process_entry s) entry stack ustack"
  let ?s3 = "update_regs (stack_frame stack) (\<lambda>_. ?x) ?s2"
  let ?s4 = "update_proc pro (\<lambda>p. p\<lparr>parent := current_process s\<rparr>) ?s3"
  have pl4: "plist ?s4 ps" by (rule plist_cong [OF _ _ _ pl]) (use pro(1) in auto)
  have t4: "translate ?s4 pro \<noteq> None" using pro(3) by simp
  obtain s' where s': "add_process pro ?s4 = Ret s' ()" "plist s' (ps @ [pro])"
    "current_process s' = (if ps = [] then pro else current_process ?s4)"
    "\<And>q. procs s' q = (procs ?s4 q)\<lparr>pnext := pnext (procs s' q)\<rparr>" "reg_mem s' = reg_mem ?s4"
    "process_number s' = process_number ?s4" "machine s' = machine ?s4"
    by (rule add_process_ok [OF pl4 pro(1,2) t4]) blast
  have 1: "set_proc pro ?f s = Ret ?s1 ()" by (rule access_mapped(2) [OF pro(3)])
  have 2: "set_regs (stack_frame stack) g ?s2 = Ret (update_regs (stack_frame stack) g ?s2) ()" for g
    by (rule access_mapped(4)) (use st in simp)
  have 3: "set_proc pro g ?s3 = Ret (update_proc pro g ?s3) ()" for g
    by (rule access_mapped(2)) (use pro(3) in simp)
  have f: "process_number ?s1 = process_number s" "addr_process_entry ?s2 = addr_process_entry s"
    "current_process ?s3 = current_process s" by simp_all
  have "init_process pro entry mode stack ustack s = Ret s' pro"
    unfolding init_process_def Let_def 1 bind_out.simps f(1) 2 f(2) 3 f(3) s'(1) ..
  moreover have n0: "next_proc s' pro = 0"
  proof -
    have "chain (next_proc s') (process_list s') (ps @ pro # [])" using plistD(1) [OF s'(2)] by simp
    then show ?thesis using chain_tail_at by fastforce
  qed
  have "procs s' pro = (procs s pro)\<lparr>regs := stack_frame stack, kernel_stack := stack,
       kernel_stack_to := stack + KERNEL_STACK_SIZE, pid := ucast (process_number s), pstate := PROCESS_READY,
       wake := 0, pnext := 0, pentry := entry, parent := current_process s\<rparr>"
    using s'(4) [of pro] unfolding n0 by simp
  moreover have "procs s' q = (procs s q)\<lparr>pnext := next_proc s' q\<rparr>" if "q \<noteq> pro" for q
    using s'(4) [of q] that by simp
  moreover have "reg_mem s' = (reg_mem s)(stack_frame stack := ?x)" unfolding s'(5) by simp
  moreover have "process_number s' = process_number s + 1" unfolding s'(6) by simp
  moreover have "current_process s' = (if ps = [] then pro else current_process s)" unfolding s'(3) by simp
  moreover have "machine s' = machine s" unfolding s'(7) by simp
  ultimately show ?thesis using that [OF _ s'(2)] by blast
qed

text \<open>The whole of \<open>create_process\<close> when its three allocations succeed. \<open>s3\<close> is the state
  after them.\<close>

definition allocations :: "u32 \<Rightarrow> 'a sched_scheme \<Rightarrow> u32 \<Rightarrow> u32 \<Rightarrow> u32 \<Rightarrow> 'a sched_scheme \<Rightarrow> bool" where
  "allocations mode s pro stack ustack s3 \<longleftrightarrow> (\<exists>s1 s2.
     kmalloc sizeof_process (PAGE_PRESENT OR PAGE_WRITE) s = Ret s1 pro \<and> pro \<noteq> 0 \<and>
     allocate_pages_contig 4 (PAGE_PRESENT OR PAGE_WRITE) s1 = Ret s2 stack \<and> stack \<noteq> 0 \<and>
     (if mode = PROCESS_USER
      then allocate_page (PAGE_PRESENT OR PAGE_WRITE OR PAGE_USER) s2 = Ret s3 ustack \<and> ustack \<noteq> 0
      else s3 = s2 \<and> ustack = 0))"

lemma allocations_step:
  assumes "allocations mode s pro stack ustack s3"
  shows "heap_step s s3"
proof -
  obtain s1 s2 where *: "kmalloc sizeof_process (PAGE_PRESENT OR PAGE_WRITE) s = Ret s1 pro"
    "allocate_pages_contig 4 (PAGE_PRESENT OR PAGE_WRITE) s1 = Ret s2 stack"
    "if mode = PROCESS_USER
      then allocate_page (PAGE_PRESENT OR PAGE_WRITE OR PAGE_USER) s2 = Ret s3 ustack \<and> ustack \<noteq> 0
      else s3 = s2 \<and> ustack = 0"
    using assms unfolding allocations_def by blast
  have "heap_step s s1" using kmalloc_step [of s sizeof_process "PAGE_PRESENT OR PAGE_WRITE"] *(1) by simp
  moreover have "heap_step s1 s2"
    using vm_heap_step [OF allocate_pages_contig_vm [of s1 4 "PAGE_PRESENT OR PAGE_WRITE"]] *(2) by simp
  moreover have "heap_step s2 s3"
    using vm_heap_step [OF allocate_page_vm [of s2 "PAGE_PRESENT OR PAGE_WRITE OR PAGE_USER"]] *(3) heap_frame.refl
    by (auto split: if_splits)
  ultimately show ?thesis using heap_frame.trans by blast
qed

lemma stack_pages: "uint (KERNEL_STACK_SIZE div 4096) = 4"
  by (simp add: KERNEL_STACK_SIZE_def)

lemma create_process_ok:
  assumes pl: "plist s ps" and a: "allocations mode s pro stack ustack s3"
    and pro: "pro \<notin> set ps" "translate s3 pro \<noteq> None" and st: "translate s3 (stack_frame stack) \<noteq> None"
    and keep: "\<And>p. p \<in> set ps \<Longrightarrow> translate s3 p \<noteq> None"
  obtains s' where "create_process entry mode s = Ret s' pro" "plist s' (ps @ [pro])"
    "pid (procs s' pro) = ucast (process_number s)" "pstate (procs s' pro) = PROCESS_READY"
    "parent (procs s' pro) = current_process s" "regs (procs s' pro) = stack_frame stack"
    "kernel_stack_to (procs s' pro) = stack + KERNEL_STACK_SIZE"
    "\<And>q. q \<noteq> pro \<Longrightarrow> procs s' q = (procs s q)\<lparr>pnext := next_proc s' q\<rparr>"
    "reg_mem s' = (reg_mem s)(stack_frame stack := initial_registers mode (addr_process_entry s) entry stack ustack)"
    "process_number s' = process_number s + 1"
    "current_process s' = (if ps = [] then pro else current_process s)"
    "mode = PROCESS_USER \<Longrightarrow> user_stack (procs s' pro) = ustack" "machine s' = machine s3"
proof -
  note same = heap_step_sched [OF allocations_step [OF a]]
  obtain s1 s2 where *: "kmalloc sizeof_process (PAGE_PRESENT OR PAGE_WRITE) s = Ret s1 pro" "pro \<noteq> 0"
    "allocate_pages_contig 4 (PAGE_PRESENT OR PAGE_WRITE) s1 = Ret s2 stack" "stack \<noteq> 0"
    "if mode = PROCESS_USER
      then allocate_page (PAGE_PRESENT OR PAGE_WRITE OR PAGE_USER) s2 = Ret s3 ustack \<and> ustack \<noteq> 0
      else s3 = s2 \<and> ustack = 0"
    using a unfolding allocations_def by blast
  define s4 where "s4 = (if mode = PROCESS_USER then update_proc pro (\<lambda>p. p\<lparr>user_stack := ustack\<rparr>) s3 else s3)"
  have c: "create_process entry mode s = init_process pro entry mode stack ustack s4"
    using *(5) access_mapped(2) [OF pro(2)] by (cases "mode = PROCESS_USER")
      (simp_all add: create_process_def stack_pages *(1-4) s4_def)
  have s4: "process_number s4 = process_number s" "addr_process_entry s4 = addr_process_entry s"
    "current_process s4 = current_process s" "reg_mem s4 = reg_mem s" "process_list s4 = process_list s"
    "\<And>v. translate s4 v = translate s3 v" "\<And>q. q \<noteq> pro \<Longrightarrow> procs s4 q = procs s q"
    "mode = PROCESS_USER \<Longrightarrow> user_stack (procs s4 pro) = ustack" "machine s4 = machine s3"
    using same by (cases "mode = PROCESS_USER"; simp add: s4_def)+
  have nx: "next_proc s4 p = next_proc s p" if "p \<in> set ps" for p
  proof -
    have "p \<noteq> pro" using that pro(1) by blast
    then show ?thesis using s4(7) by simp
  qed
  have pl4: "plist s4 ps"
    by (rule plist_cong [OF nx s4(5) _ pl]) (use s4(6) keep in simp_all)
  have t: "translate s4 pro \<noteq> None" "translate s4 (stack_frame stack) \<noteq> None" using pro(2) st s4(6) by simp_all
  obtain s' where s': "init_process pro entry mode stack ustack s4 = Ret s' pro" "plist s' (ps @ [pro])"
    "procs s' pro = (procs s4 pro)\<lparr>regs := stack_frame stack, kernel_stack := stack,
       kernel_stack_to := stack + KERNEL_STACK_SIZE, pid := ucast (process_number s4), pstate := PROCESS_READY,
       wake := 0, pnext := 0, pentry := entry, parent := current_process s4\<rparr>"
    "\<And>q. q \<noteq> pro \<Longrightarrow> procs s' q = (procs s4 q)\<lparr>pnext := next_proc s' q\<rparr>"
    "reg_mem s' = (reg_mem s4)(stack_frame stack := initial_registers mode (addr_process_entry s4) entry stack ustack)"
    "process_number s' = process_number s4 + 1"
    "current_process s' = (if ps = [] then pro else current_process s4)" "machine s' = machine s4"
    by (rule init_process_ok [OF pl4 pro(1) *(2) t]) blast
  show ?thesis
    by (rule that [OF c [unfolded s'(1)] s'(2)]) (use s' s4 in simp_all)
qed

text \<open>The error paths: without a stack the structure is given back, without a user stack
  the first page of the kernel stack and the structure are.\<close>

lemma create_process_no_stack:
  assumes "kmalloc sizeof_process (PAGE_PRESENT OR PAGE_WRITE) s = Ret s1 pro" "pro \<noteq> 0"
    "allocate_pages_contig 4 (PAGE_PRESENT OR PAGE_WRITE) s1 = Ret s2 0"
  shows "create_process entry mode s = bind_out (kfree pro s2) (\<lambda>s _. Ret s 0)"
  by (simp add: create_process_def stack_pages assms)

lemma create_process_no_user_stack:
  assumes "kmalloc sizeof_process (PAGE_PRESENT OR PAGE_WRITE) s = Ret s1 pro" "pro \<noteq> 0"
    "allocate_pages_contig 4 (PAGE_PRESENT OR PAGE_WRITE) s1 = Ret s2 stack" "stack \<noteq> 0"
    "allocate_page (PAGE_PRESENT OR PAGE_WRITE OR PAGE_USER) s2 = Ret s3 0"
  shows "create_process entry PROCESS_USER s =
    bind_out (free_page stack s3) (\<lambda>s _. bind_out (kfree pro s) (\<lambda>s _. Ret s 0))"
  by (simp add: create_process_def stack_pages assms)

end
