(* ===== verification/Elf.thy ===== *)
theory Elf
  imports Process
begin

text \<open>
  The ELF loader of kernel/elf.c and kernel/elf.h. The file is a sequence of bytes in
  memory, read through the page walk field by field and again at every use, as the code
  does. The lemmas characterise the files the checks accept, show that the page loop of
  a segment ends, and say what the loader leaves in memory.
\<close>

section \<open>Reading and writing multi-byte values\<close>

definition load16 :: "u32 \<Rightarrow> 'a paging_scheme \<Rightarrow> ('a paging_scheme, u16) outcome" where
  "load16 a s =
     bind_out (load8 a s) (\<lambda>s b0. bind_out (load8 (a + 1) s) (\<lambda>s b1.
       Ret s (ucast b0 OR push_bit 8 (ucast b1))))"

definition load32 :: "u32 \<Rightarrow> 'a paging_scheme \<Rightarrow> ('a paging_scheme, u32) outcome" where
  "load32 a s =
     bind_out (load16 a s) (\<lambda>s h0. bind_out (load16 (a + 2) s) (\<lambda>s h1.
       Ret s (ucast h0 OR push_bit 16 (ucast h1))))"

definition store32 :: "u32 \<Rightarrow> u32 \<Rightarrow> 'a paging_scheme \<Rightarrow> ('a paging_scheme, unit) outcome" where
  "store32 a x s =
     bind_out (store8 a (ucast x) s) (\<lambda>s _.
     bind_out (store8 (a + 1) (ucast (drop_bit 8 x)) s) (\<lambda>s _.
     bind_out (store8 (a + 2) (ucast (drop_bit 16 x)) s) (\<lambda>s _.
       store8 (a + 3) (ucast (drop_bit 24 x)) s)))"

section \<open>Layout of kernel/elf.h\<close>

text \<open>Offsets of the fields of \<open>Elf32_Ehdr\<close> and \<open>Elf32_Phdr\<close>.\<close>

definition e_type :: u32 where "e_type = 16"
definition e_machine :: u32 where "e_machine = 18"
definition e_entry :: u32 where "e_entry = 24"
definition e_phoff :: u32 where "e_phoff = 28"
definition e_phsize :: u32 where "e_phsize = 42"
definition e_phnum :: u32 where "e_phnum = 44"

definition p_type :: u32 where "p_type = 0"
definition p_offset :: u32 where "p_offset = 4"
definition p_vaddr :: u32 where "p_vaddr = 8"
definition p_filesz :: u32 where "p_filesz = 16"
definition p_memsz :: u32 where "p_memsz = 20"

definition ELFCLASS32 :: u8 where "ELFCLASS32 = 1"
definition EV_CURRENT :: u8 where "EV_CURRENT = 1"
definition EM_386 :: u16 where "EM_386 = 3"
definition ET_REL :: u16 where "ET_REL = 1"
definition ET_EXEC :: u16 where "ET_EXEC = 2"
definition PT_LOAD :: u32 where "PT_LOAD = 1"

lemmas elf_layout = e_type_def e_machine_def e_entry_def e_phoff_def e_phsize_def e_phnum_def
  p_type_def p_offset_def p_vaddr_def p_filesz_def p_memsz_def

lemmas elf_consts = ELFCLASS32_def EV_CURRENT_def EM_386_def ET_REL_def ET_EXEC_def PT_LOAD_def

section \<open>Operations of kernel/elf.c\<close>

definition reject :: "string \<Rightarrow> 'a screen_scheme \<Rightarrow> ('a screen_scheme, bool) outcome" where
  "reject msg s = Ret (kprint (str_bytes msg @ [10]) s) False"

definition check_elf_file :: "u32 \<Rightarrow> 'a paging_scheme \<Rightarrow> ('a paging_scheme, bool) outcome" where
  "check_elf_file hdr s =
     (if hdr = 0 then Ret s False
      else bind_out (load8 hdr s) (\<lambda>s c0.
        if c0 \<noteq> 0x7F then reject ''index 0 error '' s
        else bind_out (load8 (hdr + 1) s) (\<lambda>s c1.
          if c1 \<noteq> of_char CHR ''E'' then reject ''index 1 error '' s
          else bind_out (load8 (hdr + 2) s) (\<lambda>s c2.
            if c2 \<noteq> of_char CHR ''L'' then reject ''index 2 error '' s
            else bind_out (load8 (hdr + 3) s) (\<lambda>s c3.
              if c3 \<noteq> of_char CHR ''F'' then reject ''index 3 error '' s
              else Ret s True)))))"

definition check_elf_supported :: "u32 \<Rightarrow> 'a paging_scheme \<Rightarrow> ('a paging_scheme, bool) outcome" where
  "check_elf_supported hdr s =
     bind_out (check_elf_file hdr s) (\<lambda>s ok.
       if \<not> ok then Ret s False
       else bind_out (load8 (hdr + 4) s) (\<lambda>s class.
         if class \<noteq> ELFCLASS32 then reject ''index 4 error '' s
         else bind_out (load16 (hdr + e_machine) s) (\<lambda>s machine.
           if machine \<noteq> EM_386 then reject ''machine error '' s
           else bind_out (load8 (hdr + 6) s) (\<lambda>s version.
             if version \<noteq> EV_CURRENT then reject ''index 6 error '' s
             else bind_out (load16 (hdr + e_type) s) (\<lambda>s type.
               if type \<noteq> ET_REL \<and> type \<noteq> ET_EXEC then reject ''not existing type '' s
               else Ret s True)))))"

text \<open>The page loop of \<open>load_segment\<close>; the flag says whether the routine goes on (it
  returns at once when there is no frame).\<close>

partial_function (option) segment_pages ::
  "u32 \<Rightarrow> u32 \<Rightarrow> 'a paging_scheme \<Rightarrow> ('a paging_scheme, bool) outcome option" where
  "segment_pages segment_end vaddr s =
     (if vaddr < segment_end then
        (let (phy, s) = allocate 4096 s
         in if phy = 0 then Some (Ret s False)
            else (case map_page phy vaddr (PAGE_PRESENT OR PAGE_USER OR PAGE_WRITE) s of
                    Ret s u \<Rightarrow> segment_pages segment_end (vaddr + 4096) s
                  | Stop s r \<Rightarrow> Some (Stop s r)))
      else Some (Ret s True))"

definition load_segment :: "u32 \<Rightarrow> u32 \<Rightarrow> 'a paging_scheme \<Rightarrow> ('a paging_scheme, unit) outcome" where
  "load_segment ph file s =
     bind_out (load32 (ph + p_vaddr) s) (\<lambda>s vaddr.
     bind_out (load32 (ph + p_memsz) s) (\<lambda>s memsz.
     let segment_start = vaddr AND 0xFFFFF000;
         segment_end = (vaddr + memsz + 0xFFF) AND 0xFFFFF000
     in bind_out (run_loop s (segment_pages segment_end segment_start s)) (\<lambda>s go.
        if \<not> go then Ret s ()
        else
          bind_out (load32 (ph + p_offset) s) (\<lambda>s offset.
          bind_out (load32 (ph + p_vaddr) s) (\<lambda>s vaddr.
          bind_out (load32 (ph + p_filesz) s) (\<lambda>s filesz.
          bind_out (memcpy vaddr (file + offset) filesz s) (\<lambda>s _.
          bind_out (load32 (ph + p_memsz) s) (\<lambda>s memsz.
          bind_out (load32 (ph + p_filesz) s) (\<lambda>s filesz.
            if memsz > filesz then
              bind_out (load32 (ph + p_vaddr) s) (\<lambda>s vaddr.
                memset (vaddr + filesz) 0 (memsz - filesz) s)
            else Ret s ())))))))))"

text \<open>The loop over the program headers. Its counter has 16 bits and the bound is read
  again in every round; the product of counter and entry size is a signed \<open>int\<close>, whose
  overflow is undefined.\<close>

function elf_segments ::
  "u16 \<Rightarrow> u32 \<Rightarrow> u32 \<Rightarrow> u32 \<Rightarrow> 'a paging_scheme \<Rightarrow> ('a paging_scheme, unit) outcome" where
  "elf_segments k hdr phdr file s =
     bind_out (load16 (hdr + e_phnum) s) (\<lambda>s phnum.
       if k < phnum then
         bind_out (load16 (hdr + e_phsize) s) (\<lambda>s phsize.
           if uint k * uint phsize \<ge> 2 ^ 31 then Stop s Undefined
           else
             let ph = phdr + ucast k * ucast phsize
             in bind_out (load32 (ph + p_type) s) (\<lambda>s type.
                  if type \<noteq> PT_LOAD then elf_segments (k + 1) hdr phdr file s
                  else bind_out (load_segment ph file s) (\<lambda>s _.
                    elf_segments (k + 1) hdr phdr file s)))
       else Ret s ())"
  by pat_completeness auto
termination
proof (relation "measure (\<lambda>(k, _). 65535 - unat k)")
  have "65535 - unat (k + 1) < 65535 - unat k" if "k < n" for k n :: u16
  proof -
    have "unat k < unat n" using that by (simp add: word_less_nat_alt)
    then have "unat k < 65535" using unat_u16 [of n] by simp
    then show ?thesis by (simp add: unat_word_ariths)
  qed
  then show "((k + 1, h, p, f, t), (k, h, p, f, s)) \<in> measure (\<lambda>(k, _). 65535 - unat k)"
    if "k < n" for k n :: u16 and h p f :: u32 and s t :: "'a paging_scheme"
    using that by simp
  then show "((k + 1, h, p, f, t), (k, h, p, f, s)) \<in> measure (\<lambda>(k, _). 65535 - unat k)"
    if "k < n" for k n :: u16 and h p f :: u32 and s t :: "'a paging_scheme"
    using that by simp
qed simp

declare elf_segments.simps [simp del]

definition elf_load_exec :: "u32 \<Rightarrow> u32 \<Rightarrow> 'a paging_scheme \<Rightarrow> ('a paging_scheme, u32) outcome" where
  "elf_load_exec hdr file s =
     bind_out (load32 (hdr + e_phoff) s) (\<lambda>s phoff.
     bind_out (elf_segments 0 hdr (hdr + phoff) file s) (\<lambda>s _.
       load32 (hdr + e_entry) s))"

text \<open>\<open>elf_load_rel\<close> has an empty body and no return value, which its caller uses.\<close>

definition elf_load_rel :: "u32 \<Rightarrow> 'a paging_scheme \<Rightarrow> ('a paging_scheme, u32) outcome" where
  "elf_load_rel hdr s = Stop s Undefined"

definition elf_load_file :: "u32 \<Rightarrow> 'a paging_scheme \<Rightarrow> ('a paging_scheme, u32) outcome" where
  "elf_load_file file s =
     (let hdr = file in
      bind_out (check_elf_supported hdr s) (\<lambda>s ok.
        if \<not> ok then Ret s 0
        else bind_out (load16 (hdr + e_type) s) (\<lambda>s type.
          if type = ET_EXEC then elf_load_exec hdr file s
          else if type = ET_REL then elf_load_rel hdr s
          else Ret s 0)))"

definition create_elf_process :: "u32 \<Rightarrow> 'a sched_scheme \<Rightarrow> ('a sched_scheme, u32) outcome" where
  "create_elf_process file s =
     bind_out (create_process 0 PROCESS_USER s) (\<lambda>s p.
     if p = 0 then Ret (kprint (str_bytes ''process creation faild'') s) 0
     else
       bind_out (elf_load_file file s) (\<lambda>s entry.
       let s = (if entry \<noteq> 0
                then kprint_hex entry (kprint (str_bytes ''ELF loaded successfully'' @ [10]) s)
                else kprint (str_bytes ''ELF loading FAILED'' @ [10]) s)
       in bind_out (get_proc p s) (\<lambda>s x.
          bind_out (set_regs (regs x) (\<lambda>r. r\<lparr>r_eip := entry\<rparr>) s) (\<lambda>s _.
          let (phy, s) = allocate 4096 s
          in bind_out (map_page phy (USER_STACK_TOP - 4096) (PAGE_PRESENT OR PAGE_WRITE OR PAGE_USER) s) (\<lambda>s _.
             bind_out (get_proc p s) (\<lambda>s x.
             bind_out (set_regs (regs x) (\<lambda>r. r\<lparr>r_user_esp := USER_STACK_TOP\<rparr>) s) (\<lambda>s _.
               Ret s p)))))))"

section \<open>Words in memory\<close>

definition mapped :: "'a paging_scheme \<Rightarrow> u32 \<Rightarrow> nat \<Rightarrow> bool" where
  "mapped s a n \<longleftrightarrow> (\<forall>k < n. translate s (a + of_nat k) \<noteq> None)"

text \<open>The byte of memory behind a virtual address.\<close>

definition mem :: "'a paging_scheme \<Rightarrow> u32 \<Rightarrow> u8" where
  "mem s a = ram s (phys s a)"

definition word16 :: "'a paging_scheme \<Rightarrow> u32 \<Rightarrow> u16" where
  "word16 s a = ucast (mem s a) OR push_bit 8 (ucast (mem s (a + 1)))"

definition word32 :: "'a paging_scheme \<Rightarrow> u32 \<Rightarrow> u32" where
  "word32 s a = ucast (word16 s a) OR push_bit 16 (ucast (word16 s (a + 2)))"

lemma mappedD: "mapped s a n \<Longrightarrow> k < n \<Longrightarrow> translate s (a + of_nat k) \<noteq> None"
  by (simp add: mapped_def)

lemma mapped_sub: "mapped s a n \<Longrightarrow> k + m \<le> n \<Longrightarrow> mapped s (a + of_nat k) m"
  unfolding mapped_def by (metis (no_types) add.assoc add_less_cancel_left less_le_trans of_nat_add)

lemma load8_mem: "mapped s a n \<Longrightarrow> 0 < n \<Longrightarrow> load8 a s = Ret s (mem s a)"
  using mappedD [of s a n 0] by (simp add: load8_mapped mem_def)

lemma load16_word: "mapped s a 2 \<Longrightarrow> load16 a s = Ret s (word16 s a)"
  using load8_mem [of s a 2] load8_mem [OF mapped_sub [of s a 2 1 1]] by (simp add: load16_def word16_def)

lemma load32_word: "mapped s a 4 \<Longrightarrow> load32 a s = Ret s (word32 s a)"
  using load16_word [of s a] mapped_sub [of s a 4 0 2] load16_word [OF mapped_sub [of s a 4 2 2]]
  by (simp add: load32_def word32_def)

lemma bytes16: "ucast (ucast x :: u8) OR push_bit 8 (ucast (ucast (drop_bit 8 x) :: u8)) = (ucast (x :: u32) :: u16)"
  by (rule bit_word_eqI) (auto simp: bit_simps)

lemma words32: "ucast (ucast x :: u16) OR push_bit 16 (ucast (ucast (drop_bit 16 x) :: u16)) = (x :: u32)"
  by (rule bit_word_eqI) (auto simp: bit_simps dest: bit_imp_le_length)

text \<open>The four bytes of a 32-bit store, as one update of memory.\<close>

definition put32 :: "u32 \<Rightarrow> u32 \<Rightarrow> 'a paging_scheme \<Rightarrow> 'a paging_scheme" where
  "put32 a x s = s\<lparr>ram := (ram s)(phys s a := ucast x, phys s (a + 1) := ucast (drop_bit 8 x),
     phys s (a + 2) := ucast (drop_bit 16 x), phys s (a + 3) := ucast (drop_bit 24 x))\<rparr>"

lemma translate_put32 [simp]: "translate (put32 a x s) v = translate s v"
  by (simp add: put32_def)

lemma phys_put32 [simp]: "phys (put32 a x s) v = phys s v"
  by (simp add: put32_def)

lemma store32_put: "mapped s a 4 \<Longrightarrow> store32 a x s = Ret (put32 a x s) ()"
  using mappedD [of s a 4 0] mappedD [of s a 4 1] mappedD [of s a 4 2] mappedD [of s a 4 3]
  by (simp add: store32_def store8_mapped put32_def)

definition separate32 :: "'a paging_scheme \<Rightarrow> u32 \<Rightarrow> bool" where
  "separate32 s a \<longleftrightarrow> distinct [phys s a, phys s (a + 1), phys s (a + 2), phys s (a + 3)]"

lemma word32_put32: "separate32 s a \<Longrightarrow> word32 (put32 a x s) a = x"
proof -
  assume sep: "separate32 s a"
  have "word16 (put32 a x s) a = ucast x" "word16 (put32 a x s) (a + 2) = ucast (drop_bit 16 x)"
    using sep bytes16 [of x] bytes16 [of "drop_bit 16 x"]
    by (simp_all add: separate32_def word16_def mem_def) (simp_all add: put32_def add.commute [of 3 a])
  then show ?thesis using words32 [of x] by (simp add: word32_def)
qed

lemma load32_put32: "mapped s a 4 \<Longrightarrow> separate32 s a \<Longrightarrow> load32 a (put32 a x s) = Ret (put32 a x s) x"
  using load32_word [of "put32 a x s" a] word32_put32 [of s a x] by (simp add: mapped_def)

text \<open>An aligned word lies in one page, so its bytes are separate.\<close>

lemma offset_bits: "unat (v AND 0xFFF :: u32) = unat v mod 4096"
proof -
  have "v AND 0xFFF = take_bit 12 v" unfolding mask_lits by (simp add: take_bit_eq_mask)
  then show ?thesis by (simp add: take_bit_eq_mod unat_mod)
qed

lemma phys_offset:
  assumes "translate s v = Some p" "paging_on s"
  shows "unat p mod 4096 = unat v mod 4096"
proof -
  obtain e where "p = frame_of e OR (v AND 0xFFF)"
    using assms by (auto simp: translate_def split: if_splits)
  then have "p AND 0xFFF = v AND 0xFFF"
    by (auto simp: frame_of_bits mask_lits intro!: bit_word_eqI) (auto simp: bit_simps)
  then show ?thesis by (metis offset_bits)
qed

lemma aligned_separate:
  assumes m: "mapped s a 4" and al: "unat a mod 4 = 0" and on: "paging_on s"
  shows "separate32 s a"
proof -
  have off: "unat (phys s (a + k)) mod 4096 = unat a mod 4096 + unat k" if "unat k < 4" for k
  proof -
    have "unat a mod 4096 mod 4 = 0" using al by (simp add: mod_mod_cancel)
    then obtain q where q: "unat a mod 4096 = 4 * q" by (auto simp: mod_eq_0_iff_dvd elim: dvdE)
    have "4 * q < 4096" unfolding q [symmetric] by simp
    then have "unat a mod 4096 + unat k < 4096" unfolding q using that by simp
    note i = in_page_add(3) [OF this]
    have "translate s (a + of_nat (unat k)) \<noteq> None" by (rule mappedD [OF m that])
    then have "translate s (a + k) = Some (phys s (a + k))" by (auto simp: phys_def)
    then show ?thesis using phys_offset [OF _ on] i by metis
  qed
  have "phys s (a + k) \<noteq> phys s (a + l)" if "unat k < 4" "unat l < 4" "unat k \<noteq> unat l" for k l
  proof
    assume "phys s (a + k) = phys s (a + l)"
    then have "unat a mod 4096 + unat k = unat a mod 4096 + unat l"
      by (simp only: off [OF that(1), symmetric] off [OF that(2), symmetric])
    with that(3) show False by simp
  qed
  from this [of 0 1] this [of 0 2] this [of 0 3] this [of 1 2] this [of 1 3] this [of 2 3]
  show ?thesis by (simp add: separate32_def)
qed

section \<open>The header checks\<close>

definition valid_header :: "'a paging_scheme \<Rightarrow> u32 \<Rightarrow> bool" where
  "valid_header s h \<longleftrightarrow> h \<noteq> 0 \<and> mem s h = 0x7F \<and> mem s (h + 1) = of_char CHR ''E'' \<and>
     mem s (h + 2) = of_char CHR ''L'' \<and> mem s (h + 3) = of_char CHR ''F'' \<and> mem s (h + 4) = ELFCLASS32 \<and>
     word16 s (h + e_machine) = EM_386 \<and> mem s (h + 6) = EV_CURRENT \<and>
     word16 s (h + e_type) \<in> {ET_REL, ET_EXEC}"

lemma header_loads:
  assumes "mapped s h 52"
  shows "load8 h s = Ret s (mem s h)" "load8 (h + 1) s = Ret s (mem s (h + 1))"
    "load8 (h + 2) s = Ret s (mem s (h + 2))" "load8 (h + 3) s = Ret s (mem s (h + 3))"
    "load8 (h + 4) s = Ret s (mem s (h + 4))" "load8 (h + 6) s = Ret s (mem s (h + 6))"
    "load16 (h + e_type) s = Ret s (word16 s (h + e_type))"
    "load16 (h + e_machine) s = Ret s (word16 s (h + e_machine))"
    "load16 (h + e_phsize) s = Ret s (word16 s (h + e_phsize))"
    "load16 (h + e_phnum) s = Ret s (word16 s (h + e_phnum))"
    "load32 (h + e_entry) s = Ret s (word32 s (h + e_entry))"
    "load32 (h + e_phoff) s = Ret s (word32 s (h + e_phoff))"
proof -
  have b: "load8 (h + of_nat k) s = Ret s (mem s (h + of_nat k))" if "k < 52" for k
    using load8_mem [OF mapped_sub [OF assms, of k 1]] that by simp
  show "load8 h s = Ret s (mem s h)" "load8 (h + 1) s = Ret s (mem s (h + 1))"
    "load8 (h + 2) s = Ret s (mem s (h + 2))" "load8 (h + 3) s = Ret s (mem s (h + 3))"
    "load8 (h + 4) s = Ret s (mem s (h + 4))" "load8 (h + 6) s = Ret s (mem s (h + 6))"
    using b [of 0] b [of 1] b [of 2] b [of 3] b [of 4] b [of 6] by simp_all
  have w: "load16 (h + of_nat k) s = Ret s (word16 s (h + of_nat k))" if "k + 2 \<le> 52" for k
    using load16_word [OF mapped_sub [OF assms that]] .
  show "load16 (h + e_type) s = Ret s (word16 s (h + e_type))"
    "load16 (h + e_machine) s = Ret s (word16 s (h + e_machine))"
    "load16 (h + e_phsize) s = Ret s (word16 s (h + e_phsize))"
    "load16 (h + e_phnum) s = Ret s (word16 s (h + e_phnum))"
    using w [of 16] w [of 18] w [of 42] w [of 44] by (simp_all add: elf_layout)
  have d: "load32 (h + of_nat k) s = Ret s (word32 s (h + of_nat k))" if "k + 4 \<le> 52" for k
    using load32_word [OF mapped_sub [OF assms that]] .
  show "load32 (h + e_entry) s = Ret s (word32 s (h + e_entry))"
    "load32 (h + e_phoff) s = Ret s (word32 s (h + e_phoff))"
    using d [of 24] d [of 28] by (simp_all add: elf_layout)
qed

lemma check_elf_supported_ok:
  fixes s :: "'a paging_scheme"
  assumes "mapped s h 52"
  shows "valid_header s h \<Longrightarrow> check_elf_supported h s = Ret s True"
    "\<not> valid_header s h \<Longrightarrow> \<exists>msg. check_elf_supported h s = Ret (kprint msg s) False \<or> check_elf_supported h s = Ret s False"
proof -
  note L = header_loads [OF assms]
  show "valid_header s h \<Longrightarrow> check_elf_supported h s = Ret s True"
    by (auto simp: valid_header_def check_elf_supported_def check_elf_file_def L ET_REL_def ET_EXEC_def)
  show "\<not> valid_header s h \<Longrightarrow> \<exists>msg. check_elf_supported h s = Ret (kprint msg s) False \<or> check_elf_supported h s = Ret s False"
  proof -
    assume v: "\<not> valid_header s h"
    define R where "R m \<longleftrightarrow> (\<exists>msg. m = Ret (kprint msg s) False \<or> m = Ret s False)" for m
    have if_R: "R (if c then Ret (kprint msg s) False else X)" if "\<not> c \<Longrightarrow> R X" for c msg X
      using that by (auto simp: R_def)
    have bind_if: "bind_out (if c then a else b) f = (if c then bind_out a f else bind_out b f)"
      for c and a b :: "('a paging_scheme, bool) outcome" and f :: "'a paging_scheme \<Rightarrow> bool \<Rightarrow> ('a paging_scheme, bool) outcome"
      by simp
    have "R (check_elf_supported h s)"
    proof (cases "h = 0")
      case True
      then show ?thesis by (auto simp: check_elf_supported_def check_elf_file_def R_def)
    next
      case False
      then show ?thesis unfolding check_elf_supported_def check_elf_file_def reject_def L bind_out.simps bind_if
        if_not_P [OF False] not_False_eq_True not_True_eq_False if_True if_False
        by (intro if_R) (use v False in \<open>auto simp: valid_header_def\<close>)
    qed
    then show ?thesis by (auto simp: R_def)
  qed
qed

section \<open>The page loop of a segment\<close>

lemma segment_pages_step:
  "unat (e :: u32) mod 4096 = 0 \<Longrightarrow> unat v mod 4096 = 0 \<Longrightarrow> v < e \<Longrightarrow>
   unat (v + 4096) = unat v + 4096 \<and> unat (v + 4096) \<le> unat e"
proof -
  assume a: "unat e mod 4096 = 0" "unat v mod 4096 = 0" "v < e"
  then have lt: "unat v < unat e" by (simp add: word_less_nat_alt)
  obtain x y where "unat e = 4096 * x" "unat v = 4096 * y"
    using a(1,2) by (auto simp: mod_eq_0_iff_dvd elim!: dvdE)
  with lt have le: "unat v + 4096 \<le> unat e" by simp
  from le unat_u32 [of e] have "unat v + 4096 < 4294967296" by (rule le_less_trans)
  then have u: "unat (v + 4096) = unat v + 4096" by (simp add: unat_word_ariths)
  show ?thesis unfolding u using le by (rule conjI [OF refl])
qed

lemma segment_pages_ends:
  fixes s :: "'a paging_scheme"
  assumes "unat (e :: u32) mod 4096 = 0" "unat v mod 4096 = 0"
  shows "segment_pages e v s \<noteq> None"
  using assms
proof (induction "unat e - unat v" arbitrary: v s rule: less_induct)
  case less
  show ?case
  proof (cases "v < e")
    case False
    then show ?thesis by (simp add: segment_pages.simps)
  next
    case True
    note st = segment_pages_step [OF less.prems True]
    have lt: "unat v < unat e" using True by (simp add: word_less_nat_alt)
    have "segment_pages e (v + 4096) t \<noteq> None" for t :: "'a paging_scheme"
      using st lt less.prems by (intro less.hyps) auto
    then show ?thesis using True
      by (subst segment_pages.simps) (auto split: outcome.splits prod.splits)
  qed
qed

lemma page_aligned: "unat (v AND 0xFFFFF000 :: u32) mod 4096 = 0"
proof -
  have "(v AND 0xFFFFF000) AND 0xFFF = 0"
    unfolding mask_lits by (rule bit_word_eqI) (auto simp: bit_simps)
  then show ?thesis using offset_bits [of "v AND 0xFFFFF000"] by simp
qed

section \<open>Loading ends\<close>

text \<open>A routine ends if it never loops for ever: it returns or stops for another reason.\<close>

definition ends :: "('s, 'a) outcome \<Rightarrow> bool" where
  "ends m \<longleftrightarrow> (\<forall>t. m \<noteq> Stop t Diverges)"

named_theorems ending

lemma ends_Ret [ending]: "ends (Ret s a)"
  by (simp add: ends_def)

lemma ends_Stop [ending]: "r \<noteq> Diverges \<Longrightarrow> ends (Stop s r)"
  by (simp add: ends_def)

lemma ends_bind [ending]: "ends m \<Longrightarrow> (\<And>s a. ends (f s a)) \<Longrightarrow> ends (bind_out m f)"
  by (cases m) (auto simp: ends_def)

lemma ends_if [ending]: "(c \<Longrightarrow> ends a) \<Longrightarrow> (\<not> c \<Longrightarrow> ends b) \<Longrightarrow> ends (if c then a else b)"
  by simp

lemma ends_pair [ending]: "(\<And>a s. p = (a, s) \<Longrightarrow> ends (f a s)) \<Longrightarrow> ends (case p of (a, s) \<Rightarrow> f a s)"
  by (cases p) simp

lemma ends_memory [ending]:
  "ends (load8 a s)" "ends (store8 a x s)" "ends (load_pte a s)" "ends (store_pte a y s)"
  by (simp_all add: ends_def load8_def store8_def load_pte_def store_pte_def split: option.splits)

lemma ends_words [ending]: "ends (load16 a s)" "ends (load32 a s)"
  unfolding load16_def load32_def by (intro ending)+

lemma ends_zero_table [ending]: "ends (zero_table a s)"
proof -
  have fold_ends: "ends (fold (\<lambda>k out. bind_out out (\<lambda>s _. store_pte (a + 4 * of_nat k) 0 s)) ks m)"
    if "ends m" for ks and m :: "('a paging_scheme, unit) outcome"
    using that
  proof (induction ks arbitrary: m)
    case (Cons k ks)
    have "ends (bind_out m (\<lambda>s _. store_pte (a + 4 * of_nat k) 0 s))"
      by (intro ending Cons.prems)
    then show ?case using Cons.IH by simp
  qed simp
  then show ?thesis unfolding zero_table_def by (intro fold_ends ending)
qed

lemma ends_map_page [ending]: "ends (map_page p v f s)"
  unfolding map_page_def ensure_table_def Let_def by (intro ending)

lemma ends_memset [ending]: "ends (memset p x n s)"
proof -
  have "ends (memset_loop k p y t)" for k p y and t :: "'a paging_scheme"
  proof (induction k arbitrary: p t)
    case (Suc k)
    then show ?case unfolding memset_loop.simps by (intro ending)
  qed (simp add: ends_def)
  then show ?thesis by (simp add: memset_def)
qed

lemma ends_memcpy [ending]: "ends (memcpy d src n s)"
proof -
  have "ends (memcpy_loop k i d src t)" for k i and t :: "'a paging_scheme"
  proof (induction k arbitrary: i t)
    case (Suc k)
    then show ?case unfolding memcpy_loop.simps by (intro ending)
  qed (simp add: ends_def)
  then show ?thesis unfolding memcpy_def by (intro ending)
qed

lemma ends_segment_pages:
  fixes s :: "'a paging_scheme"
  assumes "unat (e :: u32) mod 4096 = 0" "unat v mod 4096 = 0"
  shows "ends (run_loop s0 (segment_pages e v s))"
  using assms
proof (induction "unat e - unat v" arbitrary: v s rule: less_induct)
  case less
  show ?case
  proof (cases "v < e")
    case False
    then show ?thesis by (simp add: segment_pages.simps ends_def)
  next
    case True
    note st = segment_pages_step [OF less.prems True]
    have lt: "unat v < unat e" using True by (simp add: word_less_nat_alt)
    have IH: "ends (run_loop s0 (segment_pages e (v + 4096) t))" for t :: "'a paging_scheme"
      using st lt less.prems by (intro less.hyps) auto
    obtain p s1 where a: "allocate 4096 s = (p, s1)" by fastforce
    have m: "ends (map_page p v (PAGE_PRESENT OR PAGE_USER OR PAGE_WRITE) s1)" by (intro ending)
    show ?thesis
      using True IH m
      by (subst segment_pages.simps, cases "map_page p v (PAGE_PRESENT OR PAGE_USER OR PAGE_WRITE) s1")
        (auto simp: a ends_def)
  qed
qed

lemma ends_load_segment [ending]: "ends (load_segment ph file s)"
  unfolding load_segment_def Let_def
  by (intro ending ends_segment_pages page_aligned)

lemma ends_check [ending]: "ends (check_elf_supported h s)"
  unfolding check_elf_supported_def check_elf_file_def reject_def by (intro ending)

lemma ends_elf_segments [ending]: "ends (elf_segments k hdr phdr fl s)"
proof (induction k hdr phdr fl s rule: elf_segments.induct)
  case (1 k hdr phdr fl s)
  show ?case
    by (subst elf_segments.simps) (unfold Let_def, intro ending 1; simp)
qed

lemma ends_elf_load_file [ending]: "ends (elf_load_file file s)"
  unfolding elf_load_file_def elf_load_exec_def elf_load_rel_def Let_def by (intro ending) simp

section \<open>The pages of a segment\<close>

lemma contig_loop_paging: "paging_step s (out_state (contig_loop n k b f s))"
proof (induction n arbitrary: k s)
  case 0
  then show ?case by (simp add: paging_step_refl)
next
  case (Suc n)
  obtain p s1 where a: "allocate 4096 s = (p, s1)" by fastforce
  have "paging_step s1 (out_state (bind_out (map_page p (b + of_nat k * 4096) f s1)
      (\<lambda>s _. contig_loop n (Suc k) b f s)))"
    by (rule paging_frame.frame_bind [OF map_page_paging]) (rule Suc.IH)
  with allocate_paging [OF a] show ?case by (auto simp: a intro: paging_step_trans)
qed

abbreviation segment_flags :: u32 where
  "segment_flags \<equiv> PAGE_PRESENT OR PAGE_USER OR PAGE_WRITE"

lemma segment_pages_contig:
  fixes s :: "'a paging_scheme"
  assumes "unat (b :: u32) mod 4096 = 0" "b \<noteq> 0" "unat e = unat b + 4096 * (k + n)"
    and "contig_loop n k b segment_flags s = Ret s' b"
  shows "segment_pages e (b + of_nat k * 4096) s = Some (Ret s' True)"
  using assms(3,4)
proof (induction n arbitrary: k s)
  case 0
  have "e = b + of_nat k * 4096"
    using 0(1) unat_u32 [of e] by (simp add: word_unat_eq_iff unat_word_ariths unat_of_nat_u32)
  with 0 show ?case by (simp add: segment_pages.simps)
next
  case (Suc n)
  obtain p s1 where a: "allocate 4096 s = (p, s1)" by fastforce
  have p: "p \<noteq> 0" using Suc.prems(2) a assms(2) by auto
  obtain s2 where m: "map_page p (b + of_nat k * 4096) segment_flags s1 = Ret s2 ()"
    "contig_loop n (Suc k) b segment_flags s2 = Ret s' b"
    using Suc.prems(2) a p by (auto simp: bind_out_eq_Ret)
  have "unat (b + of_nat k * 4096) = unat b + 4096 * k"
    using Suc.prems(1) unat_u32 [of e] by (simp add: unat_word_ariths unat_of_nat_u32)
  then have lt: "b + of_nat k * 4096 < e" using Suc.prems(1) by (simp add: word_less_nat_alt)
  have "segment_pages e (b + of_nat (Suc k) * 4096) s2 = Some (Ret s' True)"
    by (rule Suc.IH [OF _ m(2)]) (use Suc.prems(1) in simp)
  then show ?case using lt p m(1)
    by (subst segment_pages.simps) (simp add: a algebra_simps)
qed

lemma page_range:
  assumes "unat (b :: u32) mod 4096 = 0" "unat b + 4096 * n \<le> 2 ^ 32"
  shows "(\<exists>j < n. page_of w = page_of (b + of_nat j * 4096)) \<longleftrightarrow> unat b \<le> unat w \<and> unat w < unat b + 4096 * n"
proof -
  have idx: "page_of w = page_of (b + of_nat j * 4096) \<longleftrightarrow> unat w div 4096 = unat b div 4096 + j" if "j < n" for j
    using page_of_offset [of b j] that assms(2) by (auto simp: word_unat_eq_iff page_of_unat)
  obtain q where q: "unat b = 4096 * q" using assms(1) by (auto simp: mod_eq_0_iff_dvd elim: dvdE)
  have "(\<exists>j < n. unat w div 4096 = q + j) \<longleftrightarrow> q \<le> unat w div 4096 \<and> unat w div 4096 < q + n"
    by (auto intro!: exI [of _ "unat w div 4096 - q"])
  also have "\<dots> \<longleftrightarrow> unat b \<le> unat w \<and> unat w < unat b + 4096 * n"
    unfolding q using less_eq_div_iff_mult_less_eq [of 4096 q "unat w"] div_less_iff_less_mult [of 4096 "unat w" "q + n"]
    by (simp add: mult.commute)
  finally show ?thesis using idx by (auto simp: q)
qed


text \<open>What a loadable segment needs: its pages lie in present tables, as many frames as pages
  are free, and the file and the program header lie elsewhere, in virtual and in physical
  memory.\<close>

definition segment_start :: "u32 \<Rightarrow> u32" where
  "segment_start v = v AND 0xFFFFF000"

definition segment_end :: "u32 \<Rightarrow> u32 \<Rightarrow> u32" where
  "segment_end v m = (v + m + 0xFFF) AND 0xFFFFF000"

definition frames_for :: "nat \<Rightarrow> 'a pmm_scheme \<Rightarrow> u32 list" where
  "frames_for n s = fst (alloc_many (allocate 4096) n s)"

definition segment_room :: "'a paging_scheme \<Rightarrow> u32 \<Rightarrow> u32 \<Rightarrow> nat \<Rightarrow> bool" where
  "segment_room s v m n \<longleftrightarrow> vm_wf s \<and> mm_wf s \<and> segment_start v \<noteq> 0 \<and>
     unat (segment_end v m) = unat (segment_start v) + 4096 * n \<and> unat v + unat m + 4095 < 2 ^ 32 \<and>
     length (frames_for n s) = n \<and>
     (\<forall>j < n. present s (pd_index (segment_start v + of_nat j * 4096)) \<and> \<not> table_page s (segment_start v + of_nat j * 4096))"

definition in_segment :: "u32 \<Rightarrow> u32 \<Rightarrow> u32 \<Rightarrow> bool" where
  "in_segment v m w \<longleftrightarrow> unat (segment_start v) \<le> unat w \<and> unat w < unat (segment_end v m)"

definition clear_of_segment :: "'a paging_scheme \<Rightarrow> u32 \<Rightarrow> u32 \<Rightarrow> nat \<Rightarrow> u32 \<Rightarrow> nat \<Rightarrow> bool" where
  "clear_of_segment s v m n a len \<longleftrightarrow> mapped s a len \<and>
     (\<forall>k < len. \<not> in_segment v m (a + of_nat k) \<and> frame_of (phys s (a + of_nat k)) \<notin> frame_of ` set (frames_for n s))"

lemma low_seven: "segment_flags AND NOT (mask 12) = 0" "segment_flags AND 1 \<noteq> 0"
  by (simp_all add: page_flags mask_eq_exp_minus_1)

lemma frame_of_unat: "unat (frame_of x) = 4096 * (unat x div 4096)"
proof -
  have f: "frame_of x = push_bit 12 (drop_bit 12 x)"
    unfolding frame_of_bits by (rule bit_word_eqI) (auto simp: bit_simps dest: bit_imp_le_length)
  have "unat (frame_of x) = take_bit 32 (4096 * (unat x div 4096))"
    unfolding f unsigned_push_bit_eq unat_drop_bit_eq by (simp add: push_bit_eq_mult drop_bit_eq_div mult.commute)
  moreover have "4096 * (unat x div 4096) < 2 ^ 32" using unat_u32 [of x] by simp
  ultimately show ?thesis by (simp add: take_bit_eq_mod)
qed

lemma distinct_map_sorted: "sorted_wrt (\<lambda>a b. f a \<noteq> f b) xs \<Longrightarrow> distinct (map f xs)"
  by (induction xs) auto

lemma frames_apart:
  assumes "mm_wf s"
  shows "distinct (map frame_of (frames_for n s))"
proof -
  have "frame_of a \<noteq> frame_of b" if "block_bytes 4096 a \<inter> block_bytes 4096 b = {}" for a b
  proof
    assume "frame_of a = frame_of b"
    then have d: "unat a div 4096 = unat b div 4096" using frame_of_unat [of a] frame_of_unat [of b] by simp
    have "max (unat a) (unat b) \<in> block_bytes 4096 a \<inter> block_bytes 4096 b"
      using d div_mult_mod_eq [of "unat a" 4096] div_mult_mod_eq [of "unat b" 4096]
        mod_less_divisor [of 4096 "unat a"] mod_less_divisor [of 4096 "unat b"]
      by (auto simp: block_bytes_def max_def)
    with that show False by blast
  qed
  moreover have "sorted_wrt (\<lambda>a b. block_bytes 4096 a \<inter> block_bytes 4096 b = {}) (frames_for n s)"
    using frames.alloc_many_disjoint [OF assms prod.collapse [symmetric]] by (simp add: frames_for_def)
  ultimately have "sorted_wrt (\<lambda>a b. frame_of a \<noteq> frame_of b) (frames_for n s)"
    by (metis (mono_tags, lifting) sorted_wrt_mono_rel)
  then show ?thesis by (rule distinct_map_sorted)
qed


text \<open>The state after the page loop: the segment is mapped to distinct frames, everything
  outside it is as before.\<close>

lemma segment_mapped:
  assumes room: "segment_room s v m n"
  obtains s1 where "segment_pages (segment_end v m) (segment_start v) s = Some (Ret s1 True)" "vm_wf s1"
    "ram s1 = ram s" "paging_step s s1" "\<And>w. \<not> in_segment v m w \<Longrightarrow> translate s1 w = translate s w"
    "\<And>w. in_segment v m w \<Longrightarrow> translate s1 w \<noteq> None \<and> frame_of (phys s1 w) \<in> frame_of ` set (frames_for n s)"
    "\<And>w x. in_segment v m w \<Longrightarrow> in_segment v m x \<Longrightarrow> phys s1 w = phys s1 x \<Longrightarrow> w = x"
proof -
  let ?b = "segment_start v" and ?fs = "frames_for n s"
  have wf: "vm_wf s" "mm_wf s" "?b \<noteq> 0" "unat (segment_end v m) = unat ?b + 4096 * n" "length ?fs = n"
    "\<And>j. j < n \<Longrightarrow> present s (pd_index (?b + of_nat j * 4096)) \<and> \<not> table_page s (?b + of_nat j * 4096)"
    using room by (simp_all add: segment_room_def)
  have al: "unat ?b mod 4096 = 0" unfolding segment_start_def by (rule page_aligned)
  have top: "unat ?b + 4096 * n \<le> 2 ^ 32" using wf(4) unat_u32 [of "segment_end v m"] by simp
  have dirs: "present s (pd_index (?b + of_nat j * 4096)) \<and> \<not> table_page s (?b + of_nat j * 4096)"
    if "0 \<le> j" "j < 0 + n" for j using wf(6) that by simp
  have top0: "unat ?b + 4096 * (0 + n) \<le> 2 ^ 32" using top by simp
  have len: "length (fst (alloc_many (allocate 4096) n s)) = n" using wf(5) by (simp add: frames_for_def)
  obtain s1 where s1: "contig_loop n 0 ?b segment_flags s = Ret s1 ?b" "vm_wf s1"
    and tr: "\<And>w. translate s1 w = (if \<exists>j < n. page_of w = page_of (?b + of_nat (0 + j) * 4096)
      then Some (frame_of (fst (alloc_many (allocate 4096) n s) ! (unat (page_of w) - unat (page_of ?b) - 0)) OR (w AND 0xFFF))
      else translate s w)"
    using contig_loop_ok [OF wf(1) low_seven dirs top0 len] by blast
  have tr: "translate s1 w = (if in_segment v m w
      then Some (frame_of (?fs ! (unat w div 4096 - unat ?b div 4096)) OR (w AND 0xFFF)) else translate s w)" for w
    unfolding tr using page_range [OF al top, of w] wf(4) by (simp add: in_segment_def frames_for_def page_of_unat)
  have idx: "unat w div 4096 - unat ?b div 4096 < n \<and> unat ?b div 4096 \<le> unat w div 4096" if "in_segment v m w" for w
  proof -
    obtain q where q: "unat ?b = 4096 * q" using al by (auto simp: mod_eq_0_iff_dvd elim: dvdE)
    have "4096 * q \<le> unat w" "unat w < 4096 * (q + n)" using that wf(4) q by (simp_all add: in_segment_def)
    then have "q \<le> unat w div 4096" "unat w div 4096 < q + n"
      using less_eq_div_iff_mult_less_eq [of 4096 q "unat w"] div_less_iff_less_mult [of 4096 "unat w" "q + n"]
      by (simp_all add: mult.commute)
    then show ?thesis using q by simp
  qed
  have ph: "phys s1 w = frame_of (?fs ! (unat w div 4096 - unat ?b div 4096)) OR (w AND 0xFFF)" if "in_segment v m w" for w
    using tr [of w] that by (simp add: phys_def)
  show ?thesis
  proof (rule that [OF _ s1(2)])
    show "segment_pages (segment_end v m) ?b s = Some (Ret s1 True)"
      using segment_pages_contig [OF al wf(3) _ s1(1), of "segment_end v m"] wf(4) by simp
    show st: "paging_step s s1" using contig_loop_paging [of s n 0 ?b segment_flags] s1(1) by simp
    then show "ram s1 = ram s" by (auto simp: paging_step_def)
    show "translate s1 w = translate s w" if "\<not> in_segment v m w" for w using tr [of w] that by simp
    show "translate s1 w \<noteq> None \<and> frame_of (phys s1 w) \<in> frame_of ` set ?fs" if "in_segment v m w" for w
      using tr [of w] that idx [OF that] wf(5) ph [OF that] translate_frame by (auto simp: translate_frame)
    show "w = x" if "in_segment v m w" "in_segment v m x" "phys s1 w = phys s1 x" for w x
    proof -
      let ?i = "\<lambda>w. unat w div 4096 - unat ?b div 4096"
      have "frame_of (?fs ! ?i w) = frame_of (?fs ! ?i x)"
        using that(3) translate_frame ph [OF that(1)] ph [OF that(2)] by metis
      then have "?i w = ?i x"
        using frames_apart [OF wf(2), of n] idx [OF that(1)] idx [OF that(2)] wf(5)
        by (simp add: distinct_conv_nth) metis
      then have "unat w div 4096 = unat x div 4096" using idx [OF that(1)] idx [OF that(2)] eq_diff_iff by blast
      moreover have "unat w mod 4096 = unat x mod 4096"
      proof -
        have on: "paging_on s1" using s1(2) by (simp add: vm_wf_def)
        have "translate s1 y = Some (phys s1 y)" if "in_segment v m y" for y using tr [of y] that by (simp add: phys_def)
        from this [OF that(1)] this [OF that(2)] show ?thesis using phys_offset [OF _ on] that(3) by metis
      qed
      ultimately have "unat w div 4096 * 4096 + unat w mod 4096 = unat x div 4096 * 4096 + unat x mod 4096"
        by (rule arg_cong2 [of _ _ _ _ "\<lambda>d r. d * 4096 + r"])
      then have "unat w = unat x" unfolding div_mult_mod_eq .
      then show ?thesis by (simp only: word_unat_eq_iff)
    qed
  qed
qed

lemma vm_wf_ram [simp]: "vm_wf (s\<lparr>ram := m\<rparr>) = vm_wf s"
  by (simp add: vm_wf_def present_def tframe_def)

definition keeps_outside :: "'a paging_scheme \<Rightarrow> u32 \<Rightarrow> u32 \<Rightarrow> nat \<Rightarrow> 'a paging_scheme \<Rightarrow> bool" where
  "keeps_outside s v m n t \<longleftrightarrow> (\<forall>w. \<not> in_segment v m w \<longrightarrow> translate t w = translate s w) \<and>
     (\<forall>q. frame_of q \<notin> frame_of ` set (frames_for n s) \<longrightarrow> ram t q = ram s q)"

lemma keeps_outside_mem:
  assumes "keeps_outside s v m n t" "clear_of_segment s v m n a len"
  shows "mapped t a len" "k < len \<Longrightarrow> mem t (a + of_nat k) = mem s (a + of_nat k)"
    "k < len \<Longrightarrow> phys t (a + of_nat k) = phys s (a + of_nat k)"
proof -
  have t: "translate t (a + of_nat k) = translate s (a + of_nat k)" if "k < len" for k
    using assms that by (simp add: keeps_outside_def clear_of_segment_def)
  then show "mapped t a len" using assms(2) by (simp add: mapped_def clear_of_segment_def)
  show ph: "k < len \<Longrightarrow> phys t (a + of_nat k) = phys s (a + of_nat k)" for k using t by (simp add: phys_def)
  show "k < len \<Longrightarrow> mem t (a + of_nat k) = mem s (a + of_nat k)"
    using assms ph by (simp add: mem_def keeps_outside_def clear_of_segment_def)
qed

lemma keeps_outside_word:
  assumes "keeps_outside s v m n t" "clear_of_segment s v m n a len" "k + 4 \<le> len"
  shows "load32 (a + of_nat k) t = Ret t (word32 s (a + of_nat k))"
proof -
  note K = keeps_outside_mem [OF assms(1,2)]
  have "mem t (a + of_nat k + of_nat j) = mem s (a + of_nat k + of_nat j)" if "j < 4" for j
    using K(2) [of "k + j"] that assms(3) by (simp add: add.assoc)
  from this [of 0] this [of 1] this [of 2] this [of 3]
  have "word32 t (a + of_nat k) = word32 s (a + of_nat k)"
    by (simp add: word32_def word16_def add.assoc)
  then show ?thesis using load32_word [OF mapped_sub [OF K(1) assms(3)]] by simp
qed

lemma segment_start_frame: "segment_start v = frame_of v"
  by (simp add: segment_start_def frame_of_def)

lemma segment_byte:
  assumes "unat v + unat m + 4095 < 2 ^ 32" "k < unat m"
  shows "in_segment v m (v + of_nat k)" "unat (v + of_nat k) = unat v + k"
proof -
  show u: "unat (v + of_nat k) = unat v + k"
    using assms by (simp add: unat_word_ariths unat_of_nat_u32)
  have e: "unat (v + m + 0xFFF) = unat v + unat m + 4095"
    using assms(1) by (simp add: unat_word_ariths)
  have "unat (segment_end v m) = 4096 * ((unat v + unat m + 4095) div 4096)"
    using frame_of_unat [of "v + m + 0xFFF"] e by (simp add: segment_end_def frame_of_def)
  moreover have "unat v + unat m \<le> 4096 * ((unat v + unat m + 4095) div 4096)" by linarith
  moreover have "4096 * (unat v div 4096) \<le> unat v" by simp
  ultimately show "in_segment v m (v + of_nat k)"
    using assms(2) frame_of_unat [of v] by (simp add: in_segment_def u segment_start_frame)
qed

text \<open>After \<open>load_segment\<close> the segment holds the bytes of the file and zeros up to its size in
  memory; nothing outside its pages and frames has changed.\<close>

lemma load_segment_ok:
  fixes s :: "'a paging_scheme"
  assumes v: "v = word32 s (ph + p_vaddr)" "m = word32 s (ph + p_memsz)" "fz = word32 s (ph + p_filesz)"
    "off = word32 s (ph + p_offset)" and fz: "unat fz \<le> unat m"
    and room: "segment_room s v m n" and hdr: "clear_of_segment s v m n ph 32"
    and src: "clear_of_segment s v m n (fl + off) (unat fz)"
  shows "\<exists>s'. load_segment ph fl s = Ret s' () \<and> vm_wf s' \<and> keeps_outside s v m n s' \<and>
    (\<forall>k < unat fz. mem s' (v + of_nat k) = mem s (fl + off + of_nat k)) \<and>
    (\<forall>k. unat fz \<le> k \<and> k < unat m \<longrightarrow> mem s' (v + of_nat k) = 0)"
proof (rule segment_mapped [OF room])
  fix s1
  assume pages: "segment_pages (segment_end v m) (segment_start v) s = Some (Ret s1 True)" "vm_wf s1" "ram s1 = ram s"
    and out: "\<And>w. \<not> in_segment v m w \<Longrightarrow> translate s1 w = translate s w"
    and ins: "\<And>w. in_segment v m w \<Longrightarrow> translate s1 w \<noteq> None \<and> frame_of (phys s1 w) \<in> frame_of ` set (frames_for n s)"
    and inj: "\<And>w x. in_segment v m w \<Longrightarrow> in_segment v m x \<Longrightarrow> phys s1 w = phys s1 x \<Longrightarrow> w = x"
  have top: "unat v + unat m + 4095 < 2 ^ 32" using room by (simp add: segment_room_def)
  note byte = segment_byte [OF top]
  have k0: "keeps_outside s v m n s" by (simp add: keeps_outside_def)
  have k1: "keeps_outside s v m n s1" using out pages(3) by (simp add: keeps_outside_def)
  note w0 = keeps_outside_word [OF k0 hdr]
  have fields: "load32 (ph + p_vaddr) t = Ret t v" "load32 (ph + p_memsz) t = Ret t m"
    "load32 (ph + p_filesz) t = Ret t fz" "load32 (ph + p_offset) t = Ret t off"
    if "keeps_outside s v m n t" for t
    using keeps_outside_word [OF that hdr, of 8] keeps_outside_word [OF that hdr, of 20]
      keeps_outside_word [OF that hdr, of 16] keeps_outside_word [OF that hdr, of 4]
    by (simp_all add: v p_vaddr_def p_memsz_def p_filesz_def p_offset_def)
  have inseg: "in_segment v m (v + of_nat k)" if "k < unat m" for k using byte(1) that .
  have ne: "phys s1 (v + of_nat k) \<noteq> phys s1 (v + of_nat l)" if "k < l" "l < unat m" for k l
  proof
    assume "phys s1 (v + of_nat k) = phys s1 (v + of_nat l)"
    then have "v + of_nat k = v + (of_nat l :: u32)" 
      by (rule inj [OF inseg [OF less_trans [OF that]] inseg [OF that(2)]])
    then have "unat (v + of_nat k) = unat (v + of_nat l)" by (rule arg_cong)
    then show False unfolding byte(2) [OF that(2)] byte(2) [OF less_trans [OF that]] using that(1) by simp
  qed
  note S = keeps_outside_mem [OF k1 src]
  have cross: "phys s1 (fl + off + of_nat l) \<noteq> phys s1 (v + of_nat k)" if "l < unat fz" "k < unat m" for k l
  proof -
    have "frame_of (phys s1 (fl + off + of_nat l)) \<notin> frame_of ` set (frames_for n s)"
      using src that(1) S(3) [OF that(1)] by (simp add: clear_of_segment_def)
    then show ?thesis using ins [OF inseg [OF that(2)]] by auto
  qed
  have "\<exists>m'. memcpy_loop (unat fz) (of_nat 0) v (fl + off) s1 = Ret (s1\<lparr>ram := m'\<rparr>) () \<and>
    (\<forall>k. 0 \<le> k \<and> k < 0 + unat fz \<longrightarrow> m' (phys s1 (v + of_nat k)) = ram s1 (phys s1 (fl + off + of_nat k))) \<and>
    (\<forall>q. (\<forall>k. 0 \<le> k \<and> k < 0 + unat fz \<longrightarrow> q \<noteq> phys s1 (v + of_nat k)) \<longrightarrow> m' q = ram s1 q)"
  proof (rule memcpy_loop_ok)
    show "translate s1 (fl + off + of_nat k) \<noteq> None \<and> translate s1 (v + of_nat k) \<noteq> None" if "k < 0 + unat fz" for k
      using mappedD [OF S(1)] ins [OF inseg] that fz by simp
    show "phys s1 (fl + off + of_nat l) \<noteq> phys s1 (v + of_nat k)" if "k < l" "l < 0 + unat fz" for k l
      using cross that fz by simp
    show "phys s1 (v + of_nat l) \<noteq> phys s1 (v + of_nat k)" if "k < l" "l < 0 + unat fz" for k l
      using ne [of k l] that fz by simp
  qed
  then obtain m' where cp: "memcpy v (fl + off) fz s1 = Ret (s1\<lparr>ram := m'\<rparr>) v"
    and m': "\<And>k. k < unat fz \<Longrightarrow> m' (phys s1 (v + of_nat k)) = ram s1 (phys s1 (fl + off + of_nat k))"
      "\<And>q. \<forall>k < unat fz. q \<noteq> phys s1 (v + of_nat k) \<Longrightarrow> m' q = ram s1 q"
    by (auto simp: memcpy_def)
  let ?s2 = "s1\<lparr>ram := m'\<rparr>"
  have other: "q \<noteq> phys s1 (v + of_nat k)" if "frame_of q \<notin> frame_of ` set (frames_for n s)" "k < unat m" for q k
    using ins [OF inseg [OF that(2)]] that(1) by auto
  have k2: "keeps_outside s v m n ?s2"
    using k1 m'(2) other fz by (auto simp: keeps_outside_def)
  let ?x = "v + of_nat (unat fz)"
  have x: "?x + of_nat k = v + of_nat (unat fz + k)" for k by (simp add: add.assoc)
  define s3 where "s3 = (if fz < m then ?s2\<lparr>ram := (\<lambda>q. if \<exists>k < unat (m - fz). q = phys ?s2 (?x + of_nat k) then 0 else ram ?s2 q)\<rparr> else ?s2)"
  have d: "unat (m - fz) = unat m - unat fz" using fz by (simp add: unat_sub word_le_nat_alt)
  have z: "translate ?s2 (?x + of_nat k) \<noteq> None" if "k < unat (m - fz)" for k
    unfolding x using ins [OF inseg [of "unat fz + k"]] that d by simp
  have "memset_loop (unat (m - fz)) ?x (0 :: u8) ?s2 =
      Ret (?s2\<lparr>ram := (\<lambda>q. if \<exists>k < unat (m - fz). q = phys ?s2 (?x + of_nat k) then 0 else ram ?s2 q)\<rparr>) ()"
    by (rule memset_loop_ok) (rule z)
  then have ms: "memset (v + fz) 0 (m - fz) ?s2 = Ret s3 ()" if "fz < m"
    using that by (simp add: memset_def s3_def)
  have zs: "frame_of (phys s1 (v + of_nat (unat fz + k))) \<in> frame_of ` set (frames_for n s)" if "k < unat (m - fz)" for k
    using ins [OF inseg [of "unat fz + k"]] that d by simp
  have tr3: "translate s3 = translate s1" "phys s3 = phys s1" "vm_wf s3 = vm_wf s1" by (simp_all add: s3_def fun_eq_iff)
  have ram3: "ram s3 q = (if \<exists>k < unat (m - fz). q = phys s1 (v + of_nat (unat fz + k)) then 0 else m' q)" for q
  proof (cases "fz < m")
    case True
    then show ?thesis unfolding s3_def x by auto
  next
    case False
    then have "unat (m - fz) = 0" using d by (simp add: word_less_nat_alt)
    with False show ?thesis by (simp add: s3_def)
  qed
  have k3: "keeps_outside s v m n s3"
    using k2 zs ram3 tr3(1) by (auto simp: keeps_outside_def)
  have file_bytes: "mem s3 (v + of_nat k) = mem s (fl + off + of_nat k)" if "k < unat fz" for k
  proof -
    have "phys s1 (v + of_nat k) \<noteq> phys s1 (v + of_nat (unat fz + j))" if "j < unat (m - fz)" for j
      using ne [of k "unat fz + j"] \<open>k < unat fz\<close> that d by simp
    then have "ram s3 (phys s1 (v + of_nat k)) = m' (phys s1 (v + of_nat k))" unfolding ram3 by auto
    then have "mem s3 (v + of_nat k) = mem s1 (fl + off + of_nat k)" using m'(1) [OF that] by (simp add: mem_def tr3(2))
    then show ?thesis using S(2) [OF that] by simp
  qed
  have zero_bytes: "mem s3 (v + of_nat k) = 0" if "unat fz \<le> k" "k < unat m" for k
  proof -
    have "k - unat fz < unat (m - fz)" "k = unat fz + (k - unat fz)" using that d by simp_all
    then show ?thesis unfolding mem_def tr3(2) ram3 by metis
  qed
  show ?thesis
  proof (intro exI conjI allI impI)
    show "load_segment ph fl s = Ret s3 ()"
      using fields [OF k0] fields [OF k1] fields [OF k2] pages(1) [unfolded segment_start_def segment_end_def] cp ms
      by (simp add: load_segment_def Let_def) (simp add: s3_def)
    show "keeps_outside s v m n s3" by (rule k3)
    show "vm_wf s3" using tr3(3) pages(2) by simp
    show "mem s3 (v + of_nat k) = mem s (fl + off + of_nat k)" if "k < unat fz" for k using file_bytes that .
    show "mem s3 (v + of_nat k) = 0" if "unat fz \<le> k \<and> k < unat m" for k using zero_bytes that by simp
  qed
qed

section \<open>Loading a file\<close>

text \<open>An executable with one loadable segment, which lies with its headers outside the pages and
  frames the segment will get.\<close>

definition one_segment :: "'a paging_scheme \<Rightarrow> u32 \<Rightarrow> u32 \<Rightarrow> nat \<Rightarrow> bool" where
  "one_segment s fl ph n \<longleftrightarrow>
     (let v = word32 s (ph + p_vaddr); m = word32 s (ph + p_memsz); fz = word32 s (ph + p_filesz)
      in valid_header s fl \<and> word16 s (fl + e_type) = ET_EXEC \<and> word16 s (fl + e_phnum) = 1 \<and>
         ph = fl + word32 s (fl + e_phoff) \<and> word32 s (ph + p_type) = PT_LOAD \<and> unat fz \<le> unat m \<and>
         segment_room s v m n \<and> clear_of_segment s v m n fl 52 \<and> clear_of_segment s v m n ph 32 \<and>
         clear_of_segment s v m n (fl + word32 s (ph + p_offset)) (unat fz))"

lemma keeps_outside_word16:
  assumes "keeps_outside s v m n t" "clear_of_segment s v m n a len" "k + 2 \<le> len"
  shows "load16 (a + of_nat k) t = Ret t (word16 s (a + of_nat k))"
proof -
  note K = keeps_outside_mem [OF assms(1,2)]
  have "mem t (a + of_nat k + of_nat j) = mem s (a + of_nat k + of_nat j)" if "j < 2" for j
    using K(2) [of "k + j"] that assms(3) by (simp add: add.assoc)
  from this [of 0] this [of 1] have "word16 t (a + of_nat k) = word16 s (a + of_nat k)"
    by (simp add: word16_def add.assoc)
  then show ?thesis using load16_word [OF mapped_sub [OF K(1) assms(3)]] by simp
qed

lemma elf_load_file_ok:
  fixes s :: "'a paging_scheme"
  assumes one: "one_segment s fl ph n"
    and v: "v = word32 s (ph + p_vaddr)" "m = word32 s (ph + p_memsz)" "fz = word32 s (ph + p_filesz)"
      "off = word32 s (ph + p_offset)"
  shows "\<exists>s'. elf_load_file fl s = Ret s' (word32 s (fl + e_entry)) \<and> vm_wf s' \<and> keeps_outside s v m n s' \<and>
    (\<forall>k < unat fz. mem s' (v + of_nat k) = mem s (fl + off + of_nat k)) \<and>
    (\<forall>k. unat fz \<le> k \<and> k < unat m \<longrightarrow> mem s' (v + of_nat k) = 0)"
proof -
  have h: "valid_header s fl" "word16 s (fl + e_type) = ET_EXEC" "word16 s (fl + e_phnum) = 1"
    "ph = fl + word32 s (fl + e_phoff)" "word32 s (ph + p_type) = PT_LOAD" "unat fz \<le> unat m"
    "segment_room s v m n" "clear_of_segment s v m n fl 52" "clear_of_segment s v m n ph 32"
    "clear_of_segment s v m n (fl + off) (unat fz)"
    using one unfolding one_segment_def Let_def v by blast+
  obtain s' where s': "load_segment ph fl s = Ret s' ()" "vm_wf s'" "keeps_outside s v m n s'"
    "\<forall>k < unat fz. mem s' (v + of_nat k) = mem s (fl + off + of_nat k)"
    "\<forall>k. unat fz \<le> k \<and> k < unat m \<longrightarrow> mem s' (v + of_nat k) = 0"
    using load_segment_ok [OF v h(6,7,9,10)] by blast
  have k0: "keeps_outside s v m n s" by (simp add: keeps_outside_def)
  have map: "mapped s fl 52" using h(8) by (simp add: clear_of_segment_def)
  note L = header_loads [OF map]
  have ph: "load32 (ph + p_type) s = Ret s PT_LOAD"
    using keeps_outside_word [OF k0 h(9), of 0] h(5) by (simp add: p_type_def)
  have num': "load16 (fl + e_phnum) s' = Ret s' 1"
    using keeps_outside_word16 [OF s'(3) h(8), of 44] h(3) by (simp add: e_phnum_def)
  have entry: "load32 (fl + e_entry) s' = Ret s' (word32 s (fl + e_entry))"
    using keeps_outside_word [OF s'(3) h(8), of 24] by (simp add: e_entry_def)
  have last: "elf_segments 1 fl ph fl s' = Ret s' ()"
    by (subst elf_segments.simps) (simp add: num')
  have "elf_segments 0 fl ph fl s = Ret s' ()"
    by (subst elf_segments.simps) (simp add: L h(3) ph s'(1) last Let_def)
  then have "elf_load_exec fl fl s = Ret s' (word32 s (fl + e_entry))"
    by (simp add: elf_load_exec_def L h(4) [symmetric] entry)
  then have "elf_load_file fl s = Ret s' (word32 s (fl + e_entry))"
    using check_elf_supported_ok(1) [OF map h(1)] by (simp add: elf_load_file_def L h(2) Let_def)
  with s' show ?thesis by blast
qed

text \<open>A file with a wrong header is refused, and only the screen changes.\<close>

lemma elf_load_file_refused:
  assumes "mapped s fl 52" "\<not> valid_header s fl"
  shows "\<exists>msg. elf_load_file fl s = Ret (kprint msg s) 0 \<or> elf_load_file fl s = Ret s 0"
  using check_elf_supported_ok(2) [OF assms] by (auto simp: elf_load_file_def Let_def)

end
