(* ===== verification/Syscall.thy ===== *)
theory Syscall
  imports Elf
begin

text \<open>
  The system calls of kernel/syscall.c and kernel/syscall.h and their dispatcher. A call
  works on the address of the trap frame the interrupt stub pushed; results go into the
  frame's EAX. A call that switches to another process does not return: its outcome is the
  frame the processor resumes with. The lemmas give the effect of each call on well-formed
  process lists, show that yielding is fair, and follow a child through exit and wait.
\<close>

section \<open>Call numbers\<close>

definition SYS_EXIT :: u32 where "SYS_EXIT = 0"
definition SYS_YIELD :: u32 where "SYS_YIELD = 1"
definition SYS_PRINTS :: u32 where "SYS_PRINTS = 2"
definition SYS_PRINTC :: u32 where "SYS_PRINTC = 3"
definition SYS_PRINTN :: u32 where "SYS_PRINTN = 4"
definition SYS_PRINTHEX :: u32 where "SYS_PRINTHEX = 5"
definition SYS_SLEEP :: u32 where "SYS_SLEEP = 6"
definition SYS_SECONDS :: u32 where "SYS_SECONDS = 7"
definition SYS_PRINT_SECONDS :: u32 where "SYS_PRINT_SECONDS = 8"
definition SYS_CREATE_PROCESS :: u32 where "SYS_CREATE_PROCESS = 9"
definition SYS_GET_PID :: u32 where "SYS_GET_PID = 10"
definition SYS_MALLOC :: u32 where "SYS_MALLOC = 11"
definition SYS_FREE :: u32 where "SYS_FREE = 12"
definition SYS_WAIT :: u32 where "SYS_WAIT = 13"
definition SYS_GET_PARENT_PID :: u32 where "SYS_GET_PARENT_PID = 14"
definition SYS_FORK :: u32 where "SYS_FORK = 15"
definition SYS_EXEC :: u32 where "SYS_EXEC = 16"

lemmas sys_numbers = SYS_EXIT_def SYS_YIELD_def SYS_PRINTS_def SYS_PRINTC_def SYS_PRINTN_def
  SYS_PRINTHEX_def SYS_SLEEP_def SYS_SECONDS_def SYS_PRINT_SECONDS_def SYS_CREATE_PROCESS_def
  SYS_GET_PID_def SYS_MALLOC_def SYS_FREE_def SYS_WAIT_def SYS_GET_PARENT_PID_def SYS_FORK_def
  SYS_EXEC_def

section \<open>Output\<close>

text \<open>\<open>print_string\<close> on a string in memory: one byte is read and printed at a time, up to
  the terminating NUL.\<close>

partial_function (option) prints_loop :: "u32 \<Rightarrow> 'a paging_scheme \<Rightarrow> ('a paging_scheme, unit) outcome option" where
  "prints_loop p s =
     (case load8 p s of
        Stop s r \<Rightarrow> Some (Stop s r)
      | Ret s c \<Rightarrow>
          if c = 0 then Some (Ret (move (word_of_int (scr_i s)) s) ())
          else (let (i, j, s) = print_string_char c (scr_i s, scr_j s, s)
                in prints_loop (p + 1) (s\<lparr>scr_i := i, scr_j := j\<rparr>)))"

definition sys_prints :: "u32 \<Rightarrow> 'a paging_scheme \<Rightarrow> ('a paging_scheme, unit) outcome" where
  "sys_prints str s = run_loop s (prints_loop str s)"

text \<open>\<open>sys_printc\<close> prints at the cursor and leaves the cursor where it is.\<close>

definition sys_printc :: "u8 \<Rightarrow> 'a screen_scheme \<Rightarrow> 'a screen_scheme" where
  "sys_printc c s = print c (scr_i s) s"

definition sys_printn :: "u32 \<Rightarrow> 'a screen_scheme \<Rightarrow> 'a screen_scheme" where
  "sys_printn n s = kprint_number n s"

definition sys_printhex :: "u32 \<Rightarrow> 'a screen_scheme \<Rightarrow> 'a screen_scheme" where
  "sys_printhex n s = kprint_hex n s"

definition sys_print_seconds :: "u32 \<Rightarrow> 'a screen_scheme \<Rightarrow> 'a screen_scheme" where
  "sys_print_seconds seconds s =
     snd (print_number seconds 160 (print_time_message (str_bytes ''Up Time'') 0 s))"

section \<open>Scheduling calls\<close>

text \<open>\<open>exit_process\<close> does not come back; the code loops if it did.\<close>

definition sys_exit :: "u32 \<Rightarrow> 'a sched_scheme \<Rightarrow> ('a sched_scheme, unit) outcome" where
  "sys_exit status s =
     bind_out (set_proc (current_process s) (\<lambda>p. p\<lparr>exit_code := status\<rparr>) s) (\<lambda>s _.
     bind_out (exit_process s) (\<lambda>s _. Stop s Diverges))"

definition sys_yield :: "u32 \<Rightarrow> 'a sched_scheme \<Rightarrow> ('a sched_scheme, unit) outcome" where
  "sys_yield r s =
     (let old = current_process s in
      bind_out (wake_processes s) (\<lambda>s _.
      bind_out (schedule s) (\<lambda>s p.
        if p \<noteq> 0 \<and> p \<noteq> old then context_switch r p s else Ret s ())))"

definition sys_sleep :: "u32 \<Rightarrow> u32 \<Rightarrow> 'a sched_scheme \<Rightarrow> ('a sched_scheme, unit) outcome" where
  "sys_sleep r time s =
     bind_out (set_proc (current_process s) (\<lambda>p. p\<lparr>wake := ticks s + time, pstate := PROCESS_BLOCKED\<rparr>) s) (\<lambda>s _.
     bind_out (schedule s) (\<lambda>s p.
       if p \<noteq> 0 \<and> p \<noteq> current_process s then context_switch r p s else Ret s ()))"

section \<open>Processes\<close>

definition sys_create_process :: "u32 \<Rightarrow> u32 \<Rightarrow> 'a sched_scheme \<Rightarrow> ('a sched_scheme, u32) outcome" where
  "sys_create_process entry mode s =
     bind_out (create_process entry mode s) (\<lambda>s pro.
     bind_out (is_valid_process_ptr pro s) (\<lambda>s valid.
       if \<not> valid then Ret (kprint (str_bytes ''unvalid process'') s) 0
       else Ret s pro))"

definition sys_get_pid :: "'a sched_scheme \<Rightarrow> ('a sched_scheme, u32) outcome" where
  "sys_get_pid s = bind_out (get_proc (current_process s) s) (\<lambda>s p. Ret s (pid p))"

definition sys_get_parent_pid :: "u32 \<Rightarrow> 'a sched_scheme \<Rightarrow> ('a sched_scheme, u32) outcome" where
  "sys_get_parent_pid pro s =
     bind_out (is_valid_process_ptr pro s) (\<lambda>s valid.
       if \<not> valid then Ret s (- 1)
       else bind_out (get_proc pro s) (\<lambda>s p.
         if parent p = 0 then Ret s (- 1)
         else bind_out (get_proc (parent p) s) (\<lambda>s q. Ret s (pid q))))"

definition sys_kmalloc :: "u32 \<Rightarrow> 'a heap_scheme \<Rightarrow> ('a heap_scheme, u32) outcome" where
  "sys_kmalloc sz s = kmalloc sz (PAGE_PRESENT OR PAGE_WRITE OR PAGE_USER) s"

definition sys_free :: "u32 \<Rightarrow> 'a heap_scheme \<Rightarrow> ('a heap_scheme, unit) outcome" where
  "sys_free address s = kfree address s"

text \<open>The search of \<open>sys_wait\<close>: the first zombie whose parent has the number of the caller.
  The parent pointer is followed without a check, as is the status pointer.\<close>

definition wait_hit :: "u32 \<Rightarrow> 'a sched_scheme \<Rightarrow> u32 \<Rightarrow> ('a sched_scheme, u32 option) outcome option" where
  "wait_hit status s p =
     (if p = 0 then Some (Ret s None)
      else case get_proc p s of
        Stop s r \<Rightarrow> Some (Stop s r)
      | Ret s x \<Rightarrow>
        (case get_proc (parent x) s of
           Stop s r \<Rightarrow> Some (Stop s r)
         | Ret s q \<Rightarrow>
           (case get_proc (current_process s) s of
              Stop s r \<Rightarrow> Some (Stop s r)
            | Ret s c \<Rightarrow>
                if pid q = pid c \<and> pstate x = PROCESS_ZOMBIE then
                  Some (bind_out (store32 status (exit_code x) s) (\<lambda>s _. Ret s (Some (pid x))))
                else None)))"

partial_function (option) wait_loop ::
  "u32 \<Rightarrow> 'a sched_scheme \<Rightarrow> u32 \<Rightarrow> ('a sched_scheme, u32 option) outcome option" where
  "wait_loop status s p =
     (case wait_hit status s p of Some r \<Rightarrow> Some r | None \<Rightarrow> wait_loop status s (next_proc s p))"

definition sys_wait :: "u32 \<Rightarrow> u32 \<Rightarrow> 'a sched_scheme \<Rightarrow> ('a sched_scheme, u32) outcome" where
  "sys_wait status r s =
     bind_out (run_loop s (wait_loop status s (process_list s))) (\<lambda>s found.
       case found of
         Some n \<Rightarrow> Ret s n
       | None \<Rightarrow>
           bind_out (set_proc (current_process s) (\<lambda>p. p\<lparr>pstate := PROCESS_BLOCKED\<rparr>) s) (\<lambda>s _.
           bind_out (set_regs r (\<lambda>x. x\<lparr>r_eax := - 1\<rparr>) s) (\<lambda>s _.
           bind_out (schedule s) (\<lambda>s p.
             if p = 0 \<or> p = current_process s then
               panic (str_bytes ''PANIC: no runnable process'' @ [10]) s
             else bind_out (context_switch r p s) (\<lambda>s _. Ret s (- 1))))))"

section \<open>Fork\<close>

text \<open>The frame-pointer chain of the copied user stack: every saved EBP that points into the
  parent's stack page is moved by \<open>delta\<close>.\<close>

partial_function (option) fork_frames ::
  "u32 \<Rightarrow> u32 \<Rightarrow> u32 \<Rightarrow> u32 \<Rightarrow> u32 \<Rightarrow> 'a paging_scheme \<Rightarrow> ('a paging_scheme, unit) outcome option" where
  "fork_frames parent_top child_top used delta frame s =
     (if child_top - used \<le> frame \<and> frame < child_top - 4 then
        (case load32 frame s of
           Stop s r \<Rightarrow> Some (Stop s r)
         | Ret s saved_ebp \<Rightarrow>
             if parent_top - 4096 \<le> saved_ebp \<and> saved_ebp < parent_top then
               (case store32 frame (saved_ebp + delta) s of
                  Stop s r \<Rightarrow> Some (Stop s r)
                | Ret s u \<Rightarrow> fork_frames parent_top child_top used delta (saved_ebp + delta) s)
             else Some (Ret s ()))
      else Some (Ret s ()))"

definition fork_stack :: "u32 \<Rightarrow> u32 \<Rightarrow> u32 \<Rightarrow> u32 \<Rightarrow> 'a sched_scheme \<Rightarrow> ('a sched_scheme, unit) outcome" where
  "fork_stack par child r child_regs s =
     bind_out (get_proc par s) (\<lambda>s pp.
     bind_out (get_proc child s) (\<lambda>s cp.
     let parent_top = user_stack pp + 4096;
         child_top = user_stack cp + 4096;
         delta = child_top - parent_top
     in bind_out (get_regs r s) (\<lambda>s x.
        let used = parent_top - r_user_esp x
        in bind_out (memcpy (child_top - used) (parent_top - used) used s) (\<lambda>s _.
           bind_out (set_regs child_regs (\<lambda>y. y\<lparr>r_user_esp := child_top - used,
                                                  r_ebp := r_ebp x + delta\<rparr>) s) (\<lambda>s _.
           bind_out (get_regs child_regs s) (\<lambda>s y.
             run_loop s (fork_frames parent_top child_top used delta (r_ebp y) s)))))))"

definition sys_fork :: "u32 \<Rightarrow> 'a sched_scheme \<Rightarrow> ('a sched_scheme, u32) outcome" where
  "sys_fork r s =
     (let par = current_process s in
      bind_out (create_process 0 PROCESS_USER s) (\<lambda>s child.
      if child = 0 then
        bind_out (set_regs r (\<lambda>x. x\<lparr>r_eax := - 1\<rparr>) s) (\<lambda>s _. Ret s (- 1))
      else
        bind_out (get_proc child s) (\<lambda>s cp.
        let child_regs = regs cp in
        bind_out (get_regs child_regs s) (\<lambda>s old.
        bind_out (get_regs r s) (\<lambda>s x.
        bind_out (set_regs child_regs (\<lambda>_. x\<lparr>r_eax := 0, r_user_esp := r_user_esp old\<rparr>) s) (\<lambda>s _.
        bind_out (fork_stack par child r child_regs s) (\<lambda>s _.
        bind_out (get_proc child s) (\<lambda>s cp.
        bind_out (set_regs r (\<lambda>x. x\<lparr>r_eax := pid cp\<rparr>) s) (\<lambda>s _.
        bind_out (set_proc child (\<lambda>p. p\<lparr>parent := par, pstate := PROCESS_READY\<rparr>) s) (\<lambda>s _.
          Ret s (pid cp)))))))))))"

section \<open>Exec\<close>

definition sys_exec :: "u32 \<Rightarrow> u32 \<Rightarrow> 'a sched_scheme \<Rightarrow> ('a sched_scheme, u32) outcome" where
  "sys_exec file r s =
     bind_out (elf_load_file file s) (\<lambda>s entry.
     if entry = 0 then Ret s (- 1)
     else
       bind_out (set_regs r (\<lambda>x. x\<lparr>r_eip := entry, r_ebp := 0\<rparr>) s) (\<lambda>s _.
       let (phy, s) = allocate 4096 s
       in if phy = 0 then Ret s (- 1)
          else
            bind_out (map_page phy (USER_STACK_TOP - 4096) (PAGE_PRESENT OR PAGE_WRITE OR PAGE_USER) s) (\<lambda>s _.
            bind_out (set_regs r (\<lambda>x. x\<lparr>r_user_esp := USER_STACK_TOP\<rparr>) s) (\<lambda>s _. Ret s 0))))"

section \<open>The dispatcher\<close>

text \<open>\<open>regs->eax = call\<close>.\<close>

definition result_to_eax ::
  "u32 \<Rightarrow> ('a sched_scheme, u32) outcome \<Rightarrow> ('a sched_scheme, unit) outcome" where
  "result_to_eax r m = bind_out m (\<lambda>s v. set_regs r (\<lambda>x. x\<lparr>r_eax := v\<rparr>) s)"

definition syscall_dispatch :: "u32 \<Rightarrow> 'a sched_scheme \<Rightarrow> ('a sched_scheme, unit) outcome" where
  "syscall_dispatch r s =
     bind_out (get_regs r s) (\<lambda>s x.
       let n = r_eax x; b = r_ebx x
       in if n = SYS_EXIT then sys_exit b s
          else if n = SYS_YIELD then sys_yield r s
          else if n = SYS_PRINTS then sys_prints b s
          else if n = SYS_PRINTC then Ret (sys_printc (ucast b) s) ()
          else if n = SYS_PRINTN then Ret (sys_printn b s) ()
          else if n = SYS_PRINTHEX then Ret (sys_printhex b s) ()
          else if n = SYS_SECONDS then result_to_eax r (Ret s (get_seconds s))
          else if n = SYS_PRINT_SECONDS then Ret (sys_print_seconds b s) ()
          else if n = SYS_SLEEP then sys_sleep r b s
          else if n = SYS_CREATE_PROCESS then result_to_eax r (sys_create_process b (r_ecx x) s)
          else if n = SYS_GET_PID then result_to_eax r (sys_get_pid s)
          else if n = SYS_MALLOC then result_to_eax r (sys_kmalloc b s)
          else if n = SYS_FREE then sys_free b s
          else if n = SYS_WAIT then result_to_eax r (sys_wait b r s)
          else if n = SYS_GET_PARENT_PID then result_to_eax r (sys_get_parent_pid b s)
          else if n = SYS_FORK then result_to_eax r (sys_fork r s)
          else if n = SYS_EXEC then result_to_eax r (sys_exec b r s)
          else Ret s ())"

section \<open>Yield\<close>

text \<open>The scheduler's invariant: the list is well formed, the current process is on it, and
  every process has a mapped frame to resume from.\<close>

definition sched_ok :: "'a sched_scheme \<Rightarrow> u32 list \<Rightarrow> bool" where
  "sched_ok s ps \<longleftrightarrow> plist s ps \<and> current_process s \<in> set ps \<and> (\<forall>p \<in> set ps. runnable s p)"

lemma sched_okD:
  assumes "sched_ok s ps"
  shows "plist s ps" "current_process s \<in> set ps" "p \<in> set ps \<Longrightarrow> runnable s p" "runnable s (current_process s)"
    "p \<in> set ps \<Longrightarrow> translate s p \<noteq> None"
  using assms by (auto simp: sched_ok_def runnable_def)

lemma sched_ok_cong:
  assumes "sched_ok s ps" "current_process s' \<in> set ps" "process_list s' = process_list s"
    "\<And>p. p \<in> set ps \<Longrightarrow> next_proc s' p = next_proc s p \<and> regs (procs s' p) = regs (procs s p)"
    "\<And>v. translate s' v = translate s v"
  shows "sched_ok s' ps"
proof -
  have "plist s' ps" by (rule plist_cong [OF _ _ _ sched_okD(1) [OF assms(1)]]) (use assms in simp_all)
  moreover have "runnable s' p" if "p \<in> set ps" for p
    using sched_okD(3) [OF assms(1) that] assms(4) [OF that] assms(5) by (simp add: runnable_def)
  ultimately show ?thesis using assms(2) by (simp add: sched_ok_def)
qed

lemma sched_ok_woken: "sched_ok s ps \<Longrightarrow> sched_ok (woken P s) ps"
  by (rule sched_ok_cong) (auto simp: sched_ok_def woken_def)

lemma sched_ok_switched:
  "sched_ok s ps \<Longrightarrow> q \<in> set ps \<Longrightarrow> sched_ok (switched r q s) ps"
  by (rule sched_ok_cong) auto

text \<open>The processes in the order the scheduler looks at them.\<close>

definition behind :: "'a \<Rightarrow> 'a list \<Rightarrow> 'a list" where
  "behind c ps = tl (dropWhile (\<lambda>p. p \<noteq> c) ps) @ takeWhile (\<lambda>p. p \<noteq> c) ps"

lemma behind_split [simp]: "c \<notin> set xs \<Longrightarrow> behind c (xs @ c # ys) = ys @ xs"
proof -
  assume "c \<notin> set xs"
  then have "p \<noteq> c" if "p \<in> set xs" for p using that by blast
  then show ?thesis by (simp add: behind_def dropWhile_append2 takeWhile_append2)
qed

lemma behind_cases:
  assumes "distinct ps" "c \<in> set ps"
  obtains xs ys where "ps = xs @ c # ys" "behind c ps = ys @ xs" "c \<notin> set xs" "c \<notin> set ys"
proof -
  obtain xs ys where "ps = xs @ c # ys" "c \<notin> set xs" using assms(2) split_list_first by metis
  with assms(1) behind_split [of c xs ys] show ?thesis by (intro that [of xs ys]) simp_all
qed

lemma set_behind: "distinct ps \<Longrightarrow> c \<in> set ps \<Longrightarrow> set (behind c ps) = set ps - {c}"
  by (erule (1) behind_cases) auto

lemma schedule_behind:
  assumes "plist s ps" "current_process s \<in> set ps"
  shows "schedule s = Ret s (first_ready s (behind (current_process s) ps))"
proof (rule behind_cases [OF plistD(3) [OF assms(1)] assms(2)])
  fix xs ys assume ps: "ps = xs @ current_process s # ys" "behind (current_process s) ps = ys @ xs"
  show ?thesis using schedule_ok [OF assms(1) [unfolded ps(1)] refl] unfolding ps(2) .
qed

definition chosen :: "'a sched_scheme \<Rightarrow> u32 list \<Rightarrow> u32" where
  "chosen s ps = first_ready s (behind (current_process s) ps)"

lemma chosen_in:
  assumes "plist s ps" "current_process s \<in> set ps" "chosen s ps \<noteq> 0"
  shows "chosen s ps \<in> set ps" "chosen s ps \<noteq> current_process s" "ready s (chosen s ps)"
  using first_ready_in [of s "behind (current_process s) ps"] assms(3)
    set_behind [OF plistD(3) [OF assms(1)] assms(2)] by (auto simp: chosen_def)

lemma sys_yield_ok:
  assumes ok: "sched_ok s ps" and r: "translate s r \<noteq> None"
  shows "sys_yield r s = (let w = woken (set ps) s; q = chosen w ps
     in if q = 0 then Ret w () else Stop (switched r q w) (Resume (regs (procs s q))))"
proof -
  let ?w = "woken (set ps) s" and ?q = "chosen (woken (set ps) s) ps"
  note D = sched_okD [OF ok]
  have w: "sched_ok ?w ps" using sched_ok_woken [OF ok] .
  note W = sched_okD [OF w]
  have s: "schedule ?w = Ret ?w ?q" unfolding chosen_def by (rule schedule_behind [OF W(1,2)])
  show ?thesis
  proof (cases "?q = 0")
    case True
    then show ?thesis by (simp add: sys_yield_def wake_processes_ok [OF D(1)] s Let_def)
  next
    case False
    note q = chosen_in [OF W(1,2) False]
    have "context_switch r ?q ?w = Stop (switched r ?q ?w) (Resume (regs (procs ?w ?q)))"
      by (rule context_switch_ok) (use W(3) W(4) q(1) r in simp_all)
    with False q(2) show ?thesis by (simp add: sys_yield_def wake_processes_ok [OF D(1)] s Let_def)
  qed
qed

lemma sys_yield_state:
  assumes ok: "sched_ok s ps" and r: "translate s r \<noteq> None"
  defines "s' \<equiv> out_state (sys_yield r s)"
  shows "sched_ok s' ps" "procs s' = procs (woken (set ps) s)" "translate s' v = translate s v"
    "ticks s' = ticks s" "process_list s' = process_list s"
    "current_process s' = (let q = chosen (woken (set ps) s) ps in if q = 0 then current_process s else q)"
proof -
  let ?w = "woken (set ps) s" and ?q = "chosen (woken (set ps) s) ps"
  have w: "sched_ok ?w ps" using sched_ok_woken [OF ok] .
  have e: "s' = (if ?q = 0 then ?w else switched r ?q ?w)"
    unfolding s'_def sys_yield_ok [OF ok r] by (simp add: Let_def)
  show "sched_ok s' ps"
    unfolding e using w sched_ok_switched [OF w chosen_in(1) [OF sched_okD(1,2) [OF w]]] by simp
  show "procs s' = procs ?w" "translate s' v = translate s v" "ticks s' = ticks s"
    "process_list s' = process_list s"
    "current_process s' = (let q = chosen ?w ps in if q = 0 then current_process s else q)"
    unfolding e by (simp_all add: woken_def Let_def)
qed

section \<open>Fairness\<close>

lemma behind_rotate:
  assumes "distinct ps" "c \<in> set ps" "behind c ps = us @ q # vs"
  shows "behind q ps = vs @ c # us"
proof (rule behind_cases [OF assms(1,2)])
  fix xs ys assume ps: "ps = xs @ c # ys" and b: "behind c ps = ys @ xs"
  from b assms(3) have "ys @ xs = us @ q # vs" by simp
  then consider (left) zs where "ys = us @ q # zs" "vs = zs @ xs" | (right) zs where "us = ys @ zs" "xs = zs @ q # vs"
    by (auto simp: append_eq_append_conv2 append_eq_Cons_conv)
  then show ?thesis
  proof cases
    case left
    then have "ps = (xs @ c # us) @ q # zs" using ps by simp
    with left assms(1) show ?thesis using behind_split [of q "xs @ c # us" zs] by auto
  next
    case right
    then have "ps = zs @ q # (vs @ c # ys)" using ps by simp
    with right assms(1) show ?thesis using behind_split [of q zs "vs @ c # ys"] by auto
  qed
qed

definition yields :: "u32 list \<Rightarrow> 'a sched_scheme \<Rightarrow> 'a sched_scheme" where
  "yields rs s = fold (\<lambda>r s. out_state (sys_yield r s)) rs s"

lemma yields_ok:
  assumes "sched_ok s ps" "\<forall>r \<in> set rs. translate s r \<noteq> None"
  shows "sched_ok (yields rs s) ps \<and> (\<forall>v. translate (yields rs s) v = translate s v)"
  using assms
proof (induction rs arbitrary: s)
  case Nil
  then show ?case by (simp add: yields_def)
next
  case (Cons r rs)
  note S = sys_yield_state [OF Cons.prems(1), of r]
  have "sched_ok (yields rs (out_state (sys_yield r s))) ps \<and>
    (\<forall>v. translate (yields rs (out_state (sys_yield r s))) v = translate (out_state (sys_yield r s)) v)"
    by (rule Cons.IH) (use S Cons.prems in auto)
  then show ?case using S(3) Cons.prems(2) by (simp add: yields_def)
qed

lemma yield_turn:
  assumes "sched_ok s ps" "\<forall>r \<in> set rs. translate s r \<noteq> None" "ready s p"
    and "behind (current_process s) ps = us @ p # vs" "length us < length rs"
  shows "\<exists>n \<le> length rs. current_process (yields (take n rs) s) = p"
  using assms
proof (induction "length us" arbitrary: s us vs rs rule: less_induct)
  case less
  obtain r rs' where rs: "rs = r # rs'" using less.prems(5) by (cases rs) auto
  let ?w = "woken (set ps) s" and ?c = "current_process s"
  define s' where "s' = out_state (sys_yield r s)"
  note D = sched_okD [OF less.prems(1)]
  note dist = plistD(3,4) [OF D(1)]
  have r: "translate s r \<noteq> None" using less.prems(2) rs by simp
  note S = sys_yield_state [OF less.prems(1) r, folded s'_def]
  have p: "ready ?w p" using less.prems(3) by (simp add: woken_ready)
  have mem: "set us \<union> {p} \<subseteq> set ps" using set_behind [OF dist(1) D(2)] less.prems(4) by auto
  then have nz: "0 \<notin> set us" "p \<noteq> 0" using dist(2) by auto
  define q where "q = chosen ?w ps"
  have q: "q = first_ready ?w (us @ p # vs)" using less.prems(4) by (simp add: q_def chosen_def)
  show ?case
  proof (cases "\<exists>u \<in> set us. ready ?w u")
    case False
    then have "q = p" unfolding q first_ready_append using p by simp
    then have "current_process s' = p" using S(6) nz(2) by (simp add: q_def Let_def)
    then show ?thesis by (intro exI [of _ 1]) (simp add: rs yields_def s'_def)
  next
    case True
    then have "q = first_ready ?w us" unfolding q first_ready_append by simp
    moreover have "first_ready ?w us \<noteq> 0" using True first_ready_zero [OF nz(1)] by blast
    ultimately have qu: "q \<in> set us" "q \<noteq> 0" using first_ready_in [of ?w us] by auto
    then have c': "current_process s' = q" using S(6) by (simp add: q_def Let_def)
    obtain a b where us: "us = a @ q # b" using qu(1) by (meson split_list)
    have b': "behind q ps = b @ p # (vs @ ?c # a)"
      using behind_rotate [OF dist(1) D(2), of a q "b @ p # vs"] less.prems(4) us by simp
    have "\<exists>n \<le> length rs'. current_process (yields (take n rs') s') = p"
    proof (rule less.hyps [of b])
      show "length b < length us" "length b < length rs'" using us less.prems(5) rs by simp_all
      show "sched_ok s' ps" "\<forall>r \<in> set rs'. translate s' r \<noteq> None"
        using S(1) S(3) less.prems(2) rs by simp_all
      show "ready s' p" using p by (simp add: S(2))
      show "behind (current_process s') ps = b @ p # (vs @ ?c # a)" using b' c' by simp
    qed
    then obtain n where "n \<le> length rs'" "current_process (yields (take n rs') s') = p" by blast
    then show ?thesis by (intro exI [of _ "Suc n"]) (simp add: rs yields_def s'_def)
  qed
qed

lemma every_ready_process_runs:
  assumes ok: "sched_ok s ps" and rs: "\<forall>r \<in> set rs. translate s r \<noteq> None" "length ps \<le> Suc (length rs)"
    and p: "p \<in> set ps" "ready s p"
  shows "\<exists>n \<le> length rs. current_process (yields (take n rs) s) = p"
proof (cases "p = current_process s")
  case True
  then show ?thesis by (intro exI [of _ 0]) (simp add: yields_def)
next
  case False
  note D = sched_okD [OF ok]
  note dist = plistD(3) [OF D(1)]
  have "p \<in> set (behind (current_process s) ps)" using set_behind [OF dist D(2)] p(1) False by simp
  then obtain us vs where b: "behind (current_process s) ps = us @ p # vs" by (meson split_list)
  have "length (behind (current_process s) ps) < length ps" by (rule behind_cases [OF dist D(2)]) simp
  then have "length us < length rs" using b rs(2) by simp
  then show ?thesis by (rule yield_turn [OF ok rs(1) p(2) b])
qed

section \<open>Sleep\<close>

definition asleep :: "u32 \<Rightarrow> 'a sched_scheme \<Rightarrow> 'a sched_scheme" where
  "asleep time s = update_proc (current_process s)
     (\<lambda>p. p\<lparr>wake := ticks s + time, pstate := PROCESS_BLOCKED\<rparr>) s"

lemma asleep_fields [simp]:
  "current_process (asleep time s) = current_process s" "regs (procs (asleep time s) p) = regs (procs s p)"
  "translate (asleep time s) v = translate s v" "pnext (procs (asleep time s) p) = pnext (procs s p)"
  "process_list (asleep time s) = process_list s" "ticks (asleep time s) = ticks s"
  by (simp_all add: asleep_def)

lemma sched_ok_asleep: "sched_ok s ps \<Longrightarrow> sched_ok (asleep time s) ps"
  by (rule sched_ok_cong) (auto simp: sched_ok_def)

lemma sys_sleep_ok:
  assumes ok: "sched_ok s ps" and r: "translate s r \<noteq> None"
  shows "sys_sleep r time s = (let t = asleep time s; q = chosen t ps
     in if q = 0 then Ret t () else Stop (switched r q t) (Resume (regs (procs s q))))"
proof -
  let ?t = "asleep time s"
  note D = sched_okD [OF ok]
  note T = sched_okD [OF sched_ok_asleep [OF ok, of time]]
  have a: "set_proc (current_process s) (\<lambda>p. p\<lparr>wake := ticks s + time, pstate := PROCESS_BLOCKED\<rparr>) s = Ret ?t ()"
    using D(5) [OF D(2)] by (simp add: access_mapped asleep_def)
  have c: "schedule ?t = Ret ?t (chosen ?t ps)"
    using schedule_behind [OF T(1,2)] by (simp add: chosen_def)
  show ?thesis
  proof (cases "chosen ?t ps = 0")
    case True
    then show ?thesis by (simp add: sys_sleep_def a c Let_def)
  next
    case False
    note q = chosen_in [OF T(1,2) False]
    have "context_switch r (chosen ?t ps) ?t = Stop (switched r (chosen ?t ps) ?t) (Resume (regs (procs ?t (chosen ?t ps))))"
      by (rule context_switch_ok) (use T(3) T(4) q(1) r in simp_all)
    then show ?thesis using False q(2) by (simp add: sys_sleep_def a c Let_def)
  qed
qed

text \<open>A process that is not current, is blocked and whose time has not come stays so through
  a yield of whatever process is running.\<close>

lemma yield_keeps_asleep:
  assumes ok: "sched_ok s ps" and r: "translate s r \<noteq> None"
    and p: "pstate (procs s p) = PROCESS_BLOCKED" "\<not> wake (procs s p) \<le>s ticks s" "current_process s \<noteq> p"
  shows "current_process (out_state (sys_yield r s)) \<noteq> p \<and> procs (out_state (sys_yield r s)) p = procs s p"
proof -
  note S = sys_yield_state [OF ok r]
  have e: "procs (woken (set ps) s) p = procs s p" using p by (simp add: woken_def due_def)
  have w: "sched_ok (woken (set ps) s) ps" using sched_ok_woken [OF ok] .
  have "chosen (woken (set ps) s) ps \<noteq> p" if "chosen (woken (set ps) s) ps \<noteq> 0"
    using chosen_in(3) [OF sched_okD(1,2) [OF w] that] e p(1) by auto
  with S(2,6) e p(3) show ?thesis by (auto simp: Let_def)
qed

section \<open>Strings of a caller\<close>

text \<open>The memory at \<open>p\<close> holds the bytes \<open>cs\<close> and a terminating NUL.\<close>

primrec c_string :: "'a paging_scheme \<Rightarrow> u32 \<Rightarrow> u8 list \<Rightarrow> bool" where
  "c_string s p [] \<longleftrightarrow> translate s p \<noteq> None \<and> mem s p = 0"
| "c_string s p (c # cs) \<longleftrightarrow> translate s p \<noteq> None \<and> mem s p = c \<and> c \<noteq> 0 \<and> c_string s (p + 1) cs"

lemma c_string_cong:
  "(\<And>v. translate s' v = translate s v) \<Longrightarrow> ram s' = ram s \<Longrightarrow> c_string s' p cs = c_string s p cs"
  by (induction cs arbitrary: p) (simp_all add: mem_def phys_def)

lemma load8_char: "translate s p \<noteq> None \<Longrightarrow> load8 p s = Ret s (mem s p)"
  by (simp add: load8_mapped mem_def)

text \<open>A character printed with the cursor in the globals.\<close>

definition at_cursor :: "int \<times> int \<times> 'a screen_scheme \<Rightarrow> 'a screen_scheme" where
  "at_cursor st = (case st of (i, j, s) \<Rightarrow> s\<lparr>scr_i := i, scr_j := j\<rparr>)"

lemma at_cursor_fields [simp]:
  "scr_i (at_cursor (i, j, s)) = i" "scr_j (at_cursor (i, j, s)) = j"
  by (simp_all add: at_cursor_def)

lemma load8_cursor:
  "translate s p \<noteq> None \<Longrightarrow> load8 p (at_cursor (i, j, s)) = Ret (at_cursor (i, j, s)) (mem s p)"
proof -
  have "translate (at_cursor (i, j, s)) v = translate s v" for v
    by (simp add: at_cursor_def translate_def pte_addr_def)
  moreover have "ram (at_cursor (i, j, s)) = ram s" by (simp add: at_cursor_def)
  ultimately show "translate s p \<noteq> None \<Longrightarrow> ?thesis" by (simp add: load8_char mem_def phys_def)
qed

lemma string_char_cursor:
  "print_string_char c (i, j, s\<lparr>scr_i := a, scr_j := b\<rparr>) =
     (case print_string_char c (i, j, s) of (i', j', s') \<Rightarrow> (i', j', s'\<lparr>scr_i := a, scr_j := b\<rparr>))"
  by (simp add: add_line_if_needed_def add_line_def print_def Let_def)

lemma at_cursor_char:
  "at_cursor (print_string_char c (i, j, s\<lparr>scr_i := a, scr_j := b\<rparr>)) = at_cursor (print_string_char c (i, j, s))"
  unfolding string_char_cursor by (cases "print_string_char c (i, j, s)") (simp add: at_cursor_def)

lemma string_char_vram:
  obtains v where "snd (snd (print_string_char c (i, j, s))) = s\<lparr>vram := v\<rparr>"
  using vram_only_string_char [of "(i, j, s)" c] by (auto simp: vram_only_def)

lemma prints_loop_eq:
  fixes s :: "'a paging_scheme"
  assumes "c_string s p cs"
  shows "prints_loop p (at_cursor (i, j, s)) =
    Some (Ret (let t = at_cursor (fold print_string_char cs (i, j, s)) in move (word_of_int (scr_i t)) t) ())"
  using assms
proof (induction cs arbitrary: p i j s)
  case Nil
  then show ?case
    by (subst prints_loop.simps) (simp add: load8_cursor)
next
  case (Cons c cs)
  obtain i' j' s' where p: "print_string_char c (i, j, s) = (i', j', s')" by (metis prod_cases3)
  obtain v where s': "s' = s\<lparr>vram := v\<rparr>" using string_char_vram [of c i j s] p by auto
  have cs: "c_string s' (p + 1) cs"
    using Cons.prems c_string_cong [of s' s "p + 1" cs] by (simp add: s' translate_def pte_addr_def)
  have "load8 p (at_cursor (i, j, s)) = Ret (at_cursor (i, j, s)) c"
    using Cons.prems by (simp add: load8_cursor)
  moreover have "print_string_char c (i, j, at_cursor (i, j, s)) = (i', j', s'\<lparr>scr_i := i, scr_j := j\<rparr>)"
    using string_char_cursor [where a = i and b = j and c = c and i = i and j = j and s = s] by (simp add: at_cursor_def p del: print_string_char.simps)
  moreover have "s'\<lparr>scr_i := i, scr_j := j, scr_i := i', scr_j := j'\<rparr> = at_cursor (i', j', s')"
    by (simp add: at_cursor_def)
  moreover have "scr_i (at_cursor (i, j, s)) = i" "scr_j (at_cursor (i, j, s)) = j" by (simp_all add: at_cursor_def)
  ultimately have "prints_loop p (at_cursor (i, j, s)) = prints_loop (p + 1) (at_cursor (i', j', s'))"
    using Cons.prems by (subst prints_loop.simps) (simp add: Let_def del: print_string_char.simps)
  also have "\<dots> = Some (Ret (let t = at_cursor (fold print_string_char cs (i', j', s')) in move (word_of_int (scr_i t)) t) ())"
    by (rule Cons.IH [OF cs])
  finally show ?case by (simp add: p del: print_string_char.simps)
qed

lemma sys_prints_ok:
  assumes "c_string s p cs"
  shows "sys_prints p s = Ret (kprint cs s) ()"
proof -
  obtain i j t where f: "fold print_string_char cs (scr_i s, scr_j s, s) = (i, j, t)" by (metis prod_cases3)
  have "at_cursor (scr_i s, scr_j s, s) = s" by (simp add: at_cursor_def)
  then show ?thesis
    using prints_loop_eq [OF assms, of "scr_i s" "scr_j s"]
    by (simp add: sys_prints_def kprint_def print_string_def f at_cursor_def move_def hw_ops)
qed

section \<open>Identity\<close>

lemma sys_get_pid_ok: "translate s (current_process s) \<noteq> None \<Longrightarrow>
  sys_get_pid s = Ret s (pid (procs s (current_process s)))"
  by (simp add: sys_get_pid_def access_mapped)

lemma sys_get_parent_pid_ok:
  assumes "plist s ps" "pro \<in> set ps \<Longrightarrow> parent (procs s pro) \<noteq> 0 \<Longrightarrow> translate s (parent (procs s pro)) \<noteq> None"
  shows "sys_get_parent_pid pro s = Ret s (if pro \<in> set ps \<and> parent (procs s pro) \<noteq> 0
    then pid (procs s (parent (procs s pro))) else - 1)"
  using assms is_valid_process_ptr_ok [OF assms(1)] plistD(2) [OF assms(1), of pro]
  by (simp add: sys_get_parent_pid_def access_mapped)

section \<open>Wait\<close>

interpretation wait_search: pointer_search "wait_loop status" next_proc "wait_hit status" for status
  by unfold_locales (subst wait_loop.simps, rule refl)

text \<open>Every process of the list has a parent in mapped memory.\<close>

definition parents_ok :: "'a sched_scheme \<Rightarrow> u32 list \<Rightarrow> bool" where
  "parents_ok s ps \<longleftrightarrow> (\<forall>p \<in> set ps. translate s (parent (procs s p)) \<noteq> None)"

definition dead_child :: "'a sched_scheme \<Rightarrow> u32 \<Rightarrow> bool" where
  "dead_child s p \<longleftrightarrow> pid (procs s (parent (procs s p))) = pid (procs s (current_process s)) \<and>
     pstate (procs s p) = PROCESS_ZOMBIE"

lemma wait_hit_ok:
  assumes "sched_ok s ps" "parents_ok s ps" "p \<in> set ps"
  shows "wait_hit status s p = (if dead_child s p
    then Some (bind_out (store32 status (exit_code (procs s p)) s) (\<lambda>t _. Ret t (Some (pid (procs s p))))) else None)"
proof -
  note D = sched_okD [OF assms(1)]
  have "p \<noteq> 0" using plistD(4) [OF D(1)] assms(3) by auto
  moreover have "translate s (parent (procs s p)) \<noteq> None" using assms(2,3) by (simp add: parents_ok_def)
  ultimately show ?thesis
    using D(5) [OF assms(3)] D(5) [OF D(2)] by (simp add: wait_hit_def access_mapped dead_child_def)
qed

lemma wait_loop_ok:
  assumes ok: "sched_ok s ps" and pa: "parents_ok s ps"
  shows "wait_loop status s (process_list s) = Some (case List.find (dead_child s) ps of
      None \<Rightarrow> Ret s None
    | Some p \<Rightarrow> bind_out (store32 status (exit_code (procs s p)) s) (\<lambda>t _. Ret t (Some (pid (procs s p)))))"
proof -
  note D = sched_okD [OF ok]
  have "wait_loop status s (process_list s) = Some (first_hit (wait_hit status s) (Ret s None) ps)"
    by (rule wait_search.search_chain [OF plistD(1) [OF D(1)]]) (simp add: wait_hit_def)
  moreover have "first_hit (wait_hit status s) (Ret s None) qs = (case List.find (dead_child s) qs of
      None \<Rightarrow> Ret s None
    | Some p \<Rightarrow> bind_out (store32 status (exit_code (procs s p)) s) (\<lambda>t _. Ret t (Some (pid (procs s p)))))"
    if "set qs \<subseteq> set ps" for qs
    using that wait_hit_ok [OF ok pa] by (induction qs) auto
  ultimately show ?thesis by simp
qed

lemma put32_sched [simp]:
  "procs (put32 a x s) = procs s" "process_list (put32 a x s) = process_list s"
  "current_process (put32 a x s) = current_process s" "reg_mem (put32 a x s) = reg_mem s"
  "ticks (put32 a x s) = ticks s" "tss (put32 a x s) = tss s"
  by (simp_all add: put32_def)

text \<open>A dead child is reported with its exit code, and stays in the list.\<close>

lemma sys_wait_child:
  assumes ok: "sched_ok s ps" "parents_ok s ps" and p: "List.find (dead_child s) ps = Some p"
    and st: "mapped s status 4"
  shows "sys_wait status r s = Ret (put32 status (exit_code (procs s p)) s) (pid (procs s p))"
  using wait_loop_ok [OF ok, of status] p by (simp add: sys_wait_def store32_put [OF st])

definition waiting :: "u32 \<Rightarrow> 'a sched_scheme \<Rightarrow> 'a sched_scheme" where
  "waiting r s = update_regs r (\<lambda>x. x\<lparr>r_eax := - 1\<rparr>)
     (update_proc (current_process s) (\<lambda>p. p\<lparr>pstate := PROCESS_BLOCKED\<rparr>) s)"

lemma waiting_fields [simp]:
  "current_process (waiting r s) = current_process s" "regs (procs (waiting r s) p) = regs (procs s p)"
  "translate (waiting r s) v = translate s v" "pnext (procs (waiting r s) p) = pnext (procs s p)"
  "process_list (waiting r s) = process_list s" "ticks (waiting r s) = ticks s"
  "wake (procs (waiting r s) p) = wake (procs s p)"
  "pstate (procs (waiting r s) p) = (if p = current_process s then PROCESS_BLOCKED else pstate (procs s p))"
  "parent (procs (waiting r s) p) = parent (procs s p)"
  by (simp_all add: waiting_def update_regs_def update_proc_def)

lemma sched_ok_waiting: "sched_ok s ps \<Longrightarrow> sched_ok (waiting r s) ps"
  by (rule sched_ok_cong) (auto simp: sched_ok_def)

text \<open>Without one the caller blocks and another ready process runs; there is a panic when
  there is none.\<close>

lemma sys_wait_blocks:
  assumes ok: "sched_ok s ps" and pa: "parents_ok s ps" and none: "\<forall>p \<in> set ps. \<not> dead_child s p"
    and r: "translate s r \<noteq> None"
  shows "sys_wait status r s = (let t = waiting r s; q = chosen t ps
     in if q = 0 then panic (str_bytes ''PANIC: no runnable process'' @ [10]) t
        else Stop (switched r q t) (Resume (regs (procs s q))))"
proof -
  let ?t = "waiting r s"
  note D = sched_okD [OF ok]
  have w: "sched_ok ?t ps" using sched_ok_waiting [OF ok] .
  note T = sched_okD [OF w]
  have "List.find (dead_child s) ps = None" using none by (simp add: find_None_iff)
  then have l: "wait_loop status s (process_list s) = Some (Ret s None)" using wait_loop_ok [OF ok pa, of status] by simp
  have sch: "schedule ?t = Ret ?t (chosen ?t ps)" using schedule_behind [OF T(1,2)] by (simp add: chosen_def)
  have step: "sys_wait status r s = bind_out (schedule ?t) (\<lambda>s p. if p = 0 \<or> p = current_process s then
      panic (str_bytes ''PANIC: no runnable process'' @ [10]) s
      else bind_out (context_switch r p s) (\<lambda>s _. Ret s (- 1)))"
    using l D(5) [OF D(2)] r by (simp add: sys_wait_def access_mapped waiting_def)
  show ?thesis
  proof (cases "chosen ?t ps = 0")
    case True
    then show ?thesis by (simp add: step sch Let_def)
  next
    case False
    note q = chosen_in [OF T(1,2) False]
    have "context_switch r (chosen ?t ps) ?t = Stop (switched r (chosen ?t ps) ?t) (Resume (regs (procs ?t (chosen ?t ps))))"
      by (rule context_switch_ok) (use T(3) T(4) q(1) r in simp_all)
    then show ?thesis using False q(2) by (simp add: step sch Let_def)
  qed
qed

section \<open>Exit\<close>

definition ended :: "u32 \<Rightarrow> 'a sched_scheme \<Rightarrow> 'a sched_scheme" where
  "ended status s = buried (update_proc (current_process s) (\<lambda>p. p\<lparr>exit_code := status\<rparr>) s)"

lemma buried_keeps [simp]:
  "pid (procs (buried s) p) = pid (procs s p)" "parent (procs (buried s) p) = parent (procs s p)"
  "exit_code (procs (buried s) p) = exit_code (procs s p)" "wake (procs (buried s) p) = wake (procs s p)"
  "ticks (buried s) = ticks s"
  by (simp_all add: buried_def Let_def)

lemma ended_fields [simp]:
  "current_process (ended x s) = current_process s" "regs (procs (ended x s) p) = regs (procs s p)"
  "translate (ended x s) v = translate s v" "pnext (procs (ended x s) p) = pnext (procs s p)"
  "process_list (ended x s) = process_list s" "ticks (ended x s) = ticks s"
  "pid (procs (ended x s) p) = pid (procs s p)" "parent (procs (ended x s) p) = parent (procs s p)"
  "exit_code (procs (ended x s) p) = (if p = current_process s then x else exit_code (procs s p))"
  "wake (procs (ended x s) p) = wake (procs s p)"
  "pstate (procs (ended x s) p) = (if p = parent (procs s (current_process s)) \<and> p \<noteq> 0 then PROCESS_READY
     else if p = current_process s then PROCESS_ZOMBIE else pstate (procs s p))"
  by (auto simp: ended_def buried_state)

lemma ended_other: "p \<noteq> current_process s \<Longrightarrow> p \<noteq> parent (procs s (current_process s)) \<Longrightarrow> procs (ended x s) p = procs s p"
  by (simp add: ended_def buried_def Let_def)

lemma sched_ok_ended: "sched_ok s ps \<Longrightarrow> sched_ok (ended x s) ps"
  by (rule sched_ok_cong) (auto simp: sched_ok_def)

lemma sched_ok_current: "sched_ok s ps \<Longrightarrow> q \<in> set ps \<Longrightarrow> sched_ok (s\<lparr>current_process := q\<rparr>) ps"
  by (rule sched_ok_cong) (auto simp: sched_ok_def)

lemma sys_exit_ok:
  assumes ok: "sched_ok s ps" and pa: "translate s (parent (procs s (current_process s))) \<noteq> None"
  shows "sys_exit status s = (let t = ended status s; q = chosen t ps
     in if q = 0 then panic (str_bytes ''PANIC: no ready process after exit'' @ [10]) t
        else Stop (t\<lparr>current_process := q\<rparr>) (Resume (regs (procs s q))))"
proof -
  let ?u = "update_proc (current_process s) (\<lambda>p. p\<lparr>exit_code := status\<rparr>) s"
  let ?t = "ended status s" and ?msg = "str_bytes ''PANIC: no ready process after exit'' @ [10]"
  note D = sched_okD [OF ok]
  have w: "sched_ok ?t ps" using sched_ok_ended [OF ok] .
  note T = sched_okD [OF w]
  have sch: "schedule ?t = Ret ?t (chosen ?t ps)" using schedule_behind [OF T(1,2)] by (simp add: chosen_def)
  have u: "plist ?u ps" by (rule plist_cong [OF _ _ _ D(1)]) simp_all
  have "exit_process ?u = bind_out (schedule ?t) (\<lambda>s' p.
      if p = 0 \<or> p = current_process s then panic ?msg s'
      else restore_esp p (if p \<noteq> current_process s' then s'\<lparr>current_process := p\<rparr> else s'))"
    using exit_process_steps [OF u] D(2) pa by (simp add: ended_def)
  also have "\<dots> = (if chosen ?t ps = 0 then panic ?msg ?t
      else Stop (?t\<lparr>current_process := chosen ?t ps\<rparr>) (Resume (regs (procs s (chosen ?t ps)))))"
  proof (cases "chosen ?t ps = 0")
    case True
    then show ?thesis by (simp add: sch)
  next
    case False
    note q = chosen_in [OF T(1,2) False]
    have "runnable (?t\<lparr>current_process := chosen ?t ps\<rparr>) (chosen ?t ps)"
      using T(3) [OF q(1)] by (simp add: runnable_def)
    note R = restore_esp_ok [OF this]
    show ?thesis using False q(2) by (simp add: sch R)
  qed
  finally show ?thesis
    using D(5) [OF D(2)] by (simp add: sys_exit_def access_mapped panic_def Let_def)
qed

text \<open>What the parent finds when it waits after the child has exited; in between the machine may
  have done anything that leaves the process records alone.\<close>

lemma exit_then_wait:
  assumes ok: "sched_ok s ps" and c: "c = current_process s" "parent (procs s c) \<noteq> 0" "parent (procs s c) \<noteq> c"
    and u: "sched_ok u ps" "parents_ok u ps" "procs u = procs (ended status s)" "current_process u = parent (procs s c)"
    and only: "\<And>p. p \<in> set ps \<Longrightarrow> pstate (procs s p) \<noteq> PROCESS_ZOMBIE"
    and st: "mapped u st 4" "separate32 u st"
  shows "\<exists>u'. sys_wait st r u = Ret u' (pid (procs s c)) \<and> load32 st u' = Ret u' status"
proof -
  have "List.find (dead_child u) qs = (if c \<in> set qs then Some c else None)" if "set qs \<subseteq> set ps" for qs
    using that only u(4) c by (induction qs) (auto simp: dead_child_def u(3))
  from this [of ps] have "List.find (dead_child u) ps = Some c" using sched_okD(2) [OF ok] c(1) by simp
  from sys_wait_child [OF u(1,2) this st(1), of r] show ?thesis
    using load32_put32 [OF st] by (simp add: u(3) c(1))
qed

lemma put32_again: "put32 a x (put32 a x s) = put32 a x s"
  by (simp add: put32_def)

lemma sys_wait_again:
  assumes "sched_ok s ps" "parents_ok s ps" "List.find (dead_child s) ps = Some p" "mapped s st 4"
  shows "\<exists>s'. sys_wait st r s = Ret s' (pid (procs s p)) \<and> sys_wait st r s' = Ret s' (pid (procs s p))"
proof -
  let ?s = "put32 st (exit_code (procs s p)) s"
  have ok: "sched_ok ?s ps" by (rule sched_ok_cong [OF assms(1)]) (use assms(1) in \<open>simp_all add: sched_ok_def\<close>)
  have "parents_ok ?s ps" "dead_child ?s = dead_child s" "mapped ?s st 4"
    using assms(2,4) by (simp_all add: parents_ok_def mapped_def dead_child_def fun_eq_iff)
  then have "sys_wait st r ?s = Ret ?s (pid (procs s p))"
    using sys_wait_child [OF ok _ _ _, of p st r] assms(3) put32_again by simp
  with sys_wait_child [OF assms, of r] show ?thesis by blast
qed

text \<open>A parent that is a zombie itself is made ready by the exit of its child, and is resumed when
  nothing else is ready.\<close>

lemma first_ready_only:
  "q \<in> set qs \<Longrightarrow> ready s q \<Longrightarrow> \<forall>p \<in> set qs. p \<noteq> q \<longrightarrow> \<not> ready s p \<Longrightarrow> first_ready s qs = q"
  by (induction qs) auto

lemma chosen_only:
  assumes "plist s ps" "current_process s \<in> set ps" "q \<in> set ps" "q \<noteq> current_process s" "ready s q"
    "\<forall>p \<in> set ps. p \<noteq> q \<and> p \<noteq> current_process s \<longrightarrow> \<not> ready s p"
  shows "chosen s ps = q"
  unfolding chosen_def
  by (rule first_ready_only) (use assms set_behind [OF plistD(3) [OF assms(1)] assms(2)] in auto)

lemma exit_to_parent:
  assumes ok: "sched_ok s ps" "parents_ok s ps" and q: "q = parent (procs s (current_process s))" "q \<in> set ps" "q \<noteq> current_process s"
    and none: "\<forall>p \<in> set ps. p \<noteq> q \<and> p \<noteq> current_process s \<longrightarrow> \<not> ready s p"
  shows "sys_exit status s = Stop ((ended status s)\<lparr>current_process := q\<rparr>) (Resume (regs (procs s q)))"
proof -
  let ?t = "ended status s"
  note T = sched_okD [OF sched_ok_ended [OF ok(1), of status]]
  have q0: "q \<noteq> 0" using plistD(4) [OF T(1)] q(2) by auto
  have "chosen ?t ps = q"
    by (rule chosen_only) (use T(1,2) q q0 none in auto)
  moreover have "translate s (parent (procs s (current_process s))) \<noteq> None"
    using ok sched_okD(2) [OF ok(1)] by (simp add: parents_ok_def)
  ultimately show ?thesis using sys_exit_ok [OF ok(1), of status] q0 by (simp add: Let_def)
qed

section \<open>Nothing else to run\<close>

lemma chosen_zero:
  assumes "plist s ps" "current_process s \<in> set ps" "\<forall>p \<in> set ps. p \<noteq> current_process s \<longrightarrow> \<not> ready s p"
  shows "chosen s ps = 0"
proof -
  have "set (behind (current_process s) ps) = set ps - {current_process s}"
    by (rule set_behind [OF plistD(3) [OF assms(1)] assms(2)])
  then show ?thesis
    using first_ready_zero [of "behind (current_process s) ps" s] plistD(4) [OF assms(1)] assms(3)
    by (auto simp: chosen_def)
qed

text \<open>The caller of sleep goes on at once, although it is marked as blocked.\<close>

lemma sleep_alone:
  assumes "sched_ok s ps" "translate s r \<noteq> None" "\<forall>p \<in> set ps. p \<noteq> current_process s \<longrightarrow> \<not> ready s p"
  shows "sys_sleep r time s = Ret (asleep time s) ()"
    "pstate (procs (asleep time s) (current_process s)) = PROCESS_BLOCKED"
proof -
  have "chosen (asleep time s) ps = 0"
    by (rule chosen_zero) (use sched_okD(1,2) [OF sched_ok_asleep [OF assms(1)]] assms(3) in \<open>auto simp: asleep_def\<close>)
  then show "sys_sleep r time s = Ret (asleep time s) ()"
    using sys_sleep_ok [OF assms(1,2), of time] by simp
  show "pstate (procs (asleep time s) (current_process s)) = PROCESS_BLOCKED" by (simp add: asleep_def)
qed

text \<open>Waiting for a child that is asleep halts the machine.\<close>

lemma wait_alone_panics:
  assumes "sched_ok s ps" "parents_ok s ps" "\<forall>p \<in> set ps. \<not> dead_child s p" "translate s r \<noteq> None"
    and "\<forall>p \<in> set ps. p \<noteq> current_process s \<longrightarrow> \<not> ready s p"
  shows "\<exists>s'. sys_wait status r s = Stop s' Halted"
proof -
  have "chosen (waiting r s) ps = 0"
    by (rule chosen_zero) (use sched_okD(1,2) [OF sched_ok_waiting [OF assms(1)]] assms(5) in auto)
  then show ?thesis using sys_wait_blocks [OF assms(1-4), of status] by (simp add: panic_def)
qed

section \<open>Fork: the frame chain\<close>

text \<open>A user stack is one page. Addresses in it are given by their offset.\<close>

definition stack_page :: "'a paging_scheme \<Rightarrow> u32 \<Rightarrow> bool" where
  "stack_page s b \<longleftrightarrow> paging_on s \<and> unat b mod 4096 = 0 \<and> unat b + 4096 < 2 ^ 32 \<and> mapped s b 4096"

lemma in_stack_unat:
  assumes "unat (b :: u32) + 4096 < 2 ^ 32" "k < 4096"
  shows "unat (b + of_nat k) = unat b + k"
  using assms by (simp add: unat_word_ariths unat_of_nat_u32)

lemma stack_phys_inj:
  assumes "stack_page s b" "k < 4096" "l < 4096" "k \<noteq> l"
  shows "phys s (b + of_nat k) \<noteq> phys s (b + of_nat l)"
proof -
  have off: "unat (phys s (b + of_nat k)) mod 4096 = k" if "k < 4096" for k
  proof -
    have "translate s (b + of_nat k) = Some (phys s (b + of_nat k))"
      using assms(1) that by (simp add: stack_page_def mapped_def phys_def)
    from phys_offset [OF this] have "unat (phys s (b + of_nat k)) mod 4096 = unat (b + of_nat k) mod 4096"
      using assms(1) by (simp add: stack_page_def)
    also have "\<dots> = (unat b + k) mod 4096" using in_stack_unat [of b k] assms(1) that by (simp add: stack_page_def)
    also have "\<dots> = k" using assms(1) that by (simp add: stack_page_def mod_add_left_eq [symmetric, of "unat b"])
    finally show ?thesis .
  qed
  show ?thesis using off [OF assms(2)] off [OF assms(3)] assms(4) by metis
qed

text \<open>The offsets of the saved frame pointers, each above the frame it is saved in, up to the
  first that leaves the used part of the page.\<close>

primrec frames_at :: "(nat \<Rightarrow> nat) \<Rightarrow> nat \<Rightarrow> nat \<Rightarrow> nat list \<Rightarrow> bool" where
  "frames_at nx n i [] \<longleftrightarrow> \<not> (4096 - n \<le> i \<and> i < 4092 \<and> nx i < 4096)"
| "frames_at nx n i (j # js) \<longleftrightarrow> 4096 - n \<le> i \<and> i < 4092 \<and> nx i = j \<and> i + 4 \<le> j \<and> j < 4096 \<and> frames_at nx n j js"

text \<open>The stores of the loop.\<close>

definition relocated :: "u32 \<Rightarrow> (nat \<times> nat) list \<Rightarrow> 'a paging_scheme \<Rightarrow> 'a paging_scheme" where
  "relocated cb = fold (\<lambda>(i, j). put32 (cb + of_nat i) (cb + of_nat j))"

lemma relocated_simps [simp]:
  "relocated cb [] s = s" "relocated cb ((i, j) # ps) s = relocated cb ps (put32 (cb + of_nat i) (cb + of_nat j) s)"
  by (simp_all add: relocated_def)

lemma put32_mem:
  assumes "stack_page s b" "i + 4 \<le> 4096" "k < 4096" "k < i \<or> i + 4 \<le> k"
  shows "mem (put32 (b + of_nat i) x s) (b + of_nat k) = mem s (b + of_nat k)"
proof -
  have "phys s (b + of_nat k) \<noteq> phys s (b + of_nat i + of_nat l)" if "l < 4" for l
    using stack_phys_inj [OF assms(1), of k "i + l"] assms(2-4) that by (auto simp: add.assoc)
  from this [of 0] this [of 1] this [of 2] this [of 3] show ?thesis
    by (simp add: mem_def) (simp add: put32_def)
qed

lemma put32_word:
  assumes "stack_page s b" "i + 4 \<le> 4096" "k + 4 \<le> 4096" "k + 4 \<le> i \<or> i + 4 \<le> k"
  shows "word32 (put32 (b + of_nat i) x s) (b + of_nat k) = word32 s (b + of_nat k)"
proof -
  have "mem (put32 (b + of_nat i) x s) (b + of_nat k + of_nat l) = mem s (b + of_nat k + of_nat l)" if "l < 4" for l
    using put32_mem [OF assms(1,2), of "k + l" x] assms(3,4) that by (auto simp: add.assoc)
  from this [of 0] this [of 1] this [of 2] this [of 3] show ?thesis
    by (simp add: word32_def word16_def add.assoc)
qed

lemma put32_own:
  assumes "stack_page s b" "i + 4 \<le> 4096"
  shows "word32 (put32 (b + of_nat i) x s) (b + of_nat i) = x"
proof (rule word32_put32)
  have "phys s (b + of_nat i + of_nat k) \<noteq> phys s (b + of_nat i + of_nat l)" if "k < 4" "l < 4" "k \<noteq> l" for k l
    using stack_phys_inj [OF assms(1), of "i + k" "i + l"] that assms(2) by (simp add: add.assoc)
  from this [of 0 1] this [of 0 2] this [of 0 3] this [of 1 2] this [of 1 3] this [of 2 3]
  show "separate32 s (b + of_nat i)" by (simp add: separate32_def)
qed

lemma stack_page_put32 [simp]: "stack_page (put32 a x s) b = stack_page s b"
  by (simp add: stack_page_def mapped_def) (simp add: put32_def)

text \<open>The range test of the loop, as a test of the offset.\<close>

lemma frame_range:
  assumes "unat (cb :: u32) + 4096 < 2 ^ 32" "i < 2 ^ 32" "unat used \<le> 4096"
  shows "cb + 4096 - used \<le> cb + of_nat i \<and> cb + of_nat i < cb + 4096 - 4 \<longleftrightarrow> 4096 - unat used \<le> i \<and> i < 4092"
proof -
  have t: "unat (cb + 4096) = unat cb + 4096" using assms(1) by (simp add: unat_word_ariths)
  have u: "unat (cb + 4096 - used) = unat cb + 4096 - unat used"
    using assms(3) t unat_sub_if' [of "cb + 4096" used] by simp
  have v: "unat (cb + 4096 - 4) = unat cb + 4092"
    using t unat_sub_if' [of "cb + 4096" 4] by simp
  have i: "unat (cb + of_nat i) = (if unat cb + i < 2 ^ 32 then unat cb + i else unat cb + i - 2 ^ 32)"
    using unat_plus_if' [of cb "of_nat i"] assms(2) by (simp add: unat_of_nat_u32)
  show ?thesis unfolding word_le_nat_alt word_less_nat_alt u v i using assms by auto
qed

lemma in_parent_page:
  assumes "unat (pb :: u32) + 4096 < 2 ^ 32"
  shows "pb + 4096 - 4096 \<le> x \<and> x < pb + 4096 \<longleftrightarrow> unat (x - pb) < 4096"
proof -
  have t: "unat (pb + 4096) = unat pb + 4096" using assms by (simp add: unat_word_ariths)
  have "pb \<le> x \<and> x < pb + 4096 \<longleftrightarrow> unat (x - pb) < 4096"
    unfolding word_le_nat_alt word_less_nat_alt t
    using unat_sub_if' [of x pb] unat_u32 [of x] assms by auto
  then show ?thesis by simp
qed

lemma fork_frames_ok:
  fixes t :: "'a paging_scheme"
  assumes "stack_page t cb" "\<And>k. i \<le> k \<Longrightarrow> 4096 - unat used \<le> k \<Longrightarrow> k + 4 \<le> 4096 \<Longrightarrow> unat (word32 t (cb + of_nat k) - pb) = nx k"
    and pb: "unat pb + 4096 < 2 ^ 32" and "frames_at nx (unat used) i js" "i < 2 ^ 32" and used: "unat used \<le> 4096"
  shows "fork_frames (pb + 4096) (cb + 4096) used (cb - pb) (cb + of_nat i) t =
    Some (Ret (relocated cb (zip (i # js) js) t) ())"
  using assms(1,2,4,5)
proof (induction js arbitrary: i t)
  case Nil
  have cb: "unat cb + 4096 < 2 ^ 32" using Nil(1) by (simp add: stack_page_def)
  note R = frame_range [OF cb Nil(4) used]
  show ?case
  proof (cases "4096 - unat used \<le> i \<and> i < 4092")
    case False
    then show ?thesis by (subst fork_frames.simps, subst R) auto
  next
    case True
    have m: "mapped t (cb + of_nat i) 4"
      by (rule mapped_sub [of t cb 4096]) (use Nil(1) True in \<open>simp_all add: stack_page_def\<close>)
    have "\<not> unat (word32 t (cb + of_nat i) - pb) < 4096" using Nil(2) [of i] Nil(3) True by simp
    then have "\<not> (pb + 4096 - 4096 \<le> word32 t (cb + of_nat i) \<and> word32 t (cb + of_nat i) < pb + 4096)"
      unfolding in_parent_page [OF pb] .
    then show ?thesis
      by (subst fork_frames.simps, subst R) (use True in \<open>auto simp: load32_word [OF m]\<close>)
  qed
next
  case (Cons j js)
  have cb: "unat cb + 4096 < 2 ^ 32" using Cons.prems(1) by (simp add: stack_page_def)
  note R = frame_range [OF cb Cons.prems(4) used]
  have j: "4096 - unat used \<le> i" "i < 4092" "nx i = j" "i + 4 \<le> j" "j < 4096" "frames_at nx (unat used) j js"
    using Cons.prems(3) by simp_all
  let ?w = "word32 t (cb + of_nat i)" and ?t = "put32 (cb + of_nat i) (cb + of_nat j) t"
  have m: "mapped t (cb + of_nat i) 4"
    by (rule mapped_sub [of t cb 4096]) (use Cons.prems(1) j in \<open>simp_all add: stack_page_def\<close>)
  have w: "unat (?w - pb) = j" using Cons.prems(2) [of i] j by simp
  then have "of_nat (unat (?w - pb)) = (of_nat j :: u32)" by (rule arg_cong)
  then have "?w - pb = of_nat j" by simp
  then have d: "?w + (cb - pb) = cb + of_nat j" by (simp add: algebra_simps)
  have inp: "pb + 4096 - 4096 \<le> ?w \<and> ?w < pb + 4096" unfolding in_parent_page [OF pb] w by (rule j(5))
  have "fork_frames (pb + 4096) (cb + 4096) used (cb - pb) (cb + of_nat j) ?t =
      Some (Ret (relocated cb (zip (j # js) js) ?t) ())"
  proof (rule Cons.IH)
    show "unat (word32 ?t (cb + of_nat k) - pb) = nx k" if "j \<le> k" "4096 - unat used \<le> k" "k + 4 \<le> 4096" for k
      using put32_word [OF Cons.prems(1), of i k] Cons.prems(2) [of k] that j by simp
  qed (use Cons.prems(1) j in simp_all)
  then show ?case
    by (subst fork_frames.simps, subst R) (use j inp in \<open>simp add: load32_word [OF m] store32_put [OF m] d\<close>)
qed

text \<open>What the stores leave.\<close>

lemma frames_above: "frames_at nx n i js \<Longrightarrow> (a, b) \<in> set (zip (i # js) js) \<Longrightarrow> i \<le> a \<and> a + 4 \<le> b \<and> b < 4096"
proof (induction js arbitrary: i)
  case Nil
  then show ?case by simp
next
  case (Cons j js)
  then show ?case by fastforce
qed

lemma relocated_keeps:
  "stack_page (relocated cb ps s) b = stack_page s b" "translate (relocated cb ps s) v = translate s v"
  "phys (relocated cb ps s) v = phys s v"
  by (induction ps arbitrary: s) (auto simp: relocated_def)

lemma relocated_mem:
  assumes "stack_page s cb" "\<forall>(a, b) \<in> set ps. a + 4 \<le> 4096 \<and> (k < a \<or> a + 4 \<le> k)" "k < 4096"
  shows "mem (relocated cb ps s) (cb + of_nat k) = mem s (cb + of_nat k)"
  using assms
proof (induction ps arbitrary: s)
  case Nil
  then show ?case by simp
next
  case (Cons p ps)
  obtain a b where p: "p = (a, b)" by fastforce
  then show ?case using Cons.IH [of "put32 (cb + of_nat a) (cb + of_nat b) s"] Cons.prems put32_mem [of s cb a k]
    by simp
qed

lemma relocated_frame:
  assumes "stack_page s cb" "frames_at nx n i js" "(a, b) \<in> set (zip (i # js) js)"
  shows "word32 (relocated cb (zip (i # js) js) s) (cb + of_nat a) = cb + of_nat b"
  using assms
proof (induction js arbitrary: i s)
  case Nil
  then show ?case by simp
next
  case (Cons j js)
  let ?t = "put32 (cb + of_nat i) (cb + of_nat j) s"
  show ?case
  proof (cases "(a, b) = (i, j)")
    case True
    have "mem (relocated cb (zip (j # js) js) ?t) (cb + of_nat i + of_nat l) = mem ?t (cb + of_nat i + of_nat l)" if "l < 4" for l
    proof -
      have "\<forall>(a, b) \<in> set (zip (j # js) js). a + 4 \<le> 4096 \<and> (i + l < a \<or> a + 4 \<le> i + l)"
      proof (intro ballI, clarify)
        fix a b assume "(a, b) \<in> set (zip (j # js) js)"
        with frames_above [of nx n j js a b] Cons.prems(2) that
        show "a + 4 \<le> 4096 \<and> (i + l < a \<or> a + 4 \<le> i + l)" by simp
      qed
      then show ?thesis unfolding add.assoc of_nat_add [symmetric]
        by (rule relocated_mem [rotated]) (use Cons.prems that in simp_all)
    qed
    from this [of 0] this [of 1] this [of 2] this [of 3]
    have "word32 (relocated cb (zip (j # js) js) ?t) (cb + of_nat i) = word32 ?t (cb + of_nat i)"
      by (simp add: word32_def word16_def add.assoc)
    then show ?thesis using True put32_own [OF Cons.prems(1), of i] Cons.prems(2) by simp
  next
    case False
    then show ?thesis using Cons.IH [of ?t j] Cons.prems by auto
  qed
qed

section \<open>Fork: the stack and the registers\<close>

definition stacks_apart :: "'a paging_scheme \<Rightarrow> u32 \<Rightarrow> u32 \<Rightarrow> bool" where
  "stacks_apart s pb cb \<longleftrightarrow> stack_page s pb \<and> stack_page s cb \<and>
     (\<forall>k < 4096. \<forall>l < 4096. phys s (pb + of_nat k) \<noteq> phys s (cb + of_nat l))"

lemma stack_copy:
  fixes s :: "'a paging_scheme"
  assumes a: "stacks_apart s pb cb" and e: "e \<le> 4096"
  obtains m where "memcpy (cb + of_nat e) (pb + of_nat e) (of_nat (4096 - e)) s = Ret (s\<lparr>ram := m\<rparr>) (cb + of_nat e)"
    "\<And>k. e \<le> k \<Longrightarrow> k < 4096 \<Longrightarrow> m (phys s (cb + of_nat k)) = ram s (phys s (pb + of_nat k))"
    "\<And>q. (\<forall>k < 4096. q \<noteq> phys s (cb + of_nat k)) \<Longrightarrow> m q = ram s q"
proof -
  let ?n = "4096 - e"
  have sp: "stack_page s pb" "stack_page s cb" and ap: "k < 4096 \<Longrightarrow> l < 4096 \<Longrightarrow> phys s (pb + of_nat k) \<noteq> phys s (cb + of_nat l)" for k l
    using a by (simp_all add: stacks_apart_def)
  have o: "b + of_nat e + of_nat k = b + (of_nat (e + k) :: u32)" for b k by (simp add: add.assoc)
  have "\<exists>m. memcpy_loop ?n (of_nat 0) (cb + of_nat e) (pb + of_nat e) s = Ret (s\<lparr>ram := m\<rparr>) () \<and>
    (\<forall>k. 0 \<le> k \<and> k < 0 + ?n \<longrightarrow> m (phys s (cb + of_nat e + of_nat k)) = ram s (phys s (pb + of_nat e + of_nat k))) \<and>
    (\<forall>q. (\<forall>k. 0 \<le> k \<and> k < 0 + ?n \<longrightarrow> q \<noteq> phys s (cb + of_nat e + of_nat k)) \<longrightarrow> m q = ram s q)"
  proof (rule memcpy_loop_ok)
    show "translate s (pb + of_nat e + of_nat k) \<noteq> None \<and> translate s (cb + of_nat e + of_nat k) \<noteq> None" if "k < 0 + ?n" for k
      unfolding o using sp that mappedD [of s pb 4096 "e + k"] mappedD [of s cb 4096 "e + k"] by (simp add: stack_page_def)
    show "phys s (pb + of_nat e + of_nat l) \<noteq> phys s (cb + of_nat e + of_nat k)" if "k < l" "l < 0 + ?n" for k l
      unfolding o by (rule ap) (use that in simp_all)
    show "phys s (cb + of_nat e + of_nat l) \<noteq> phys s (cb + of_nat e + of_nat k)" if "k < l" "l < 0 + ?n" for k l
      unfolding o by (rule stack_phys_inj [OF sp(2)]) (use that in simp_all)
  qed
  then obtain m where m: "memcpy_loop ?n 0 (cb + of_nat e) (pb + of_nat e) s = Ret (s\<lparr>ram := m\<rparr>) ()"
    "\<And>k. k < ?n \<Longrightarrow> m (phys s (cb + of_nat (e + k))) = ram s (phys s (pb + of_nat (e + k)))"
    "\<And>q. (\<forall>k < ?n. q \<noteq> phys s (cb + of_nat (e + k))) \<Longrightarrow> m q = ram s q"
    unfolding o by auto
  have n: "unat (of_nat ?n :: u32) = ?n" by (rule unat_of_nat_u32) simp
  show ?thesis
  proof (rule that)
    show "memcpy (cb + of_nat e) (pb + of_nat e) (of_nat ?n) s = Ret (s\<lparr>ram := m\<rparr>) (cb + of_nat e)"
      unfolding memcpy_def n m(1) by simp
    show "m (phys s (cb + of_nat k)) = ram s (phys s (pb + of_nat k))" if "e \<le> k" "k < 4096" for k
      using m(2) [of "k - e"] that by simp
    show "m q = ram s q" if that': "\<forall>k < 4096. q \<noteq> phys s (cb + of_nat k)" for q
    proof (rule m(3), intro allI impI)
      show "q \<noteq> phys s (cb + of_nat (e + k))" if "k < ?n" for k
        by (rule that' [rule_format]) (use that in simp)
    qed
  qed
qed

text \<open>The child's stack after fork: \<open>e\<close> is the offset of the stack pointer, \<open>fs\<close> the frames and the
  saved pointers in them.\<close>

definition forked_stack :: "'a paging_scheme \<Rightarrow> u32 \<Rightarrow> u32 \<Rightarrow> nat \<Rightarrow> (nat \<times> nat) list \<Rightarrow> 'a paging_scheme \<Rightarrow> bool" where
  "forked_stack s pb cb e fs t \<longleftrightarrow>
     (\<forall>k. e \<le> k \<and> k < 4096 \<and> (\<forall>(a, b) \<in> set fs. k < a \<or> a + 4 \<le> k) \<longrightarrow> mem t (cb + of_nat k) = mem s (pb + of_nat k)) \<and>
     (\<forall>(a, b) \<in> set fs. word32 t (cb + of_nat a) = cb + of_nat b) \<and>
     (\<forall>q. (\<forall>k < 4096. q \<noteq> phys s (cb + of_nat k)) \<longrightarrow> ram t q = ram s q) \<and>
     (\<forall>v. translate t v = translate s v)"

lemma relocated_ram:
  "stack_page s cb \<Longrightarrow> \<forall>(a, b) \<in> set ps. a + 4 \<le> 4096 \<Longrightarrow> \<forall>k < 4096. q \<noteq> phys s (cb + of_nat k) \<Longrightarrow>
   ram (relocated cb ps s) q = ram s q"
proof (induction ps arbitrary: s)
  case Nil
  then show ?case by simp
next
  case (Cons p ps)
  obtain a b where p: "p = (a, b)" by fastforce
  have "q \<noteq> phys s (cb + of_nat a + of_nat l)" if "l < 4" for l
    using Cons.prems(2,3) that p by (simp add: add.assoc flip: of_nat_add)
  from this [of 0] this [of 1] this [of 2] this [of 3]
  have "ram (put32 (cb + of_nat a) (cb + of_nat b) s) q = ram s q" by (simp add: put32_def)
  then show ?case using Cons.IH [of "put32 (cb + of_nat a) (cb + of_nat b) s"] Cons.prems p by simp
qed

lemma relocated_shape: "\<exists>m. relocated cb ps s = s\<lparr>ram := m\<rparr>"
proof (induction ps arbitrary: s)
  case Nil
  show ?case by (rule exI [of _ "ram s"]) simp
next
  case (Cons p ps)
  obtain a b where p: "p = (a, b)" by fastforce
  show ?case using Cons.IH [of "put32 (cb + of_nat a) (cb + of_nat b) s"] p by (auto simp: put32_def)
qed

lemma forked_stack_ok:
  fixes s t :: "'a paging_scheme"
  assumes a: "stacks_apart s pb cb" and fr: "frames_at (\<lambda>k. unat (word32 s (pb + of_nat k) - pb)) (4096 - e) i js"
    and i: "i < 2 ^ 32" and e: "e \<le> 4096"
    and m: "\<And>k. e \<le> k \<Longrightarrow> k < 4096 \<Longrightarrow> ram t (phys s (cb + of_nat k)) = ram s (phys s (pb + of_nat k))"
      "\<And>q. (\<forall>k < 4096. q \<noteq> phys s (cb + of_nat k)) \<Longrightarrow> ram t q = ram s q"
    and t: "\<And>v. translate t v = translate s v" "paging_on t = paging_on s"
  obtains t' where "fork_frames (pb + 4096) (cb + 4096) (of_nat (4096 - e)) (cb - pb) (cb + of_nat i) t = Some (Ret t' ())"
    "\<exists>m. t' = t\<lparr>ram := m\<rparr>" "forked_stack s pb cb e (zip (i # js) js) t'"
proof -
  have sp: "stack_page s pb" "stack_page s cb" using a by (simp_all add: stacks_apart_def)
  have ph: "phys t v = phys s v" for v by (simp add: phys_def t)
  let ?fs = "zip (i # js) js"
  have n: "unat (of_nat (4096 - e) :: u32) = 4096 - e" by (rule unat_of_nat_u32) simp
  have sp': "stack_page t cb" using sp(2) t by (simp add: stack_page_def mapped_def)
  have byte: "mem t (cb + of_nat k) = mem s (pb + of_nat k)" if "e \<le> k" "k < 4096" for k
    using m(1) [OF that] by (simp add: mem_def ph)
  have word: "word32 t (cb + of_nat k) = word32 s (pb + of_nat k)" if "e \<le> k" "k + 4 \<le> 4096" for k
  proof -
    have "mem t (cb + of_nat k + of_nat l) = mem s (pb + of_nat k + of_nat l)" if "l < 4" for l
      using byte [of "k + l"] \<open>e \<le> k\<close> \<open>k + 4 \<le> 4096\<close> that by (simp add: add.assoc)
    from this [of 0] this [of 1] this [of 2] this [of 3] show ?thesis
      by (simp add: word32_def word16_def add.assoc)
  qed
  let ?t = "relocated cb ?fs t"
  have loop: "fork_frames (pb + 4096) (cb + 4096) (of_nat (4096 - e)) (cb - pb) (cb + of_nat i) t = Some (Ret ?t ())"
  proof (rule fork_frames_ok [OF sp'])
    show "frames_at (\<lambda>k. unat (word32 s (pb + of_nat k) - pb)) (unat (of_nat (4096 - e) :: u32)) i js"
      unfolding n by (rule fr)
    show "unat (word32 t (cb + of_nat k) - pb) = unat (word32 s (pb + of_nat k) - pb)"
      if "4096 - unat (of_nat (4096 - e) :: u32) \<le> k" "k + 4 \<le> 4096" for k
      using word [of k] that e unfolding n by simp
    show "unat (of_nat (4096 - e) :: u32) \<le> 4096" unfolding n by simp
  qed (use sp(1) i in \<open>simp_all add: stack_page_def\<close>)
  have above: "\<forall>(a, b) \<in> set ?fs. a + 4 \<le> 4096" using frames_above [OF fr] by fastforce
  have "forked_stack s pb cb e ?fs ?t"
    unfolding forked_stack_def
  proof (intro conjI allI impI ballI)
    show "mem ?t (cb + of_nat k) = mem s (pb + of_nat k)"
      if "e \<le> k \<and> k < 4096 \<and> (\<forall>(a, b) \<in> set ?fs. k < a \<or> a + 4 \<le> k)" for k
      using relocated_mem [OF sp', of ?fs k] above that byte [of k] by auto
    show "case p of (a, b) \<Rightarrow> word32 ?t (cb + of_nat a) = cb + of_nat b" if "p \<in> set ?fs" for p
      using relocated_frame [OF sp' fr] that by (cases p) simp
    show "ram ?t q = ram s q" if "\<forall>k < 4096. q \<noteq> phys s (cb + of_nat k)" for q
      using relocated_ram [OF sp' above, of q] m(2) [OF that] that by (simp add: ph)
    show "translate ?t v = translate s v" for v by (simp add: relocated_keeps t)
  qed
  with relocated_shape [of cb ?fs t] show ?thesis using that [OF loop] by blast
qed

end
