(* ===== verification/KernelMain.thy ===== *)
theory KernelMain
  imports Syscall
begin

text \<open>
  kernel/kernel.c: the interrupt controllers, the timer interrupt, the fault handler, the
  waiting loops and the boot sequence. The waiting loops end because interrupts are
  serviced while they wait; \<open>env n\<close> stands for what is serviced in round \<open>n\<close> of a wait.
  The lemmas state what the timer interrupt does to the process list, when the waits end,
  and what the machine looks like when the first process starts.
\<close>

section \<open>Interrupts\<close>

definition remap_pic :: "'a hw_scheme \<Rightarrow> 'a hw_scheme" where
  "remap_pic s =
     (let s = outb 0x20 0x11 s; s = outb 0xA0 0x11 s; s = outb 0x21 0x20 s; s = outb 0xA1 0x28 s;
          s = outb 0x21 0x04 s; s = outb 0xA1 0x02 s; s = outb 0x21 0x01 s; s = outb 0xA1 0x01 s;
          s = outb 0x21 0x00 s
      in outb 0xA1 0x00 s)"

definition irq0_handler :: "u32 \<Rightarrow> 'a sched_scheme \<Rightarrow> ('a sched_scheme, unit) outcome" where
  "irq0_handler r s =
     (let s = s\<lparr>ticks := ticks s + 1\<rparr>;
          s = outb 0x20 0x20 s
      in if current_process s = 0 \<or> process_list s = 0 then Ret s ()
         else bind_out (wake_processes s) (\<lambda>s _. sys_yield r s))"

text \<open>keyboard_isr.asm acknowledges the interrupt once more after the handler.\<close>

definition keyboard_isr :: "'a kbd_scheme \<Rightarrow> ('a kbd_scheme, unit) outcome" where
  "keyboard_isr s = bind_out (keyboard_handler s) (\<lambda>s _. Ret (outb 0x20 0x20 s) ())"

text \<open>\<open>cr2\<close> is the faulting address the processor recorded.\<close>

definition fault_handler :: "u32 \<Rightarrow> u32 \<Rightarrow> u32 \<Rightarrow> u32 \<Rightarrow> 'a screen_scheme \<Rightarrow> ('a screen_scheme, unit) outcome" where
  "fault_handler cr2 vector error_code eip s =
     (let s = kprint (str_bytes ''FAULT: vector '') s;
          s = kprint_hex vector s;
          s = kprint [10] s;
          s = kprint (str_bytes ''error_code = '') s;
          s = kprint_hex error_code s;
          s = kprint [10] s;
          s = kprint (str_bytes ''eip = '') s;
          s = kprint_hex eip s;
          s = kprint [10] s;
          s = (if vector = 14 then kprint [10] (kprint_hex cr2 (kprint (str_bytes ''CR2 = '') s)) else s)
      in Stop (hlt (cli s)) Halted)"

section \<open>Time\<close>

definition TIME_POS :: int where "TIME_POS = 160"
definition up_pos :: int where "up_pos = 0"
definition start_pos :: int where "start_pos = 240"

definition show_seconds :: "'a timer_scheme \<Rightarrow> 'a timer_scheme" where
  "show_seconds s = snd (print_number (get_seconds s) TIME_POS s)"

definition sleep_process :: "u32 \<Rightarrow> 'a sched_scheme \<Rightarrow> ('a sched_scheme, unit) outcome" where
  "sleep_process time s =
     bind_out (set_proc (current_process s) (\<lambda>p. p\<lparr>pstate := PROCESS_BLOCKED\<rparr>) s) (\<lambda>s _.
       set_proc (current_process s) (\<lambda>p. p\<lparr>wake := ticks s + time\<rparr>) s)"

partial_function (option) sleep_loop ::
  "(nat \<Rightarrow> 'a timer_scheme \<Rightarrow> ('a timer_scheme, unit) outcome) \<Rightarrow> nat \<Rightarrow> u32 \<Rightarrow> 'a timer_scheme \<Rightarrow>
   ('a timer_scheme, unit) outcome option" where
  "sleep_loop env n limit s =
     (if ticks s < limit then
        (case env n s of Ret s u \<Rightarrow> sleep_loop env (n + 1) limit s | Stop s r \<Rightarrow> Some (Stop s r))
      else Some (Ret s ()))"

text \<open>\<open>time + start\<close> is an \<open>int\<close> that the comparison with the tick counter takes as
  unsigned.\<close>

definition sleep ::
  "(nat \<Rightarrow> 'a timer_scheme \<Rightarrow> ('a timer_scheme, unit) outcome) \<Rightarrow> u32 \<Rightarrow> 'a timer_scheme \<Rightarrow>
   ('a timer_scheme, unit) outcome" where
  "sleep env time s = run_loop s (sleep_loop env 0 (time + ticks s) s)"

text \<open>One round of the endless loop of \<open>uptime_task\<close>, with the new \<open>last\<close>, and its first
  \<open>n\<close> rounds.\<close>

definition uptime_round :: "u32 \<Rightarrow> 'a timer_scheme \<Rightarrow> u32 \<times> 'a timer_scheme" where
  "uptime_round last_sec s =
     (let sec = ticks s div 100
      in if sec \<noteq> last_sec then
           (sec, show_seconds (print_time_message (str_bytes ''Up Time'') up_pos s))
         else (last_sec, s))"

definition uptime_task :: "nat \<Rightarrow> 'a timer_scheme \<Rightarrow> ('a timer_scheme, u32) outcome" where
  "uptime_task n s = rounds n (\<lambda>last_sec s. let (sec, s) = uptime_round last_sec s in Ret s sec) (- 1) s"

partial_function (option) woken_loop ::
  "(nat \<Rightarrow> 'a sched_scheme \<Rightarrow> ('a sched_scheme, unit) outcome) \<Rightarrow> nat \<Rightarrow> 'a sched_scheme \<Rightarrow>
   ('a sched_scheme, unit) outcome option" where
  "woken_loop env n s =
     (case get_proc (current_process s) s of
        Stop s r \<Rightarrow> Some (Stop s r)
      | Ret s p \<Rightarrow>
          if pstate p \<noteq> PROCESS_READY then
            (case env n (hlt s) of Ret s u \<Rightarrow> woken_loop env (n + 1) s | Stop s r \<Rightarrow> Some (Stop s r))
          else Some (Ret s ()))"

definition test_sleep ::
  "(nat \<Rightarrow> 'a sched_scheme \<Rightarrow> ('a sched_scheme, unit) outcome) \<Rightarrow> 'a sched_scheme \<Rightarrow> ('a sched_scheme, unit) outcome" where
  "test_sleep env s =
     (let s = kprint (str_bytes ''sleepy: about to sleep'' @ [10]) s;
          start = ticks s
      in bind_out (sleep_process 2000 s) (\<lambda>s _.
         bind_out (run_loop s (woken_loop env 0 s)) (\<lambda>s _.
           let s = kprint (str_bytes ''sleepy: woke up! ticks elapsed = '') s;
               s = kprint_number (ticks s - start) s
           in Ret (kprint [10] s) ())))"

section \<open>Boot\<close>

partial_function (option) mode_loop ::
  "(nat \<Rightarrow> 'a kbd_scheme \<Rightarrow> ('a kbd_scheme, unit) outcome) \<Rightarrow> nat \<Rightarrow> u32 \<Rightarrow> 'a kbd_scheme \<Rightarrow>
   ('a kbd_scheme, bool) outcome option" where
  "mode_loop env n end_tick s =
     (if ticks s < end_tick then
        if last_key s = KEY_F10 then Some (Ret (s\<lparr>scr_i := 400, scr_j := 0\<rparr>) False)
        else (case env n (hlt s) of
                Ret s u \<Rightarrow> mode_loop env (n + 1) end_tick s
              | Stop s r \<Rightarrow> Some (Stop s r))
      else Some (Ret (s\<lparr>scr_i := 400, scr_j := 0\<rparr>) True))"

text \<open>The result is 1 (\<open>True\<close>) unless F10 was pressed within 300 ticks.\<close>

definition switch_mode ::
  "(nat \<Rightarrow> 'a kbd_scheme \<Rightarrow> ('a kbd_scheme, unit) outcome) \<Rightarrow> 'a kbd_scheme \<Rightarrow> ('a kbd_scheme, bool) outcome" where
  "switch_mode env s =
     (let s = s\<lparr>last_key := KEY_NONE\<rparr>;
          end_tick = ticks s + 300;
          s = kprint (str_bytes ''click f10 if you want to stay in the bios'') s
      in run_loop s (mode_loop env 0 end_tick s))"

text \<open>Addresses the linker assigns.\<close>

record link =
  irq0_addr :: u32
  isr8_addr :: u32
  isr13_addr :: u32
  isr14_addr :: u32
  syscall_addr :: u32
  keyboard_addr :: u32
  page_directory_addr :: u32
  elf_test_start :: u32
  uptime_task_addr :: u32
  user_main_addr :: u32

definition setup_interrupts :: "link \<Rightarrow> 'a tables_scheme \<Rightarrow> 'a tables_scheme" where
  "setup_interrupts l s =
     (let s = s\<lparr>ptr := \<lparr>idt_limit = sizeof_idt - 1, idt_base = addr_idt s\<rparr>\<rparr>;
          s = remap_pic s;
          s = outb 0x21 0xFC s;
          s = add 32 (irq0_addr l) 0x8E s;
          s = add 8 (isr8_addr l) 0x8E s;
          s = add 13 (isr13_addr l) 0x8E s;
          s = add 14 (isr14_addr l) 0x8E s;
          s = add 0x80 (syscall_addr l) 0xEE s;
          s = add 33 (keyboard_addr l) 0x8E s;
          s = load_idt s;
          s = sti s
      in pit_init 11931 s)"

definition stay_in_bios :: "link \<Rightarrow> 'a sched_scheme \<Rightarrow> ('a sched_scheme, unit) outcome" where
  "stay_in_bios l s =
     (let s = clear_screen s;
          s = kprint (str_bytes ''Staying in BIOS mode. Halting...'' @ [10]) s;
          s = kprint (str_bytes ''from the bios'') s
      in bind_out (create_process (uptime_task_addr l) PROCESS_KERNEL s) (\<lambda>s p2.
         restore_esp (current_process s) s))"

definition start_paging :: "link \<Rightarrow> 'a paging_scheme \<Rightarrow> 'a paging_scheme" where
  "start_paging l s =
     (let s = init_virtual_allocator s;
          s = build_first_page s;
          s = kprint [10] s;
          s = emit (Load_cr3 (page_directory_addr l)) s
      in enable_paging s)"

definition start_system ::
  "link \<Rightarrow> (nat \<Rightarrow> 'a sched_scheme \<Rightarrow> ('a sched_scheme, unit) outcome) \<Rightarrow> 'a sched_scheme \<Rightarrow>
   ('a sched_scheme, unit) outcome" where
  "start_system l env s =
     (let s = start_paging l s;
          s = kprint_hex (elf_test_start l) s
      in bind_out (create_elf_process (elf_test_start l) s) (\<lambda>s p.
         let s = (if p \<noteq> 0
                  then kprint_hex p (kprint (str_bytes ''ELF process loaded successfully'' @ [10]) s)
                  else s)
         in bind_out (switch_mode env s) (\<lambda>s choice.
            let s = clear_screen s
            in if choice then
                 bind_out (create_process (user_main_addr l) PROCESS_USER s) (\<lambda>s p1.
                   restore_esp (current_process s) s)
               else Ret s ())))"

definition kernel ::
  "link \<Rightarrow> (nat \<Rightarrow> 'a sched_scheme \<Rightarrow> ('a sched_scheme, unit) outcome) \<Rightarrow>
   (nat \<Rightarrow> 'a sched_scheme \<Rightarrow> ('a sched_scheme, unit) outcome) \<Rightarrow> 'a sched_scheme \<Rightarrow> ('a sched_scheme, unit) outcome" where
  "kernel l env1 env2 s =
     (let s = clear_screen s;
          s = print_time_message (str_bytes ''start os'') start_pos s;
          s = kprint (str_bytes ''Before paging '' @ [10]) s;
          s = init_gdt s;
          s = setup_interrupts l s
      in bind_out (switch_mode env1 s) (\<lambda>s choice.
         bind_out (if \<not> choice then stay_in_bios l s else Ret s ()) (\<lambda>s _.
           start_system l env2 s)))"

section \<open>The timer interrupt\<close>

definition tick :: "'a sched_scheme \<Rightarrow> 'a sched_scheme" where
  "tick s = outb 0x20 0x20 (s\<lparr>ticks := ticks s + 1\<rparr>)"

lemma tick_fields [simp]:
  "ticks (tick s) = ticks s + 1" "procs (tick s) = procs s" "current_process (tick s) = current_process s"
  "process_list (tick s) = process_list s" "reg_mem (tick s) = reg_mem s" "tss (tick s) = tss s"
  "translate (tick s) v = translate s v"
  by (simp_all add: tick_def hw_ops translate_def pte_addr_def)

lemma sched_ok_tick: "sched_ok s ps \<Longrightarrow> sched_ok (tick s) ps"
  by (rule sched_ok_cong) (auto simp: sched_ok_def)

lemma woken_again: "woken P (woken P s) = woken P s"
  by (simp add: woken_def) (auto simp: due_def fun_eq_iff)

text \<open>The interrupt is a tick followed by a yield: waking the processes twice is the same as
  waking them once.\<close>

lemma irq0_handler_ok:
  assumes ok: "sched_ok s ps" and r: "translate s r \<noteq> None"
  shows "irq0_handler r s = sys_yield r (tick s)"
proof -
  note D = sched_okD [OF ok]
  have t: "sched_ok (tick s) ps" using sched_ok_tick [OF ok] .
  have "process_list s \<noteq> 0" "current_process s \<noteq> 0"
    using plistD(1,4) [OF D(1)] D(2) by (cases ps; auto)+
  then have "irq0_handler r s = bind_out (wake_processes (tick s)) (\<lambda>s _. sys_yield r s)"
    by (simp add: irq0_handler_def tick_def hw_ops Let_def)
  also have "\<dots> = sys_yield r (woken (set ps) (tick s))"
    using wake_processes_ok [OF sched_okD(1) [OF t]] by simp
  also have "\<dots> = sys_yield r (tick s)"
    using sys_yield_ok [OF t, of r] sys_yield_ok [OF sched_ok_woken [OF t], where r = r] r by (simp add: woken_again Let_def)
  finally show ?thesis .
qed

lemma irq0_handler_idle:
  "current_process s = 0 \<or> process_list s = 0 \<Longrightarrow> irq0_handler r s = Ret (tick s) ()"
  by (simp add: irq0_handler_def tick_def hw_ops Let_def)

section \<open>The kernel as a transition system\<close>

text \<open>What can happen between two instructions of the running process: a timer interrupt, or one
  of its scheduling calls. \<open>r\<close> is the trap frame.\<close>

datatype kevent = Tick u32 | Yield u32 | Sleep u32 u32 | Wait u32 u32 | Exit u32

primrec deliver :: "kevent \<Rightarrow> 'a sched_scheme \<Rightarrow> ('a sched_scheme, unit) outcome" where
  "deliver (Tick r) s = irq0_handler r s"
| "deliver (Yield r) s = sys_yield r s"
| "deliver (Sleep r time) s = sys_sleep r time s"
| "deliver (Wait r status) s = bind_out (sys_wait status r s) (\<lambda>s _. Ret s ())"
| "deliver (Exit status) s = sys_exit status s"

primrec frame_mapped :: "kevent \<Rightarrow> 'a sched_scheme \<Rightarrow> bool" where
  "frame_mapped (Tick r) s \<longleftrightarrow> translate s r \<noteq> None"
| "frame_mapped (Yield r) s \<longleftrightarrow> translate s r \<noteq> None"
| "frame_mapped (Sleep r time) s \<longleftrightarrow> translate s r \<noteq> None"
| "frame_mapped (Wait r status) s \<longleftrightarrow> translate s r \<noteq> None"
| "frame_mapped (Exit status) s \<longleftrightarrow> True"

fun goes_on :: "('s, 'a) outcome \<Rightarrow> bool" where
  "goes_on (Ret s a) = True"
| "goes_on (Stop s (Resume f)) = True"
| "goes_on (Stop s r) = False"

inductive kernel_steps :: "'a sched_scheme \<Rightarrow> kevent list \<Rightarrow> 'a sched_scheme \<Rightarrow> bool" where
  start: "kernel_steps s [] s"
| step: "kernel_steps s es t \<Longrightarrow> frame_mapped e t \<Longrightarrow> goes_on (deliver e t) \<Longrightarrow>
         kernel_steps s (es @ [e]) (out_state (deliver e t))"

inductive_cases kernel_steps_snocE: "kernel_steps s (es @ [e]) t"
inductive_simps kernel_steps_Nil: "kernel_steps s [] t"

text \<open>The invariant of the steps: the process list is well formed and every parent is mapped.\<close>

definition kernel_ok :: "'a sched_scheme \<Rightarrow> u32 list \<Rightarrow> bool" where
  "kernel_ok s ps \<longleftrightarrow> sched_ok s ps \<and> parents_ok s ps"

lemma kernel_okI:
  assumes "kernel_ok s ps" "sched_ok t ps" "\<And>v. translate t v = translate s v"
    "\<And>p. parent (procs t p) = parent (procs s p)"
  shows "kernel_ok t ps"
  using assms by (simp add: kernel_ok_def parents_ok_def)

text \<open>What one step does to the process records.\<close>

definition calm :: "'a sched_scheme \<Rightarrow> u32 list \<Rightarrow> kevent \<Rightarrow> 'a sched_scheme \<Rightarrow> bool" where
  "calm s ps e t \<longleftrightarrow> kernel_ok t ps \<and> (\<forall>p. parent (procs t p) = parent (procs s p)) \<and>
     (\<forall>v. translate t v = translate s v) \<and>
     ticks t = (case e of Tick r \<Rightarrow> ticks s + 1 | _ \<Rightarrow> ticks s) \<and>
     (current_process t \<noteq> current_process s \<longrightarrow> ready t (current_process t)) \<and>
     (\<forall>p. p \<noteq> current_process s \<and> p \<noteq> parent (procs s (current_process s)) \<and>
        pstate (procs s p) \<noteq> PROCESS_READY \<and> \<not> (pstate (procs s p) = PROCESS_BLOCKED \<and> wake (procs s p) \<le>s ticks t) \<longrightarrow>
        procs t p = procs s p)"

lemma yield_calm:
  assumes k: "kernel_ok s ps" and r: "translate s r \<noteq> None"
  shows "calm s ps (Yield r) (out_state (sys_yield r s))"
proof -
  have ok: "sched_ok s ps" using k by (simp add: kernel_ok_def)
  let ?t = "out_state (sys_yield r s)"
  note S = sys_yield_state [OF ok r]
  have w: "sched_ok (woken (set ps) s) ps" using sched_ok_woken [OF ok] .
  have "parent (procs ?t p) = parent (procs s p)" for p by (simp add: S(2) woken_def)
  moreover have "ready ?t (current_process ?t)" if "current_process ?t \<noteq> current_process s"
    using that S(2,6) chosen_in(3) [OF sched_okD(1,2) [OF w]] by (auto simp: Let_def split: if_splits)
  ultimately show ?thesis
    using kernel_okI [OF k S(1) S(3)] S(3,4) by (simp add: calm_def) (auto simp: S(2) woken_def due_def)
qed

lemma calm_switch:
  assumes k: "kernel_ok t ps" and q: "chosen t ps \<noteq> 0"
    and u: "u = switched r (chosen t ps) t \<or> u = t\<lparr>current_process := chosen t ps\<rparr>"
  shows "kernel_ok u ps" "ready u (current_process u)" "procs u = procs t"
    "\<And>v. translate u v = translate t v" "ticks u = ticks t"
proof -
  have t: "sched_ok t ps" using k by (simp add: kernel_ok_def)
  note c = chosen_in [OF sched_okD(1,2) [OF t] q]
  show "procs u = procs t" "\<And>v. translate u v = translate t v" "ticks u = ticks t"
    using u by auto
  moreover have "sched_ok u ps"
    using u sched_ok_switched [OF t c(1)] sched_ok_current [OF t c(1)] by blast
  ultimately show "kernel_ok u ps" by (intro kernel_okI [OF k]) simp_all
  show "ready u (current_process u)" using u c(3) by auto
qed

lemma calm_tick:
  assumes k: "kernel_ok s ps" and r: "translate s r \<noteq> None"
  shows "calm s ps (Tick r) (out_state (irq0_handler r s))"
proof -
  have ok: "sched_ok s ps" using k by (simp add: kernel_ok_def)
  have "kernel_ok (tick s) ps" using kernel_okI [OF k sched_ok_tick [OF ok]] by simp
  from yield_calm [OF this] have "calm (tick s) ps (Yield r) (out_state (sys_yield r (tick s)))" using r by simp
  then show ?thesis by (simp add: irq0_handler_ok [OF ok r] calm_def)
qed

text \<open>A call that only touches the caller, and perhaps its parent, and then lets the scheduler
  choose.\<close>

lemma calm_choice:
  assumes k: "kernel_ok s ps" and t: "sched_ok t ps" "\<And>v. translate t v = translate s v"
      "\<And>p. parent (procs t p) = parent (procs s p)" "ticks t = ticks s" "current_process t = current_process s"
    and keep: "\<And>p. p \<noteq> current_process s \<Longrightarrow> p \<noteq> parent (procs s (current_process s)) \<Longrightarrow> procs t p = procs s p"
    and u: "if chosen t ps = 0 then u = t else u = switched r (chosen t ps) t \<or> u = t\<lparr>current_process := chosen t ps\<rparr>"
    and e: "\<And>r. e \<noteq> Tick r"
  shows "calm s ps e u"
proof -
  have e: "(case e of Tick r \<Rightarrow> ticks s + 1 | _ \<Rightarrow> ticks s) = ticks s"
  proof (cases e)
    case (Tick r)
    with e show ?thesis by blast
  qed simp_all
  have kt: "kernel_ok t ps" using kernel_okI [OF k t(1,2,3)] .
  show ?thesis
  proof (cases "chosen t ps = 0")
    case True
    with u have "u = t" by simp
    then show ?thesis using kt t keep e by (auto simp: calm_def)
  next
    case False
    then have "u = switched r (chosen t ps) t \<or> u = t\<lparr>current_process := chosen t ps\<rparr>" using u by simp
    note C = calm_switch [OF kt False this]
    show ?thesis using C t keep e by (auto simp: calm_def)
  qed
qed

lemma calm_sleep:
  assumes k: "kernel_ok s ps" and r: "translate s r \<noteq> None"
  shows "calm s ps (Sleep r time) (out_state (sys_sleep r time s))"
proof (rule calm_choice [OF k, where r = r])
  have ok: "sched_ok s ps" using k by (simp add: kernel_ok_def)
  show "sched_ok (asleep time s) ps" using sched_ok_asleep [OF ok] .
  show "if chosen (asleep time s) ps = 0 then out_state (sys_sleep r time s) = asleep time s
    else out_state (sys_sleep r time s) = switched r (chosen (asleep time s) ps) (asleep time s) \<or>
      out_state (sys_sleep r time s) = (asleep time s)\<lparr>current_process := chosen (asleep time s) ps\<rparr>"
    using sys_sleep_ok [OF ok r, of time] by (simp add: Let_def)
qed (simp_all add: asleep_def)

lemma goes_on_panic [simp]: "\<not> goes_on (panic msg s)" "\<not> goes_on (bind_out (panic msg s) f)"
  by (simp_all add: panic_def)

lemma calm_exit:
  assumes k: "kernel_ok s ps" and g: "goes_on (sys_exit status s)"
  shows "calm s ps (Exit status) (out_state (sys_exit status s))"
proof (rule calm_choice [OF k])
  have ok: "sched_ok s ps" using k by (simp add: kernel_ok_def)
  have "translate s (parent (procs s (current_process s))) \<noteq> None"
    using k sched_okD(2) [OF ok] by (simp add: kernel_ok_def parents_ok_def)
  note E = sys_exit_ok [OF ok this, of status]
  show "sched_ok (ended status s) ps" using sched_ok_ended [OF ok] .
  show "if chosen (ended status s) ps = 0 then out_state (sys_exit status s) = ended status s
    else out_state (sys_exit status s) = switched 0 (chosen (ended status s) ps) (ended status s) \<or>
      out_state (sys_exit status s) = (ended status s)\<lparr>current_process := chosen (ended status s) ps\<rparr>"
    using g by (simp add: E Let_def split: if_splits)
qed (simp_all add: ended_other)

lemma store32_cases:
  obtains "store32 a x s = Ret (put32 a x s) ()" | t v where "store32 a x s = Stop t (Page_fault v)"
proof (cases "mapped s a 4")
  case True
  with that show ?thesis by (simp add: store32_put)
next
  case False
  then obtain k where "k < 4" "translate s (a + of_nat k) = None" by (auto simp: mapped_def)
  then have "translate s a = None \<or> translate s (a + 1) = None \<or> translate s (a + 2) = None \<or> translate s (a + 3) = None"
    by (auto simp: numeral_eq_Suc less_Suc_eq)
  then have "\<exists>t v. store32 a x s = Stop t (Page_fault v)"
    by (cases "translate s a"; cases "translate s (a + 1)"; cases "translate s (a + 2)"; cases "translate s (a + 3)")
      (simp_all add: store32_def store8_def)
  with that show ?thesis by blast
qed

lemma calm_wait:
  assumes k: "kernel_ok s ps" and r: "translate s r \<noteq> None" and g: "goes_on (deliver (Wait r status) s)"
  shows "calm s ps (Wait r status) (out_state (deliver (Wait r status) s))"
proof -
  have ok: "sched_ok s ps" "parents_ok s ps" using k by (simp_all add: kernel_ok_def)
  show ?thesis
  proof (cases "List.find (dead_child s) ps")
    case None
    then have none: "\<forall>p \<in> set ps. \<not> dead_child s p" by (simp add: find_None_iff)
    note W = sys_wait_blocks [OF ok none r, of status]
    show ?thesis
    proof (rule calm_choice [OF k, where r = r])
      show "sched_ok (waiting r s) ps" using sched_ok_waiting [OF ok(1)] .
      show "if chosen (waiting r s) ps = 0 then out_state (deliver (Wait r status) s) = waiting r s
        else out_state (deliver (Wait r status) s) = switched r (chosen (waiting r s) ps) (waiting r s) \<or>
          out_state (deliver (Wait r status) s) = (waiting r s)\<lparr>current_process := chosen (waiting r s) ps\<rparr>"
        using g by (simp add: W Let_def split: if_splits)
    qed (simp_all add: waiting_def update_regs_def)
  next
    case (Some p)
    have w: "sys_wait status r s = bind_out (store32 status (exit_code (procs s p)) s) (\<lambda>t _. Ret t (pid (procs s p)))"
      using wait_loop_ok [OF ok, of status] Some by (simp add: sys_wait_def bind_out_assoc)
    obtain "store32 status (exit_code (procs s p)) s = Ret (put32 status (exit_code (procs s p)) s) ()"
      by (rule store32_cases [of status "exit_code (procs s p)" s]) (use g w in auto)
    then have "out_state (deliver (Wait r status) s) = put32 status (exit_code (procs s p)) s" by (simp add: w)
    moreover have "kernel_ok (put32 status (exit_code (procs s p)) s) ps"
      by (rule kernel_okI [OF k sched_ok_cong [OF ok(1)]]) (use ok(1) in \<open>simp_all add: sched_ok_def\<close>)
    ultimately show ?thesis by (simp add: calm_def)
  qed
qed

lemma deliver_calm:
  assumes "kernel_ok s ps" "frame_mapped e s" "goes_on (deliver e s)"
  shows "calm s ps e (out_state (deliver e s))"
  using assms calm_tick yield_calm calm_sleep calm_exit calm_wait
  by (cases e) (simp_all del: deliver.simps(4))

definition ticks_in :: "kevent list \<Rightarrow> nat" where
  "ticks_in es = length [e \<leftarrow> es. \<exists>r. e = Tick r]"

lemma ticks_in_simps [simp]:
  "ticks_in [] = 0" "ticks_in (es @ es') = ticks_in es + ticks_in es'" "ticks_in [Tick r] = 1" "ticks_in [Yield r] = 0"
  "ticks_in [Sleep r time] = 0" "ticks_in [Wait r status] = 0" "ticks_in [Exit status] = 0"
  by (simp_all add: ticks_in_def)

lemma kernel_steps_ok:
  assumes "kernel_steps s es t" "kernel_ok s ps"
  shows "kernel_ok t ps \<and> (\<forall>p. parent (procs t p) = parent (procs s p)) \<and> (\<forall>v. translate t v = translate s v) \<and>
    ticks t = ticks s + of_nat (ticks_in es)"
  using assms
proof (induction rule: kernel_steps.induct)
  case (start s)
  then show ?case by simp
next
  case (step s es t e)
  then have "calm t ps e (out_state (deliver e t))" by (intro deliver_calm) simp_all
  with step show ?case by (cases e) (simp_all add: calm_def del: deliver.simps)
qed

text \<open>A process that is off the processor, not ready, has no children and is not due in the
  time the steps take, stays as it is.\<close>

lemma kernel_steps_idle:
  assumes "kernel_steps s es t" "kernel_ok s ps" "p \<noteq> current_process s" "pstate (procs s p) \<noteq> PROCESS_READY"
    "\<forall>q \<in> set ps. parent (procs s q) \<noteq> p"
    "\<forall>k \<le> ticks_in es. \<not> (pstate (procs s p) = PROCESS_BLOCKED \<and> wake (procs s p) \<le>s ticks s + of_nat k)"
  shows "current_process t \<noteq> p \<and> procs t p = procs s p"
  using assms
proof (induction rule: kernel_steps.induct)
  case (start s)
  then show ?case by simp
next
  case (step s es t e)
  let ?u = "out_state (deliver e t)"
  have t: "current_process t \<noteq> p" "procs t p = procs s p" using step by simp_all
  note K = kernel_steps_ok [OF step.hyps(1) step.prems(1)]
  have c: "calm t ps e ?u" using K step.hyps by (intro deliver_calm) simp_all
  have "current_process t \<in> set ps" using K by (simp add: kernel_ok_def sched_ok_def)
  then have "parent (procs t (current_process t)) \<noteq> p" using K step.prems(4) by simp
  moreover have "ticks ?u = ticks s + of_nat (ticks_in (es @ [e]))"
    using kernel_steps_ok [OF kernel_steps.step [OF step.hyps(1-3)] step.prems(1)] by blast
  then have "\<not> (pstate (procs t p) = PROCESS_BLOCKED \<and> wake (procs t p) \<le>s ticks ?u)"
    using step.prems(5) t(2) by auto
  ultimately have "procs ?u p = procs s p" using c t step.prems(3) unfolding calm_def by metis
  moreover from this have "current_process ?u \<noteq> p" using c t step.prems(3) by (auto simp: calm_def)
  ultimately show ?case by simp
qed

section \<open>Waiting\<close>

text \<open>An environment in which every round of a wait takes one timer tick.\<close>

definition ticking :: "(nat \<Rightarrow> 'a timer_scheme \<Rightarrow> ('a timer_scheme, unit) outcome) \<Rightarrow> bool" where
  "ticking env \<longleftrightarrow> (\<forall>n s. \<exists>s'. env n s = Ret s' () \<and> ticks s' = ticks s + 1)"

lemma tick_less:
  assumes "ticks s < (limit :: u32)" "ticks s' = ticks s + 1"
  shows "unat (ticks s') = unat (ticks s) + 1" "unat limit - unat (ticks s') < unat limit - unat (ticks s)"
    "ticks s' \<le> limit"
proof -
  have l: "unat (ticks s) < unat limit" using assms(1) by (simp add: word_less_nat_alt)
  then show u: "unat (ticks s') = unat (ticks s) + 1"
    using unat_u32 [of limit] by (simp add: assms(2) unat_word_ariths)
  then show "unat limit - unat (ticks s') < unat limit - unat (ticks s)" "ticks s' \<le> limit"
    using l by (simp_all add: word_le_nat_alt)
qed

lemma sleep_loop_ends:
  assumes env: "ticking env" and le: "ticks s \<le> limit"
  shows "\<exists>s'. sleep_loop env n limit s = Some (Ret s' ()) \<and> ticks s' = limit"
  using le
proof (induction "unat limit - unat (ticks s)" arbitrary: n s rule: less_induct)
  case less
  show ?case
  proof (cases "ticks s < limit")
    case False
    then show ?thesis using less.prems by (subst sleep_loop.simps) auto
  next
    case True
    obtain s' where s': "env n s = Ret s' ()" "ticks s' = ticks s + 1" using env by (auto simp: ticking_def)
    note T = tick_less [OF True s'(2)]
    from less.hyps [OF T(2,3), of "n + 1"] show ?thesis
      using True s'(1) by (subst sleep_loop.simps) simp
  qed
qed

text \<open>\<open>sleep\<close> returns at the tick it waits for, unless that tick wraps around: then it returns at
  once.\<close>

lemma sleep_ok:
  assumes "ticking env" "unat (ticks s) + unat time < 2 ^ 32"
  shows "\<exists>s'. sleep env time s = Ret s' () \<and> ticks s' = ticks s + time"
proof -
  have "ticks s \<le> time + ticks s"
    using assms(2) unat_plus_if' [of time "ticks s"] by (simp add: word_le_nat_alt)
  from sleep_loop_ends [OF assms(1) this, of 0] show ?thesis
    by (auto simp: sleep_def add.commute)
qed

lemma sleep_wraps:
  assumes "2 ^ 32 \<le> unat (ticks s) + unat time"
  shows "sleep env time s = Ret s ()"
proof -
  have "unat (time + ticks s) < unat (ticks s)"
    using assms unat_u32 [of time] unat_plus_if' [of time "ticks s"] by simp
  then have "\<not> ticks s < time + ticks s" by (simp add: word_less_nat_alt)
  then show ?thesis unfolding sleep_def by (subst sleep_loop.simps) simp
qed

text \<open>An environment for \<open>switch_mode\<close>: a tick per round, and the key the user has pressed by
  then.\<close>

definition pressing :: "(nat \<Rightarrow> int) \<Rightarrow> (nat \<Rightarrow> 'a kbd_scheme \<Rightarrow> ('a kbd_scheme, unit) outcome) \<Rightarrow> bool" where
  "pressing keys env \<longleftrightarrow> (\<forall>n s. \<exists>s'. env n s = Ret s' () \<and> ticks s' = ticks s + 1 \<and> last_key s' = keys n)"

lemma hlt_ticks: "ticks (hlt s) = ticks s"
  by (simp add: hw_ops)

lemma all_less_Suc_shift: "(\<forall>k < Suc d. P k) \<longleftrightarrow> P 0 \<and> (\<forall>k < d. P (Suc k))"
  by (simp add: All_less_Suc2)

lemma mode_loop_ends:
  assumes env: "pressing keys env" and e: "unat end_tick = unat (ticks s) + d"
  shows "\<exists>s'. mode_loop env n end_tick s = Some (Ret s' (d = 0 \<or> last_key s \<noteq> KEY_F10 \<and> (\<forall>k. k + 1 < d \<longrightarrow> keys (n + k) \<noteq> KEY_F10))) \<and>
    scr_i s' = 400 \<and> scr_j s' = 0"
  using e
proof (induction d arbitrary: n s)
  case 0
  then have "\<not> ticks s < end_tick" by (simp add: word_less_nat_alt)
  then show ?case by (subst mode_loop.simps) simp
next
  case (Suc d)
  have lt: "ticks s < end_tick" using Suc.prems by (simp add: word_less_nat_alt)
  show ?case
  proof (cases "last_key s = KEY_F10")
    case True
    then show ?thesis using lt by (subst mode_loop.simps) simp
  next
    case False
    obtain s' where s': "env n (hlt s) = Ret s' ()" "ticks s' = ticks s + 1" "last_key s' = keys n"
      using env unfolding pressing_def by (metis hlt_ticks)
    have "unat end_tick = unat (ticks s') + d" using Suc.prems tick_less(1) [OF lt s'(2)] by simp
    from Suc.IH [OF this, of "n + 1"] obtain t where
      t: "mode_loop env (n + 1) end_tick s' = Some (Ret t (d = 0 \<or> keys n \<noteq> KEY_F10 \<and> (\<forall>k. k + 1 < d \<longrightarrow> keys (n + 1 + k) \<noteq> KEY_F10)))"
      "scr_i t = 400" "scr_j t = 0" unfolding s'(3) by blast
    have "(d = 0 \<or> keys n \<noteq> KEY_F10 \<and> (\<forall>k. k + 1 < d \<longrightarrow> keys (n + 1 + k) \<noteq> KEY_F10)) =
      (\<forall>k. k + 1 < Suc d \<longrightarrow> keys (n + k) \<noteq> KEY_F10)"
      by (cases d) (auto simp: all_less_Suc_shift)
    with t s'(1) lt False show ?thesis by (subst mode_loop.simps) simp
  qed
qed

section \<open>Tables after boot\<close>

lemma remap_pic_trace:
  "hw_trace (remap_pic s) = hw_trace s @
     [Outb 0x20 0x11, Outb 0xA0 0x11, Outb 0x21 0x20, Outb 0xA1 0x28, Outb 0x21 0x04, Outb 0xA1 0x02,
      Outb 0x21 0x01, Outb 0xA1 0x01, Outb 0x21 0x00, Outb 0xA1 0x00]"
  by (simp add: remap_pic_def hw_ops Let_def)

text \<open>The gates, later ones first.\<close>

lemma setup_interrupts_idt:
  "idt (setup_interrupts l s) n = idt (add 33 (keyboard_addr l) 0x8E (add 0x80 (syscall_addr l) 0xEE
     (add 14 (isr14_addr l) 0x8E (add 13 (isr13_addr l) 0x8E (add 8 (isr8_addr l) 0x8E
     (add 32 (irq0_addr l) 0x8E s)))))) n"
  by (simp add: setup_interrupts_def pit_init_def load_idt_def remap_pic_def add_def hw_ops Let_def)

lemma gate_dpl_add: "gate_dpl (idt (add n h t s) n) = unat (drop_bit 5 t AND 3)"
  by (simp add: gate_dpl_def add_def)

lemma setup_interrupts_gates:
  fixes l :: link and s :: "'a tables_scheme"
  defines "t \<equiv> setup_interrupts l s"
  shows "gate_offset (idt t 32) = irq0_addr l" "gate_offset (idt t 33) = keyboard_addr l"
    "gate_offset (idt t 8) = isr8_addr l" "gate_offset (idt t 13) = isr13_addr l"
    "gate_offset (idt t 14) = isr14_addr l" "gate_offset (idt t 0x80) = syscall_addr l"
    "gate_dpl (idt t 0x80) = 3" "n \<in> {8, 13, 14, 32, 33} \<Longrightarrow> gate_dpl (idt t n) = 0"
    "n \<notin> {8, 13, 14, 32, 33, 0x80} \<Longrightarrow> idt t n = idt s n"
  unfolding t_def setup_interrupts_idt by (auto simp: add_offset add_other gate_dpl_add)

text \<open>The table is loaded before interrupts are enabled, and the timer gets its divisor after
  that.\<close>

lemma setup_interrupts_trace:
  "hw_trace (setup_interrupts l s) = hw_trace (remap_pic s) @
     [Outb 0x21 0xFC, Lidt 2047 (addr_idt s), Sti, Cli, Outb 0x43 0x36, Outb 0x40 0x9B, Outb 0x40 0x2E, Sti]"
  by (simp add: setup_interrupts_def pit_init_trace load_idt_def remap_pic_def add_def hw_ops Let_def sizeof_idt_def)

lemmas selectors = KERNEL_CS_def KERNEL_DS_def USER_CS_def USER_DS_def

lemma kernel_segments:
  fixes s :: "'a tables_scheme"
  assumes "sel \<in> {KERNEL_CS, KERNEL_DS, USER_CS, USER_DS}"
  defines "d \<equiv> selected (init_gdt s) sel"
  shows "seg_base d = 0 \<and> seg_limit d = 0xFFFFF \<and> seg_present d \<and> seg_dpl d = selector_rpl sel \<and>
    (if sel \<in> {KERNEL_CS, USER_CS} then seg_is_code d else seg_is_writable_data d)"
proof -
  have s: "selected (init_gdt s) KERNEL_CS = gdt (gdt_set_gate 1 0 0xFFFFFFFF 0x9A 0xCF s) 1"
    "selected (init_gdt s) KERNEL_DS = gdt (gdt_set_gate 2 0 0xFFFFFFFF 0x92 0xCF s) 2"
    "selected (init_gdt s) USER_CS = gdt (gdt_set_gate 3 0 0xFFFFFFFF 0xFA 0xCF s) 3"
    "selected (init_gdt s) USER_DS = gdt (gdt_set_gate 4 0 0xFFFFFFFF 0xF3 0xCF s) 4"
    by (simp_all add: selected_def selectors init_gdt_entries drop_bit_eq_div uint_div)
  show ?thesis
    using assms(1) unfolding d_def
    by (elim insertE emptyE) (simp_all add: s [unfolded selectors] gdt_set_gate_base gdt_set_gate_limit gdt_access seg_present_def seg_dpl_def
        seg_is_code_def seg_is_writable_data_def selector_rpl_def selectors)
qed

lemma kernel_task_segment:
  "seg_base (gdt (init_gdt s) 5) = addr_tss s" "seg_limit (gdt (init_gdt s) 5) = 103"
  "ucast (ss0 (tss (init_gdt s))) = KERNEL_DS"
  using gdt_set_gate_base [of 5 "addr_tss s"] gdt_set_gate_limit [of 5 "addr_tss s" "sizeof_tss - 1"]
  by (simp_all add: init_gdt_entries init_gdt_tss sizeof_tss_def KERNEL_DS_def)

lemma fault_handler_halts:
  "\<exists>s'. fault_handler cr2 vector error_code eip s = Stop s' Halted \<and>
     (\<exists>es. hw_trace s' = es @ [Cli, Hlt])"
  by (simp add: fault_handler_def Let_def hw_ops)

end
