(* ===== verification/UserSpace.thy ===== *)
theory UserSpace
  imports KernelMain
begin

text \<open>
  User space: the system-call stubs of user/user_space.c, the shell of user/shell.c and the
  user programs. \<open>int $0x80\<close> pushes the registers of the caller at the top of the kernel
  stack named by the task state segment, which is where syscall_handler.asm calls the
  dispatcher; on return the stub reads EAX. Endless loops are given by their body. The
  lemmas connect the stubs to the calls and show that strcmp decides string equality.
\<close>

section \<open>The trap\<close>

definition trap_frame :: "'a tables_scheme \<Rightarrow> u32" where
  "trap_frame s = esp0 (tss s) - sizeof_registers"

definition int80 :: "registers \<Rightarrow> 'a sched_scheme \<Rightarrow> ('a sched_scheme, registers) outcome" where
  "int80 x s =
     (let f = trap_frame s in
      bind_out (set_regs f (\<lambda>_. x) s) (\<lambda>s _.
      bind_out (syscall_dispatch f s) (\<lambda>s _. get_regs f s)))"

text \<open>A stub puts the call number in EAX and the arguments in EBX and ECX; \<open>x\<close> are the
  registers of the caller.\<close>

definition trap :: "u32 \<Rightarrow> (registers \<Rightarrow> registers) \<Rightarrow> registers \<Rightarrow> 'a sched_scheme \<Rightarrow> ('a sched_scheme, u32) outcome" where
  "trap n args x s = bind_out (int80 (args (x\<lparr>r_eax := n\<rparr>)) s) (\<lambda>s y. Ret s (r_eax y))"

definition trap_void :: "u32 \<Rightarrow> (registers \<Rightarrow> registers) \<Rightarrow> registers \<Rightarrow> 'a sched_scheme \<Rightarrow> ('a sched_scheme, unit) outcome" where
  "trap_void n args x s = bind_out (trap n args x s) (\<lambda>s _. Ret s ())"

section \<open>user/user_space.c\<close>

definition write_string :: "u32 \<Rightarrow> registers \<Rightarrow> 'a sched_scheme \<Rightarrow> ('a sched_scheme, unit) outcome" where
  "write_string str = trap_void SYS_PRINTS (\<lambda>x. x\<lparr>r_ebx := str\<rparr>)"

definition write_char :: "u8 \<Rightarrow> registers \<Rightarrow> 'a sched_scheme \<Rightarrow> ('a sched_scheme, unit) outcome" where
  "write_char c = trap_void SYS_PRINTC (\<lambda>x. x\<lparr>r_ebx := scast c\<rparr>)"

definition write_number :: "u32 \<Rightarrow> registers \<Rightarrow> 'a sched_scheme \<Rightarrow> ('a sched_scheme, unit) outcome" where
  "write_number n = trap_void SYS_PRINTN (\<lambda>x. x\<lparr>r_ebx := n\<rparr>)"

definition write_hex :: "u32 \<Rightarrow> registers \<Rightarrow> 'a sched_scheme \<Rightarrow> ('a sched_scheme, unit) outcome" where
  "write_hex n = trap_void SYS_PRINTHEX (\<lambda>x. x\<lparr>r_ebx := n\<rparr>)"

definition write_second :: "u32 \<Rightarrow> registers \<Rightarrow> 'a sched_scheme \<Rightarrow> ('a sched_scheme, unit) outcome" where
  "write_second n = trap_void SYS_PRINT_SECONDS (\<lambda>x. x\<lparr>r_ebx := n\<rparr>)"

definition user_get_second :: "registers \<Rightarrow> 'a sched_scheme \<Rightarrow> ('a sched_scheme, u32) outcome" where
  "user_get_second = trap SYS_SECONDS (\<lambda>x. x)"

text \<open>One round of the loop of \<open>user_up_time\<close>, with the new \<open>last\<close>, and its first \<open>n\<close>
  rounds. String literals of user programs are parameters: their addresses.\<close>

definition user_up_time_round :: "registers \<Rightarrow> u32 \<Rightarrow> 'a sched_scheme \<Rightarrow> ('a sched_scheme, u32) outcome" where
  "user_up_time_round x last_sec s =
     bind_out (user_get_second x s) (\<lambda>s sec.
       if last_sec \<noteq> sec then bind_out (write_second sec x s) (\<lambda>s _. Ret s sec) else Ret s last_sec)"

definition user_up_time :: "u32 \<Rightarrow> nat \<Rightarrow> registers \<Rightarrow> 'a sched_scheme \<Rightarrow> ('a sched_scheme, u32) outcome" where
  "user_up_time msg n x s =
     bind_out (write_string msg x s) (\<lambda>s _. rounds n (user_up_time_round x) (- 1) s)"

definition user_yield :: "registers \<Rightarrow> 'a sched_scheme \<Rightarrow> ('a sched_scheme, unit) outcome" where
  "user_yield = trap_void SYS_YIELD (\<lambda>x. x)"

definition user_exit :: "u32 \<Rightarrow> registers \<Rightarrow> 'a sched_scheme \<Rightarrow> ('a sched_scheme, unit) outcome" where
  "user_exit status = trap_void SYS_EXIT (\<lambda>x. x\<lparr>r_ebx := status\<rparr>)"

definition user_create_process :: "u32 \<Rightarrow> u32 \<Rightarrow> registers \<Rightarrow> 'a sched_scheme \<Rightarrow> ('a sched_scheme, u32) outcome" where
  "user_create_process entry mode = trap SYS_CREATE_PROCESS (\<lambda>x. x\<lparr>r_ebx := entry, r_ecx := mode\<rparr>)"

definition user_sleep :: "u32 \<Rightarrow> registers \<Rightarrow> 'a sched_scheme \<Rightarrow> ('a sched_scheme, unit) outcome" where
  "user_sleep time = trap_void SYS_SLEEP (\<lambda>x. x\<lparr>r_ebx := time\<rparr>)"

definition user_get_pid :: "registers \<Rightarrow> 'a sched_scheme \<Rightarrow> ('a sched_scheme, u32) outcome" where
  "user_get_pid = trap SYS_GET_PID (\<lambda>x. x)"

definition user_get_parent_pid :: "u32 \<Rightarrow> registers \<Rightarrow> 'a sched_scheme \<Rightarrow> ('a sched_scheme, u32) outcome" where
  "user_get_parent_pid pro = trap SYS_GET_PARENT_PID (\<lambda>x. x\<lparr>r_ebx := pro\<rparr>)"

definition user_kmalloc :: "u32 \<Rightarrow> registers \<Rightarrow> 'a sched_scheme \<Rightarrow> ('a sched_scheme, u32) outcome" where
  "user_kmalloc sz = trap SYS_MALLOC (\<lambda>x. x\<lparr>r_ebx := sz\<rparr>)"

definition user_free :: "u32 \<Rightarrow> registers \<Rightarrow> 'a sched_scheme \<Rightarrow> ('a sched_scheme, unit) outcome" where
  "user_free address = trap_void SYS_FREE (\<lambda>x. x\<lparr>r_ebx := address\<rparr>)"

partial_function (option) user_wait_loop ::
  "u32 \<Rightarrow> registers \<Rightarrow> 'a sched_scheme \<Rightarrow> ('a sched_scheme, u32) outcome option" where
  "user_wait_loop status x s =
     (case trap SYS_WAIT (\<lambda>x. x\<lparr>r_ebx := status\<rparr>) x s of
        Stop s r \<Rightarrow> Some (Stop s r)
      | Ret s n \<Rightarrow> if n = - 1 then user_wait_loop status x s else Some (Ret s n))"

definition user_wait :: "u32 \<Rightarrow> registers \<Rightarrow> 'a sched_scheme \<Rightarrow> ('a sched_scheme, u32) outcome" where
  "user_wait status x s = run_loop s (user_wait_loop status x s)"

definition user_fork :: "registers \<Rightarrow> 'a sched_scheme \<Rightarrow> ('a sched_scheme, u32) outcome" where
  "user_fork = trap SYS_FORK (\<lambda>x. x)"

definition user_exec :: "u32 \<Rightarrow> registers \<Rightarrow> 'a sched_scheme \<Rightarrow> ('a sched_scheme, u32) outcome" where
  "user_exec file = trap SYS_EXEC (\<lambda>x. x\<lparr>r_ebx := file\<rparr>)"

text \<open>\<open>user_main\<close> with the first \<open>n\<close> rounds of its endless loop.\<close>

definition user_main :: "u32 \<Rightarrow> u32 \<Rightarrow> u32 \<Rightarrow> nat \<Rightarrow> registers \<Rightarrow> 'a sched_scheme \<Rightarrow> ('a sched_scheme, unit) outcome" where
  "user_main greeting up_time_addr shell_addr n x s =
     bind_out (write_string greeting x s) (\<lambda>s _.
     bind_out (user_create_process up_time_addr PROCESS_USER x s) (\<lambda>s p1.
     bind_out (user_create_process shell_addr PROCESS_USER x s) (\<lambda>s shell_process.
       rounds n (\<lambda>_. user_yield x) () s)))"

section \<open>user/shell.c\<close>

text \<open>\<open>strcmp\<close> on two byte sequences; both are read as long as the first has not ended and
  they agree.\<close>

partial_function (option) strcmp_loop :: "(nat \<Rightarrow> u8) \<Rightarrow> (nat \<Rightarrow> u8) \<Rightarrow> nat \<Rightarrow> int option" where
  "strcmp_loop str1 str2 k =
     (if str1 k \<noteq> 0 \<and> str1 k = str2 k then strcmp_loop str1 str2 (k + 1)
      else Some (uint (str1 k) - uint (str2 k)))"

definition strcmp :: "(nat \<Rightarrow> u8) \<Rightarrow> (nat \<Rightarrow> u8) \<Rightarrow> int option" where
  "strcmp str1 str2 = strcmp_loop str1 str2 0"

definition empty_string :: "'a kbd_scheme \<Rightarrow> 'a kbd_scheme" where
  "empty_string s = s\<lparr>command := fold (\<lambda>k m. m(k := 0)) [0..COMMAND_SIZE - 1] (command s)\<rparr>"

text \<open>A C string literal in memory: its bytes and the terminating NUL.\<close>

definition literal :: "string \<Rightarrow> nat \<Rightarrow> u8" where
  "literal cs k = (if k < length cs then str_bytes cs ! k else 0)"

text \<open>What follows \<open>user_fork\<close> in \<open>command_exec\<close>; the child runs it with result 0.\<close>

definition command_branch :: "u32 \<Rightarrow> u32 \<Rightarrow> registers \<Rightarrow> u32 \<Rightarrow> 'a sched_scheme \<Rightarrow> ('a sched_scheme, unit) outcome" where
  "command_branch hello_elf status x n s =
     (if n = 0 then
        bind_out (user_exec hello_elf x s) (\<lambda>s _. user_exit 1 x s)
      else bind_out (user_wait status x s) (\<lambda>s _. Ret s ()))"

definition command_exec :: "u32 \<Rightarrow> u32 \<Rightarrow> registers \<Rightarrow> 'a sched_scheme \<Rightarrow> ('a sched_scheme, unit) outcome" where
  "command_exec hello_elf status x s =
     (case strcmp (\<lambda>k. command s (int k)) (literal ''hello'') of
        None \<Rightarrow> Stop s Diverges
      | Some d \<Rightarrow>
          if d = 0 then bind_out (user_fork x s) (\<lambda>s n. command_branch hello_elf status x n s)
          else Ret s ())"

text \<open>One round of the loop of \<open>shell\<close>.\<close>

definition shell_round :: "u32 \<Rightarrow> u32 \<Rightarrow> u32 \<Rightarrow> registers \<Rightarrow> 'a sched_scheme \<Rightarrow> ('a sched_scheme, unit) outcome" where
  "shell_round prompt hello_elf status x s =
     bind_out (if command_ready s = 1 then
         bind_out (command_exec hello_elf status x s) (\<lambda>s _.
         let s = s\<lparr>command_ready := 0\<rparr>;
             s = s\<lparr>command_index := 0\<rparr>;
             s = empty_string s
         in write_string prompt x s)
       else Ret s ()) (\<lambda>s _. user_yield x s)"

definition shell :: "u32 \<Rightarrow> u32 \<Rightarrow> u32 \<Rightarrow> nat \<Rightarrow> registers \<Rightarrow> 'a sched_scheme \<Rightarrow> ('a sched_scheme, unit) outcome" where
  "shell prompt hello_elf status n x s =
     bind_out (write_string prompt x s) (\<lambda>s _.
       rounds n (\<lambda>_. shell_round prompt hello_elf status x) () s)"

section \<open>Programs and tests in user space\<close>

text \<open>\<open>_start\<close> of user/hello.c, and of user/program1.c and user/program2.c up to their
  empty endless loops.\<close>

definition hello_start :: "u32 \<Rightarrow> registers \<Rightarrow> 'a sched_scheme \<Rightarrow> ('a sched_scheme, unit) outcome" where
  "hello_start msg x s = bind_out (write_string msg x s) (\<lambda>s _. user_exit 0 x s)"

definition program1_start :: "u32 \<Rightarrow> u32 \<Rightarrow> u32 \<Rightarrow> registers \<Rightarrow> 'a sched_scheme \<Rightarrow> ('a sched_scheme, unit) outcome" where
  "program1_start msg program2_elf failed x s =
     bind_out (write_string msg x s) (\<lambda>s _.
     bind_out (user_exec program2_elf x s) (\<lambda>s _. write_string failed x s))"

definition program2_start :: "u32 \<Rightarrow> registers \<Rightarrow> 'a sched_scheme \<Rightarrow> ('a sched_scheme, unit) outcome" where
  "program2_start msg x s = write_string msg x s"

definition user_malloc_free_test ::
  "u32 \<Rightarrow> u32 \<Rightarrow> u32 \<Rightarrow> u32 \<Rightarrow> registers \<Rightarrow> 'a sched_scheme \<Rightarrow> ('a sched_scheme, unit) outcome" where
  "user_malloc_free_test title failed allocated freed_msg x s =
     bind_out (write_string title x s) (\<lambda>s _.
     bind_out (user_kmalloc 64 x s) (\<lambda>s p.
       if p = 0 then write_string failed x s
       else
         bind_out (write_string allocated x s) (\<lambda>s _.
         bind_out (write_hex p x s) (\<lambda>s _.
         bind_out (write_char 10 x s) (\<lambda>s _.
         bind_out (user_free p x s) (\<lambda>s _. write_string freed_msg x s))))))"

definition user_child :: "u32 \<Rightarrow> registers \<Rightarrow> 'a sched_scheme \<Rightarrow> ('a sched_scheme, unit) outcome" where
  "user_child msg x s = bind_out (write_string msg x s) (\<lambda>s _. user_exit 42 x s)"

definition user_exit_test :: "u32 \<Rightarrow> u32 \<Rightarrow> u32 \<Rightarrow> u32 \<Rightarrow> registers \<Rightarrow> 'a sched_scheme \<Rightarrow> ('a sched_scheme, unit) outcome" where
  "user_exit_test title running exiting err x s =
     bind_out (write_string title x s) (\<lambda>s _.
     bind_out (write_string running x s) (\<lambda>s _.
     bind_out (user_yield x s) (\<lambda>s _.
     bind_out (write_string exiting x s) (\<lambda>s _.
     bind_out (user_exit 0 x s) (\<lambda>s _. write_string err x s)))))"

text \<open>The endless programs, by their first \<open>n\<close> rounds.\<close>

definition child_process :: "u32 \<Rightarrow> nat \<Rightarrow> registers \<Rightarrow> 'a sched_scheme \<Rightarrow> ('a sched_scheme, unit) outcome" where
  "child_process msg n x s =
     rounds n (\<lambda>_ s. bind_out (write_string msg x s) (\<lambda>s _. user_yield x s)) () s"

definition parent_process ::
  "u32 \<Rightarrow> u32 \<Rightarrow> u32 \<Rightarrow> u32 \<Rightarrow> nat \<Rightarrow> registers \<Rightarrow> 'a sched_scheme \<Rightarrow> ('a sched_scheme, unit) outcome" where
  "parent_process creating child_addr created msg n x s =
     bind_out (write_string creating x s) (\<lambda>s _.
     bind_out (user_create_process child_addr PROCESS_USER x s) (\<lambda>s child.
     bind_out (write_string created x s) (\<lambda>s _.
       rounds n (\<lambda>_ s. bind_out (write_string msg x s) (\<lambda>s _. user_yield x s)) () s)))"

definition user_sleep_test ::
  "u32 \<Rightarrow> u32 \<Rightarrow> u32 \<Rightarrow> u32 \<Rightarrow> u32 \<Rightarrow> u32 \<Rightarrow> u32 \<Rightarrow> u32 \<Rightarrow> registers \<Rightarrow> 'a sched_scheme \<Rightarrow> ('a sched_scheme, unit) outcome" where
  "user_sleep_test title before start_is newline sleeping after elapsed seconds x s =
     bind_out (write_string title x s) (\<lambda>s _.
     bind_out (write_string before x s) (\<lambda>s _.
     bind_out (user_get_second x s) (\<lambda>s start.
     bind_out (write_string start_is x s) (\<lambda>s _.
     bind_out (write_number start x s) (\<lambda>s _.
     bind_out (write_string newline x s) (\<lambda>s _.
     bind_out (write_string sleeping x s) (\<lambda>s _.
     bind_out (user_sleep 300 x s) (\<lambda>s _.
     bind_out (user_get_second x s) (\<lambda>s stop.
     bind_out (write_string after x s) (\<lambda>s _.
     bind_out (write_string elapsed x s) (\<lambda>s _.
     bind_out (write_number (stop - start) x s) (\<lambda>s _.
     bind_out (write_string seconds x s) (\<lambda>s _. user_exit 0 x s)))))))))))))"

text \<open>\<open>status\<close> is the address of the local variable of that name, read back for printing.\<close>

definition user_test_wait ::
  "u32 \<Rightarrow> u32 \<Rightarrow> u32 \<Rightarrow> u32 \<Rightarrow> u32 \<Rightarrow> u32 \<Rightarrow> u32 \<Rightarrow> registers \<Rightarrow> 'a sched_scheme \<Rightarrow> ('a sched_scheme, unit) outcome" where
  "user_test_wait title child_addr parent_msg newline returned exit_msg status x s =
     bind_out (write_string title x s) (\<lambda>s _.
     bind_out (user_create_process child_addr PROCESS_USER x s) (\<lambda>s p.
     bind_out (user_get_parent_pid p x s) (\<lambda>s ppid.
     bind_out (write_string parent_msg x s) (\<lambda>s _.
     bind_out (write_number ppid x s) (\<lambda>s _.
     bind_out (write_string newline x s) (\<lambda>s _.
     bind_out (user_wait status x s) (\<lambda>s n.
     bind_out (write_string returned x s) (\<lambda>s _.
     bind_out (write_number n x s) (\<lambda>s _.
     bind_out (write_string exit_msg x s) (\<lambda>s _.
     bind_out (load32 status s) (\<lambda>s code.
     bind_out (write_number code x s) (\<lambda>s _. user_exit 0 x s))))))))))))"

text \<open>What follows \<open>user_fork\<close> in \<open>fork_test\<close>; parent and child both run it.\<close>

definition fork_test_branch ::
  "u32 \<Rightarrow> u32 \<Rightarrow> u32 \<Rightarrow> nat \<Rightarrow> registers \<Rightarrow> u32 \<Rightarrow> 'a sched_scheme \<Rightarrow> ('a sched_scheme, unit) outcome" where
  "fork_test_branch child_msg parent_msg failed n x p s =
     bind_out (if p = 0 then write_string child_msg x s
               else if 0 <s p then write_string parent_msg x s
               else write_string failed x s) (\<lambda>s _. rounds n (\<lambda>_. user_yield x) () s)"

definition fork_test ::
  "u32 \<Rightarrow> u32 \<Rightarrow> u32 \<Rightarrow> nat \<Rightarrow> registers \<Rightarrow> 'a sched_scheme \<Rightarrow> ('a sched_scheme, unit) outcome" where
  "fork_test child_msg parent_msg failed n x s =
     bind_out (user_fork x s) (\<lambda>s p. fork_test_branch child_msg parent_msg failed n x p s)"

section \<open>What a stub returns\<close>

lemma int80_ok:
  assumes f: "translate s (trap_frame s) \<noteq> None" "translate s' (trap_frame s) \<noteq> None"
    and d: "syscall_dispatch (trap_frame s) (update_regs (trap_frame s) (\<lambda>_. x) s) = Ret s' ()"
  shows "int80 x s = Ret s' (reg_mem s' (trap_frame s))"
  using assms by (simp add: int80_def access_mapped)

lemma int80_stop:
  assumes f: "translate s (trap_frame s) \<noteq> None"
    and d: "syscall_dispatch (trap_frame s) (update_regs (trap_frame s) (\<lambda>_. x) s) = Stop s' r"
  shows "int80 x s = Stop s' r"
  using assms by (simp add: int80_def access_mapped)

text \<open>The dispatcher on a frame whose registers are known.\<close>

lemma dispatch_frame:
  assumes "translate s f \<noteq> None" "reg_mem s f = x"
  shows
    "r_eax x = SYS_EXIT \<Longrightarrow> syscall_dispatch f s = sys_exit (r_ebx x) s"
    "r_eax x = SYS_YIELD \<Longrightarrow> syscall_dispatch f s = sys_yield f s"
    "r_eax x = SYS_PRINTS \<Longrightarrow> syscall_dispatch f s = sys_prints (r_ebx x) s"
    "r_eax x = SYS_SLEEP \<Longrightarrow> syscall_dispatch f s = sys_sleep f (r_ebx x) s"
    "r_eax x = SYS_SECONDS \<Longrightarrow> syscall_dispatch f s = result_to_eax f (Ret s (get_seconds s))"
    "r_eax x = SYS_GET_PID \<Longrightarrow> syscall_dispatch f s = result_to_eax f (sys_get_pid s)"
    "r_eax x = SYS_MALLOC \<Longrightarrow> syscall_dispatch f s = result_to_eax f (sys_kmalloc (r_ebx x) s)"
    "r_eax x = SYS_FREE \<Longrightarrow> syscall_dispatch f s = sys_free (r_ebx x) s"
    "r_eax x = SYS_WAIT \<Longrightarrow> syscall_dispatch f s = result_to_eax f (sys_wait (r_ebx x) f s)"
    "r_eax x = SYS_GET_PARENT_PID \<Longrightarrow> syscall_dispatch f s = result_to_eax f (sys_get_parent_pid (r_ebx x) s)"
  using assms by (simp_all add: syscall_dispatch_def access_mapped sys_numbers Let_def)

lemma dispatch_unknown:
  "translate s f \<noteq> None \<Longrightarrow> SYS_EXEC < r_eax (reg_mem s f) \<Longrightarrow> syscall_dispatch f s = Ret s ()"
  by (auto simp: syscall_dispatch_def access_mapped sys_numbers Let_def)

text \<open>The frame as the stub leaves it.\<close>

definition entered :: "u32 \<Rightarrow> (registers \<Rightarrow> registers) \<Rightarrow> registers \<Rightarrow> 'a sched_scheme \<Rightarrow> 'a sched_scheme" where
  "entered n args x s = update_regs (trap_frame s) (\<lambda>_. args (x\<lparr>r_eax := n\<rparr>)) s"

lemma entered_fields [simp]:
  "translate (entered n args x s) v = translate s v" "procs (entered n args x s) = procs s"
  "current_process (entered n args x s) = current_process s" "process_list (entered n args x s) = process_list s"
  "tss (entered n args x s) = tss s" "ticks (entered n args x s) = ticks s" "ram (entered n args x s) = ram s"
  "reg_mem (entered n args x s) = (reg_mem s)(trap_frame s := args (x\<lparr>r_eax := n\<rparr>))"
  by (simp_all add: entered_def) (simp_all add: update_regs_def)

lemma sched_ok_entered: "sched_ok s ps \<Longrightarrow> sched_ok (entered n args x s) ps"
  by (rule sched_ok_cong) (auto simp: sched_ok_def)

lemma trap_value:
  assumes f: "translate s (trap_frame s) \<noteq> None"
    and d: "syscall_dispatch (trap_frame s) (entered n args x s) = result_to_eax (trap_frame s) (Ret s' v)"
      "translate s' (trap_frame s) \<noteq> None"
  shows "trap n args x s = Ret (update_regs (trap_frame s) (\<lambda>y. y\<lparr>r_eax := v\<rparr>) s') v"
proof -
  let ?t = "update_regs (trap_frame s) (\<lambda>y. y\<lparr>r_eax := v\<rparr>) s'"
  have "syscall_dispatch (trap_frame s) (update_regs (trap_frame s) (\<lambda>_. args (x\<lparr>r_eax := n\<rparr>)) s) = Ret ?t ()"
    using d by (simp add: entered_def result_to_eax_def access_mapped)
  from int80_ok [OF f _ this] d(2) show ?thesis by (simp add: trap_def)
qed

lemma trap_void_ok:
  assumes "translate s (trap_frame s) \<noteq> None" "translate s' (trap_frame s) \<noteq> None"
    "syscall_dispatch (trap_frame s) (entered n args x s) = Ret s' ()"
  shows "trap_void n args x s = Ret s' ()"
  using int80_ok [OF assms(1,2)] assms(3) by (simp add: trap_void_def trap_def entered_def)

lemma trap_void_stop:
  assumes "translate s (trap_frame s) \<noteq> None"
    "syscall_dispatch (trap_frame s) (entered n args x s) = Stop s' r"
  shows "trap_void n args x s = Stop s' r"
  using int80_stop [OF assms(1)] assms(2) by (simp add: trap_void_def trap_def entered_def)

lemma user_get_pid_ok:
  assumes "translate s (trap_frame s) \<noteq> None" "translate s (current_process s) \<noteq> None"
  shows "user_get_pid x s = Ret (entered (pid (procs s (current_process s))) (\<lambda>x. x) x s) (pid (procs s (current_process s)))"
proof -
  have "syscall_dispatch (trap_frame s) (entered SYS_GET_PID (\<lambda>x. x) x s) =
      result_to_eax (trap_frame s) (Ret (entered SYS_GET_PID (\<lambda>x. x) x s) (pid (procs s (current_process s))))"
    using assms by (subst dispatch_frame(6) [OF _ refl]) (simp_all add: sys_get_pid_ok)
  from trap_value [OF assms(1) this] assms(1) show ?thesis
    by (simp add: user_get_pid_def) (simp add: entered_def update_regs_def)
qed

lemma user_get_second_ok:
  assumes "translate s (trap_frame s) \<noteq> None"
  shows "user_get_second x s = Ret (entered (get_seconds s) (\<lambda>x. x) x s) (get_seconds s)"
proof -
  have "syscall_dispatch (trap_frame s) (entered SYS_SECONDS (\<lambda>x. x) x s) =
      result_to_eax (trap_frame s) (Ret (entered SYS_SECONDS (\<lambda>x. x) x s) (get_seconds s))"
    using assms by (subst dispatch_frame(5) [OF _ refl]) (simp_all add: get_seconds_def)
  from trap_value [OF assms(1) this] assms(1) show ?thesis
    by (simp add: user_get_second_def) (simp add: entered_def update_regs_def)
qed

lemma kprint_sched [simp]:
  "procs (kprint m s) = procs s" "current_process (kprint m s) = current_process s"
  "process_list (kprint m s) = process_list s" "reg_mem (kprint m s) = reg_mem s" "tss (kprint m s) = tss s"
  "ticks (kprint m s) = ticks s" "ram (kprint m s) = ram s" "translate (kprint m s) v = translate s v"
proof -
  obtain t w i j where k: "kprint m s = s\<lparr>hw_trace := t, vram := w, scr_i := i, scr_j := j\<rparr>"
    using kprint_shape [of m s] by blast
  show "procs (kprint m s) = procs s" "current_process (kprint m s) = current_process s"
    "process_list (kprint m s) = process_list s" "reg_mem (kprint m s) = reg_mem s" "tss (kprint m s) = tss s"
    "ticks (kprint m s) = ticks s" "ram (kprint m s) = ram s" "translate (kprint m s) v = translate s v"
    by (simp_all add: k translate_def pte_addr_def)
qed

lemma write_string_ok:
  assumes "translate s (trap_frame s) \<noteq> None" "c_string s str cs"
  shows "write_string str x s = Ret (kprint cs (entered SYS_PRINTS (\<lambda>x. x\<lparr>r_ebx := str\<rparr>) x s)) ()"
proof -
  let ?e = "entered SYS_PRINTS (\<lambda>x. x\<lparr>r_ebx := str\<rparr>) x s"
  have "c_string ?e str cs" using assms(2) c_string_cong [of ?e s str cs] by simp
  then have "syscall_dispatch (trap_frame s) ?e = Ret (kprint cs ?e) ()"
    using assms(1) by (subst dispatch_frame(3) [OF _ refl]) (simp_all add: sys_prints_ok)
  then show ?thesis unfolding write_string_def
    by (intro trap_void_ok assms(1)) (use assms(1) in simp_all)
qed

text \<open>A program that prints a message and exits: the message is on the screen, the process is a
  zombie with its code, its parent is ready and the next process runs.\<close>

lemma user_exit_ok:
  fixes s :: "'a sched_scheme" and status :: u32
  assumes "translate s (trap_frame s) \<noteq> None" "sched_ok s ps" "parents_ok s ps"
    and t: "t = ended status (entered SYS_EXIT (\<lambda>x. x\<lparr>r_ebx := status\<rparr>) x s)" and "chosen t ps \<noteq> 0"
  shows "user_exit status x s = Stop (t\<lparr>current_process := chosen t ps\<rparr>) (Resume (regs (procs s (chosen t ps))))"
proof -
  let ?e = "entered SYS_EXIT (\<lambda>x. x\<lparr>r_ebx := status\<rparr>) x s"
  have "translate s (parent (procs s (current_process s))) \<noteq> None"
    using assms(2,3) by (simp add: parents_ok_def sched_ok_def)
  then have "sys_exit status ?e = Stop (t\<lparr>current_process := chosen t ps\<rparr>) (Resume (regs (procs s (chosen t ps))))"
    using sys_exit_ok [OF sched_ok_entered [OF assms(2)], of SYS_EXIT _ x status] assms(5)
    by (simp add: t Let_def)
  then have "syscall_dispatch (trap_frame s) ?e = Stop (t\<lparr>current_process := chosen t ps\<rparr>) (Resume (regs (procs s (chosen t ps))))"
    using assms(1) by (subst dispatch_frame(1) [OF _ refl]) simp_all
  then show ?thesis unfolding user_exit_def by (rule trap_void_stop [OF assms(1)])
qed

section \<open>String comparison\<close>

primrec str_at :: "(nat \<Rightarrow> u8) \<Rightarrow> nat \<Rightarrow> u8 list \<Rightarrow> bool" where
  "str_at f k [] \<longleftrightarrow> f k = 0"
| "str_at f k (c # cs) \<longleftrightarrow> f k = c \<and> c \<noteq> 0 \<and> str_at f (k + 1) cs"

lemma str_at_nth: "str_at f k cs \<longleftrightarrow> (\<forall>i < length cs. f (k + i) = cs ! i \<and> cs ! i \<noteq> 0) \<and> f (k + length cs) = 0"
proof (induction cs arbitrary: k)
  case Nil
  then show ?case by simp
next
  case (Cons c cs)
  then show ?case by (auto simp: All_less_Suc2)
qed

lemma str_at_literal: "0 \<notin> set (str_bytes cs) \<Longrightarrow> str_at (literal cs) 0 (str_bytes cs)"
  by (auto simp: str_at_nth literal_def str_bytes_def)

text \<open>The comparison orders strings lexicographically by unsigned characters.\<close>

lemma strcmp_loop_ok:
  assumes "str_at a k cs" "str_at b k ds"
  shows "\<exists>d. strcmp_loop a b k = Some d \<and> (d = 0 \<longleftrightarrow> cs = ds) \<and> (d < 0 \<longleftrightarrow> ord_class.lexordp cs ds)"
  using assms
proof (induction cs arbitrary: k ds)
  case Nil
  then show ?case
    by (cases ds; subst strcmp_loop.simps) (auto simp: less_le unsigned_eq_0_iff)
next
  case (Cons c cs)
  show ?case
  proof (cases ds)
    case Nil
    then show ?thesis using Cons.prems by (subst strcmp_loop.simps) (auto simp: not_less unsigned_eq_0_iff)
  next
    case (Cons d ds')
    show ?thesis
    proof (cases "c = d")
      case True
      from Cons.IH [of "k + 1" ds'] Cons.prems show ?thesis
        using True \<open>ds = d # ds'\<close> by (subst strcmp_loop.simps) simp
    next
      case False
      have u: "uint c = uint d \<longleftrightarrow> c = d" "c < d \<longleftrightarrow> uint c < uint d" "d < c \<longleftrightarrow> uint d < uint c"
        by (simp_all add: word_less_def word_uint_eq_iff [of c d])
      show ?thesis using False Cons.prems \<open>ds = d # ds'\<close> u
        by (subst strcmp_loop.simps) auto
    qed
  qed
qed

lemma strcmp_ok:
  assumes "str_at a 0 cs" "str_at b 0 ds"
  shows "\<exists>d. strcmp a b = Some d \<and> (d = 0 \<longleftrightarrow> cs = ds) \<and> (d < 0 \<longleftrightarrow> ord_class.lexordp cs ds)"
  using strcmp_loop_ok [OF assms] by (simp add: strcmp_def)

text \<open>The shell forks for the command hello and ignores every other line.\<close>

lemma command_exec_ok:
  assumes "str_at (\<lambda>k. command s (int k)) 0 cs"
  shows "command_exec hello_elf status x s =
    (if cs = str_bytes ''hello'' then bind_out (user_fork x s) (\<lambda>s n. command_branch hello_elf status x n s)
     else Ret s ())"
proof -
  have "str_at (literal ''hello'') 0 (str_bytes ''hello'')"
    by (rule str_at_literal) (simp add: str_bytes_def)
  from strcmp_ok [OF assms this] show ?thesis by (auto simp: command_exec_def)
qed

lemma empty_string_command: "command (empty_string s) k = (if 0 \<le> k \<and> k < COMMAND_SIZE then 0 else command s k)"
proof -
  have "fold (\<lambda>k m. m(k := 0)) ks f k = (if k \<in> set ks then 0 else f k)" for ks and f :: "int \<Rightarrow> u8"
    by (induction ks arbitrary: f) auto
  from this [of "[0..COMMAND_SIZE - 1]"] show ?thesis by (simp add: empty_string_def)
qed

section \<open>A program that prints and exits\<close>

lemma parents_ok_cong:
  "parents_ok s ps \<Longrightarrow> procs t = procs s \<Longrightarrow> (\<And>v. translate t v = translate s v) \<Longrightarrow> parents_ok t ps"
  by (simp add: parents_ok_def)

lemma sched_ok_printed: "sched_ok s ps \<Longrightarrow> sched_ok (kprint m s) ps"
  by (rule sched_ok_cong) (auto simp: sched_ok_def)

text \<open>The state after the two system calls of the program.\<close>

definition said :: "u32 \<Rightarrow> u8 list \<Rightarrow> registers \<Rightarrow> 'a sched_scheme \<Rightarrow> 'a sched_scheme" where
  "said str cs x s = kprint cs (entered SYS_PRINTS (\<lambda>x. x\<lparr>r_ebx := str\<rparr>) x s)"

lemma said_fields [simp]:
  "translate (said str cs x s) v = translate s v" "procs (said str cs x s) = procs s"
  "current_process (said str cs x s) = current_process s" "process_list (said str cs x s) = process_list s"
  "tss (said str cs x s) = tss s" "ticks (said str cs x s) = ticks s" "ram (said str cs x s) = ram s"
  "trap_frame (said str cs x s) = trap_frame s"
  by (simp_all add: said_def trap_frame_def)

lemma sched_ok_said: "sched_ok s ps \<Longrightarrow> sched_ok (said str cs x s) ps"
  by (simp add: said_def sched_ok_printed sched_ok_entered)

lemma hello_start_ok:
  fixes s :: "'a sched_scheme"
  assumes f: "translate s (trap_frame s) \<noteq> None" and ok: "sched_ok s ps" "parents_ok s ps"
    and m: "c_string s msg cs"
    and t: "t = ended 0 (entered SYS_EXIT (\<lambda>x. x\<lparr>r_ebx := 0\<rparr>) x (said msg cs x s))" "chosen t ps \<noteq> 0"
  shows "hello_start msg x s = Stop (t\<lparr>current_process := chosen t ps\<rparr>) (Resume (regs (procs s (chosen t ps))))"
proof -
  let ?s = "said msg cs x s"
  have "parents_ok ?s ps" by (rule parents_ok_cong [OF ok(2)]) simp_all
  moreover have "translate ?s (trap_frame ?s) \<noteq> None" using f by simp
  ultimately have "user_exit 0 x ?s = Stop (t\<lparr>current_process := chosen t ps\<rparr>) (Resume (regs (procs ?s (chosen t ps))))"
    using user_exit_ok [of ?s ps t 0 x] sched_ok_said [OF ok(1)] t by blast
  then show ?thesis
    using write_string_ok [OF f m, of x] by (simp add: hello_start_def said_def)
qed

text \<open>What is printed depends on the screen only.\<close>

lemma string_char_screen:
  "vram s = vram t \<Longrightarrow> print_string_char c (i, j, s) = (a, b, s') \<Longrightarrow>
   \<exists>t'. print_string_char c (i, j, t) = (a, b, t') \<and> vram s' = vram t'"
  by (auto simp: add_line_if_needed_def add_line_def print_def Let_def split: if_splits)

lemma string_screen:
  "vram s = vram t \<Longrightarrow> fold print_string_char cs (i, j, s) = (a, b, s') \<Longrightarrow>
   \<exists>t'. fold print_string_char cs (i, j, t) = (a, b, t') \<and> vram s' = vram t'"
proof (induction cs arbitrary: i j s t)
  case Nil
  then show ?case by simp
next
  case (Cons c cs)
  obtain k l u where p: "print_string_char c (i, j, s) = (k, l, u)" by (metis prod_cases3)
  obtain w where w: "print_string_char c (i, j, t) = (k, l, w)" "vram u = vram w"
    using string_char_screen [OF Cons.prems(1) p] by blast
  then show ?case
    using Cons.IH [OF w(2)] Cons.prems(2) p by (simp del: print_string_char.simps)
qed

lemma kprint_screen:
  assumes "vram s = vram t" "scr_i s = scr_i t" "scr_j s = scr_j t"
  shows "vram (kprint cs s) = vram (kprint cs t)" "scr_i (kprint cs s) = scr_i (kprint cs t)"
proof -
  obtain a b s' where f: "fold print_string_char cs (scr_i t, scr_j t, s) = (a, b, s')" by (metis prod_cases3)
  obtain t' where t': "fold print_string_char cs (scr_i t, scr_j t, t) = (a, b, t')" "vram s' = vram t'"
    using string_screen [OF assms(1) f] by blast
  show "vram (kprint cs s) = vram (kprint cs t)" "scr_i (kprint cs s) = scr_i (kprint cs t)"
    using f t' by (simp_all add: kprint_def print_string_def assms(2,3) move_def hw_ops)
qed

end
