(* ===== verification/Demo.thy ===== *)
theory Demo
  imports UserSpace Tests
begin

text \<open>
  A concrete machine the properties are tried on: one free megabyte of memory at
  0x200000, the first 4 MB identity mapped as \<open>build_first_page\<close> leaves them, and, for the
  process properties, three processes in that identity mapped part.
\<close>

definition demo_region :: memory_map where
  "demo_region = \<lparr>mbase = 0x200000, mlength = 0x100000, mtype = 1, macpi = 0\<rparr>"

definition demo_memory :: sched where
  "demo_memory = boot_sched\<lparr>mm_entry := 1, mm_map := (\<lambda>_. demo_region)\<rparr>"

definition demo :: sched where
  "demo = enable_paging (build_first_page (init_virtual_allocator demo_memory))"

lemmas boot_defs = boot_sched_def boot_heap_def boot_paging_def boot_pmm_def boot_kbd_def boot_timer_def
  boot_tables_def boot_screen_def boot_hw_def
  sched.defs heap.defs paging.defs pmm.defs kbd.defs timer.defs tables.defs screen.defs hw.defs

lemma boot_fields [simp]:
  "scr_i boot_screen = 400" "scr_i boot_kbd = 400" "command_index boot_kbd = 0"
  by (simp_all add: boot_defs)

lemma demo_fields [simp]:
  "mm_entry demo = 1" "mm_map demo = (\<lambda>_. demo_region)" "next_virtual demo = 0x22000"
  "free_count demo = 0" "heap_head demo = 0" "current_block demo = 0" "process_list demo = 0"
  "current_process demo = 0" "process_number demo = 1" "ticks demo = 0"
  by (simp_all add: demo_def demo_memory_def enable_paging_def build_first_page_def
      init_virtual_allocator_def Let_def hw_ops boot_defs)

lemma demo_link: "link_ok (init_virtual_allocator demo_memory)"
  by (simp add: link_ok_def frame_of_def init_virtual_allocator_def demo_memory_def boot_defs)

lemma demo_translate: "translate demo v = (if unat v < 0x400000 then Some v else None)"
  unfolding demo_def by (rule identity_map(1) [OF demo_link])

lemma demo_vm: "vm_wf demo"
  unfolding demo_def by (rule identity_map(2) [OF demo_link])

lemma demo_regions: "regions demo = [demo_region]"
  by (simp add: regions_def arr_def entries_def)

lemma demo_mm: "mm_wf demo"
  by (simp add: mm_wf_def wf_regions_def region_ok_def demo_regions demo_region_def entries_def MAX_FREE_PAGES_def)

definition demo1 :: sched where
  "demo1 = snd (allocate 4096 demo)"

lemma demo_allocate: "allocate 4096 demo = (0x200000, demo1)"
  by (simp add: demo1_def allocate_def best_fit_def best_step_def entries_def demo_region_def Let_def
      MAX_FREE_PAGES_def take_entry_def split_entry_def shift_up_eq)


lemma demo1_shape: "\<exists>e m. demo1 = demo\<lparr>mm_entry := e, mm_map := m\<rparr>"
  unfolding demo1_def by (rule allocate_shape)

lemma demo1_fields [simp]:
  "next_virtual demo1 = 0x22000" "free_count demo1 = 0"
proof -
  obtain e m where d: "demo1 = demo\<lparr>mm_entry := e, mm_map := m\<rparr>" using demo1_shape by blast
  show "next_virtual demo1 = 0x22000" "free_count demo1 = 0" unfolding d by simp_all
qed

lemma demo1_virtual: "take_virtual demo1 = (0x22000, demo1\<lparr>next_virtual := 0x23000\<rparr>)"
  by (simp add: take_virtual_def)

lemma demo_tables: "present demo d \<longleftrightarrow> d = 0" "tframe demo 0 = 0x20000"
proof -
  have pd: "page_directory demo i = (if i = 0 then 0x20007 else if unat i < 1024 then 0 else page_directory demo i)" for i
    unfolding demo_def enable_paging_def build_first_page_def init_virtual_allocator_def demo_memory_def Let_def
    by (simp add: hw_ops cleared_directory [OF le_refl, unfolded One_nat_def] boot_defs)
  show "present demo d \<longleftrightarrow> d = 0"
    by (subst present_def, subst pd) simp
  show "tframe demo 0 = 0x20000"
    using pd [of 0] by (simp add: tframe_def frame_of_def)
qed

lemma demo_can_map: "pd_index v = 0 \<Longrightarrow> page_of v \<noteq> 0x20 \<Longrightarrow> can_map demo v"
  by (simp add: can_map_def demo_tables table_page_def page_of_def)

text \<open>Three processes, the first of them on the processor.\<close>

definition demo_process :: "u32 \<Rightarrow> u32 \<Rightarrow> u32 \<Rightarrow> process_state \<Rightarrow> u32 \<Rightarrow> process" where
  "demo_process n frame link st par = \<lparr>pid = n, proc_page_directory = 0, kernel_stack = frame, kernel_stack_to = frame + 0x4000,
     regs = frame, pstate = st, exit_code = 0, pentry = 0, wake = 0, pnext = link, parent = par, user_stack = 0\<rparr>"

definition demo_procs :: sched where
  "demo_procs = demo\<lparr>procs := (procs demo)
       (0x100000 := demo_process 1 0x110000 0x101000 PROCESS_READY 0,
        0x101000 := demo_process 2 0x111000 0x102000 PROCESS_READY 0x100000,
        0x102000 := demo_process 3 0x112000 0 PROCESS_READY 0x100000),
     process_list := 0x100000, current_process := 0x100000\<rparr>"

lemma demo_procs_translate: "translate demo_procs v = (if unat v < 0x400000 then Some v else None)"
  by (simp add: demo_procs_def demo_translate)

lemma demo_procs_fields [simp]:
  "process_list demo_procs = 0x100000" "current_process demo_procs = 0x100000"
  "procs demo_procs 0x100000 = demo_process 1 0x110000 0x101000 PROCESS_READY 0"
  "procs demo_procs 0x101000 = demo_process 2 0x111000 0x102000 PROCESS_READY 0x100000"
  "procs demo_procs 0x102000 = demo_process 3 0x112000 0 PROCESS_READY 0x100000"
  by (simp_all add: demo_procs_def)

lemma demo_process_fields [simp]:
  "pid (demo_process n f l st q) = n" "regs (demo_process n f l st q) = f" "pnext (demo_process n f l st q) = l"
  "pstate (demo_process n f l st q) = st" "parent (demo_process n f l st q) = q"
  "kernel_stack_to (demo_process n f l st q) = f + 0x4000" "wake (demo_process n f l st q) = 0"
  by (simp_all add: demo_process_def)

abbreviation demo_list :: "u32 list" where
  "demo_list \<equiv> [0x100000, 0x101000, 0x102000]"

lemma demo_plist: "plist demo_procs demo_list"
  by (simp add: plist_def demo_procs_translate)

lemma demo_runnable: "p \<in> set demo_list \<Longrightarrow> runnable demo_procs p"
  by (auto simp: runnable_def demo_procs_translate)

lemma demo_maps: "can_map demo 0x300000"
  by (rule demo_can_map) (simp_all add: pd_index_def page_of_def)

lemma low_flags: "(3 :: u32) AND NOT (mask 12) = 0" "(7 :: u32) AND NOT (mask 12) = 0"
  by (simp_all add: mask_eq_exp_minus_1)

text \<open>A state that differs from \<open>demo\<close> in other components only.\<close>

definition like_demo :: "'a paging_scheme \<Rightarrow> bool" where
  "like_demo s \<longleftrightarrow> page_directory s = page_directory demo \<and> ptab s = ptab demo \<and> paging_on s \<and>
     mm_map s = mm_map demo \<and> mm_entry s = mm_entry demo \<and> next_virtual s = 0x22000 \<and> free_count s = 0"

lemma demo_on [simp]: "paging_on demo"
  using demo_vm by (simp add: vm_wf_def)

lemma like_demo_refl [simp]: "like_demo demo"
  by (simp add: like_demo_def)

lemma can_map_present: "present s (pd_index v) \<Longrightarrow> \<not> table_page s v \<Longrightarrow> can_map s v"
  by (simp add: can_map_def)

lemma like_demo_vm:
  assumes "page_directory s = page_directory demo" "ptab s = ptab demo" "paging_on s"
  shows "vm_wf s" "translate s v = (if unat v < 0x400000 then Some v else None)"
    "pd_index v = 0 \<Longrightarrow> page_of v \<noteq> 0x20 \<Longrightarrow> can_map s v"
proof -
  have c: "translate s v = translate demo v" "vm_wf s = vm_wf demo" "present s d = present demo d"
    "table_page s v = table_page demo v" "tframe s 0 = 0x20000" for v d
    using demo_tables(2) vm_cong [where s = demo and s' = s] assms by simp_all
  show "vm_wf s" using c demo_vm by simp
  show "translate s v = (if unat v < 0x400000 then Some v else None)" using c demo_translate by simp
  show "pd_index v = 0 \<Longrightarrow> page_of v \<noteq> 0x20 \<Longrightarrow> can_map s v"
    by (rule can_map_present) (simp_all add: c(3,5) demo_tables(1) table_page_def page_of_def)
qed

lemma like_demo_allocate:
  assumes "like_demo s"
  obtains s1 where "allocate 4096 s = (0x200000, s1)" "page_directory s1 = page_directory demo"
    "ptab s1 = ptab demo" "paging_on s1" "next_virtual s1 = 0x22000" "free_count s1 = 0"
proof -
  obtain s1 where a: "allocate 4096 s = (0x200000, s1)"
    using allocate_cong(1) [of s demo 4096] assms demo_allocate by (auto simp: like_demo_def prod_eq_iff)
  obtain e m where s1: "s1 = s\<lparr>mm_entry := e, mm_map := m\<rparr>"
    using allocate_shape [of 4096 s] a by auto
  show ?thesis by (rule that [OF a]) (use assms in \<open>simp_all add: s1 like_demo_def\<close>)
qed

lemma like_demo_supply:
  fixes s :: "'a heap_scheme"
  assumes s: "like_demo s" and P: "0x22 \<notin> P" and f: "f AND NOT (mask 12) = 0" "f = 0 \<or> f AND 1 \<noteq> 0"
  shows "page_supply P f s"
proof (rule like_demo_allocate [OF s])
  fix s1 assume a: "allocate 4096 s = (0x200000, s1)"
    and k: "page_directory s1 = page_directory demo" "ptab s1 = ptab demo" "paging_on s1"
    "next_virtual s1 = 0x22000" "free_count s1 = 0"
  have v: "vm_wf s" using s by (intro like_demo_vm) (simp_all add: like_demo_def)
  have t: "take_virtual s1 = (0x22000, s1\<lparr>next_virtual := 0x23000\<rparr>)" using k by (simp add: take_virtual_def)
  have c: "can_map (s1\<lparr>next_virtual := 0x23000\<rparr>) 0x22000"
    by (rule like_demo_vm) (simp_all add: k pd_index_def page_of_def)
  have g: "page_of 0x22000 \<notin> P" using P by (simp add: page_of_def)
  show ?thesis by (rule page_supply_ready [OF v a _ t c f _ _ g]) simp_all
qed

lemma demo_heap_ok: "heap_ok {} {} demo []"
  by (simp add: heap_ok_def apart_spans_def)

text \<open>The same machine with one page in its heap.\<close>

definition demo_heap :: sched where
  "demo_heap = demo\<lparr>heap_head := 0x100000, current_block := 0x100000,
     blocks := (blocks demo)(0x100000 := fresh_block)\<rparr>"

lemma like_demo_heap [simp]: "like_demo demo_heap"
  by (simp add: like_demo_def demo_heap_def)

lemma demo_heap_block: "heap_ok {0x100} {} demo_heap [0x100000]"
  by (simp add: heap_ok_def apart_spans_def demo_heap_def block_fits_def block_size_def page_of_def
      demo_translate BLOCK_SIZE_def)

lemma demo_flags [simp]: "default_flags 3 = 3" "default_flags 7 = 7"
  by (simp_all add: default_flags_def)

text \<open>A memory map whose only free region is its last one supplies as many frames as fit.\<close>

lemma allocate_last_region:
  assumes r: "regions s = us @ [r]" "\<forall>u \<in> set us. mtype u \<noteq> 1" "mtype r = 1" "mbase r \<noteq> 0"
    "sz < mlength r" "entries s < MAX_FREE_PAGES"
  obtains s' where "allocate sz s = (ucast (mbase r), s')"
    "regions s' = (us @ [used_part sz r]) @ [free_part sz r]" "entries s' = entries s + 1"
proof (cases rule: allocate_list [of sz s])
  case none
  then show ?thesis using r by auto
next
  case full
  then show ?thesis using r by simp
next
  case (split xs q ys s')
  then have "xs @ q # ys = us @ [r]" using r(1) by simp
  then have "xs = us \<and> q = r \<and> ys = []"
    using r(2) split(2) by (cases ys rule: rev_cases) auto
  then show ?thesis using that split by simp
next
  case (exact xs q ys s')
  then have "xs @ q # ys = us @ [r]" using r(1) by simp
  then have "q = r" using r(2) exact(2) by (cases ys rule: rev_cases) auto
  then show ?thesis using exact(4) r(5) by simp
qed

lemma alloc_many_last_region:
  assumes "regions s = us @ [r]" "\<forall>u \<in> set us. mtype u \<noteq> 1" "mtype r = 1" "region_ok r" "mbase r \<noteq> 0"
    "4096 * n < unat (mlength r)" "entries s + int n \<le> MAX_FREE_PAGES"
  shows "length (fst (alloc_many (allocate 4096) n s)) = n"
  using assms
proof (induction n arbitrary: s us r)
  case 0
  then show ?case by simp
next
  case (Suc n)
  have sz: "4096 < mlength r" using Suc.prems(6) by (simp add: word_less_nat_alt)
  obtain s' where s': "allocate 4096 s = (ucast (mbase r), s')"
    "regions s' = (us @ [used_part 4096 r]) @ [free_part 4096 r]" "entries s' = entries s + 1"
    by (rule allocate_last_region [OF Suc.prems(1,2,3,5) sz]) (use Suc.prems(7) in simp_all)
  note sp = split_extent(3) [OF Suc.prems(4,3), of 4096]
  have ok: "region_ok (free_part 4096 r)"
    using sp Suc.prems(6) by (simp add: wf_regions_def)
  have len: "unat (mlength (free_part 4096 r)) = unat (mlength r) - 4096"
    using Suc.prems(6) by (simp add: free_part_def unat_sub word_le_nat_alt)
  have base: "unat (mbase (free_part 4096 r)) = unat (mbase r) + 4096"
    using Suc.prems(4,6) by (simp add: free_part_def region_ok_def unat_add_lem [THEN iffD1])
  then have "mbase (free_part 4096 r) \<noteq> 0" by (metis unat_0 add_is_0 zero_neq_numeral)
  then have "length (fst (alloc_many (allocate 4096) n s')) = n"
    using Suc.prems ok len s' by (intro Suc.IH [OF s'(2)]) (auto simp: used_part_def free_part_def)
  moreover have "(ucast (mbase r) :: u32) \<noteq> 0" by (rule low_base(2) [OF Suc.prems(4,3,5)])
  ultimately show ?case using s'(1) by (simp add: split_beta)
qed

lemma like_demo_frames:
  assumes "like_demo s" "n \<le> 200"
  shows "length (fst (alloc_many (allocate 4096) n s)) = n"
proof (rule alloc_many_last_region)
  show "regions s = [] @ [demo_region]" using assms(1) by (simp add: regions_def arr_def entries_def like_demo_def)
qed (use assms in \<open>simp_all add: demo_region_def region_ok_def entries_def like_demo_def MAX_FREE_PAGES_def\<close>)

definition demo_carved :: sched where
  "demo_carved = demo_heap\<lparr>blocks := (blocks demo_heap)(0x100039 := \<lparr>bsize = 4030, btype = 1, bnext = 0\<rparr>,
     0x100000 := \<lparr>bsize = 48, btype = 2, bnext = 0x100039\<rparr>)\<rparr>"

lemma demo_heap_fields [simp]:
  "heap_head demo_heap = 0x100000" "blocks demo_heap = (blocks demo)(0x100000 := fresh_block)"
  by (simp_all add: demo_heap_def)

lemma demo_heap_translate: "translate demo_heap v = (if unat v < 0x400000 then Some v else None)"
  by (simp add: demo_heap_def demo_translate)

lemma demo_kmalloc: "kmalloc sizeof_process (PAGE_PRESENT OR PAGE_WRITE) demo_heap = Ret demo_carved 0x100009"
  by (simp add: kmalloc_def sizeof_process_def page_flags best_block_loop.simps best_block_step_def carve_def
      BLOCK_SIZE_def touch_def demo_heap_translate set_block_def demo_carved_def fun_upd_twist)

lemma like_demo_carved [simp]: "like_demo demo_carved"
  using like_demo_heap by (simp add: like_demo_def demo_carved_def)

lemma like_demo_stack:
  assumes s: "like_demo s"
  obtains s' where "allocate_pages_contig 4 (PAGE_PRESENT OR PAGE_WRITE) s = Ret s' 0x22000" "vm_wf s'"
    "\<And>w. unat w < 0x400000 \<Longrightarrow> translate s' w \<noteq> None"
proof -
  have pd: "page_directory s = page_directory demo" "ptab s = ptab demo" "paging_on s" "next_virtual s = 0x22000"
    using s by (simp_all add: like_demo_def)
  note vm = like_demo_vm [OF pd(1-3)]
  have t: "present s (pd_index (0x22000 + of_nat k * 4096)) \<and> \<not> table_page s (0x22000 + of_nat k * 4096)"
    if "k < 4" for k
  proof -
    have c: "present s d = present demo d" "tframe s d = tframe demo d" for d
      using pd by (simp_all add: present_def tframe_def)
    from that have "k = 0 \<or> k = 1 \<or> k = 2 \<or> k = 3" by auto
    then show ?thesis by (auto simp: c demo_tables table_page_def pd_index_def page_of_def)
  qed
  obtain s' where s': "allocate_pages_contig (int 4) 3 s = Ret s' 0x22000" "vm_wf s'"
    "\<And>w. translate s' w =
       (if \<exists>k < 4. page_of w = page_of (0x22000 + of_nat k * 4096)
        then Some (frame_of (fst (alloc_many (allocate 4096) 4 s) ! (unat (page_of w) - unat (page_of 0x22000))) OR (w AND 0xFFF))
        else translate s w)"
    using allocate_pages_contig_ok [OF vm(1) low_flags(1), of "0x22000" 4, OF _ _ _ t refl like_demo_frames [OF s]]
    by (auto simp: pd)
  show ?thesis by (rule that [of s']) (use s' in \<open>simp_all add: page_flags vm(2)\<close>)
qed

lemma demo_allocations:
  obtains s3 where "allocations PROCESS_KERNEL demo_heap 0x100009 0x22000 0 s3" "vm_wf s3"
    "\<And>w. unat w < 0x400000 \<Longrightarrow> translate s3 w \<noteq> None"
proof (rule like_demo_stack [OF like_demo_carved])
  fix s3 assume s3: "allocate_pages_contig 4 (PAGE_PRESENT OR PAGE_WRITE) demo_carved = Ret s3 0x22000" "vm_wf s3"
    "\<And>w. unat w < 0x400000 \<Longrightarrow> translate s3 w \<noteq> None"
  have "allocations PROCESS_KERNEL demo_heap 0x100009 0x22000 0 s3"
    unfolding allocations_def using demo_kmalloc s3(1) by (simp add: PROCESS_KERNEL_def PROCESS_USER_def)
  with s3 show ?thesis by (intro that)
qed

text \<open>The sleeper is due, the others are ready.\<close>

lemma translate_ticks [simp]: "translate (s\<lparr>ticks := t\<rparr>) v = translate s v"
  by (simp add: translate_def pte_addr_def)

definition demo_sleeper :: sched where
  "demo_sleeper = update_proc 0x101000 (\<lambda>p. p\<lparr>pstate := PROCESS_BLOCKED, wake := 5\<rparr>) (demo_procs\<lparr>ticks := 7\<rparr>)"

lemma demo_sleeper_plist: "plist demo_sleeper demo_list"
  by (simp add: plist_def demo_sleeper_def demo_procs_translate)

text \<open>Every register frame was taken in user mode.\<close>

definition demo_user :: sched where
  "demo_user = demo_procs\<lparr>reg_mem := (\<lambda>_. zero_registers\<lparr>r_eip := 0x1234, r_cs := USER_CS\<rparr>)\<rparr>"

section \<open>Processes that yield, sleep, exit and wait\<close>

lemma demo_kernel: "kernel_ok demo_procs demo_list" "sched_ok demo_procs demo_list" "parents_ok demo_procs demo_list"
proof -
  show "sched_ok demo_procs demo_list" using demo_plist demo_runnable by (auto simp: sched_ok_def)
  moreover show "parents_ok demo_procs demo_list" by (auto simp: parents_ok_def demo_procs_translate)
  ultimately show "kernel_ok demo_procs demo_list" by (simp add: kernel_ok_def)
qed

text \<open>Variants of the machine in which some processes are in another state and another one runs.\<close>

definition demo_with :: "(process \<Rightarrow> process) \<Rightarrow> (process \<Rightarrow> process) \<Rightarrow> (process \<Rightarrow> process) \<Rightarrow> u32 \<Rightarrow> sched" where
  "demo_with f g h c = (update_proc 0x100000 f (update_proc 0x101000 g (update_proc 0x102000 h demo_procs)))
     \<lparr>current_process := c\<rparr>"

definition in_state :: "process_state \<Rightarrow> process \<Rightarrow> process" where
  "in_state st p = p\<lparr>pstate := st\<rparr>"

definition asleep_until :: "u32 \<Rightarrow> process \<Rightarrow> process" where
  "asleep_until t p = p\<lparr>pstate := PROCESS_BLOCKED, wake := t\<rparr>"

lemma state_change_fields [simp]:
  "pid (in_state st p) = pid p" "regs (in_state st p) = regs p" "pnext (in_state st p) = pnext p"
  "parent (in_state st p) = parent p" "pstate (in_state st p) = st" "exit_code (in_state st p) = exit_code p"
  "pid (asleep_until t p) = pid p" "regs (asleep_until t p) = regs p" "pnext (asleep_until t p) = pnext p"
  "parent (asleep_until t p) = parent p" "pstate (asleep_until t p) = PROCESS_BLOCKED" "wake (asleep_until t p) = t"
  by (simp_all add: in_state_def asleep_until_def)

lemma demo_with_fields [simp]:
  "current_process (demo_with f g h c) = c" "ticks (demo_with f g h c) = 0"
  "procs (demo_with f g h c) 0x100000 = f (demo_process 1 0x110000 0x101000 PROCESS_READY 0)"
  "procs (demo_with f g h c) 0x101000 = g (demo_process 2 0x111000 0x102000 PROCESS_READY 0x100000)"
  "procs (demo_with f g h c) 0x102000 = h (demo_process 3 0x112000 0 PROCESS_READY 0x100000)"
  "translate (demo_with f g h c) v = (if unat v < 0x400000 then Some v else None)"
  by (simp_all add: demo_with_def demo_procs_translate) (simp add: demo_procs_def)

definition keeps_links :: "(process \<Rightarrow> process) \<Rightarrow> bool" where
  "keeps_links f \<longleftrightarrow> (\<forall>p. pnext (f p) = pnext p \<and> regs (f p) = regs p \<and> parent (f p) = parent p)"

lemma keeps_links_simps [simp]:
  "keeps_links (\<lambda>p. p)" "keeps_links (in_state st)" "keeps_links (asleep_until t)"
  by (simp_all add: keeps_links_def)

lemma demo_with_kernel:
  assumes "keeps_links f" "keeps_links g" "keeps_links h" "c \<in> set demo_list"
  shows "kernel_ok (demo_with f g h c) demo_list"
proof (rule kernel_okI [OF demo_kernel(1) sched_ok_cong [OF demo_kernel(2)]])
  show "process_list (demo_with f g h c) = process_list demo_procs" by (simp add: demo_with_def)
  show "next_proc (demo_with f g h c) p = next_proc demo_procs p \<and> regs (procs (demo_with f g h c) p) = regs (procs demo_procs p)" for p
    using assms(1-3) by (auto simp: demo_with_def keeps_links_def)
  show "parent (procs (demo_with f g h c) p) = parent (procs demo_procs p)" for p
    using assms(1-3) by (auto simp: demo_with_def keeps_links_def)
qed (use assms(4) in \<open>simp_all add: demo_procs_translate\<close>)

text \<open>One interrupt of the demo machine is a step of the kernel.\<close>

lemma sys_yield_goes_on:
  assumes "sched_ok s ps" "translate s r \<noteq> None"
  shows "goes_on (sys_yield r s)"
  using sys_yield_ok [OF assms] by (simp add: Let_def)

lemma tick_step:
  assumes "sched_ok s ps" "translate s r \<noteq> None"
  shows "kernel_steps s [Tick r] (out_state (irq0_handler r s))"
  using kernel_steps.step [OF kernel_steps.start, of "Tick r" s] assms(2)
    sys_yield_goes_on [OF sched_ok_tick [OF assms(1)], of r] by (simp add: irq0_handler_ok [OF assms])

section \<open>A program in memory\<close>

text \<open>The message hi at 0x300000, and a kernel stack for the trap.\<close>

definition demo_hello :: sched where
  "demo_hello = demo_procs\<lparr>ram := (\<lambda>_. 0)(0x300000 := 104, 0x300001 := 105), tss := (tss demo_procs)\<lparr>esp0 := 0x114000\<rparr>\<rparr>"

lemma demo_hello_fields [simp]:
  "translate demo_hello v = (if unat v < 0x400000 then Some v else None)" "procs demo_hello = procs demo_procs"
  "current_process demo_hello = 0x100000" "process_list demo_hello = 0x100000" "trap_frame demo_hello = 0x113FBC"
  by (simp_all add: demo_hello_def demo_procs_translate trap_frame_def sizeof_registers_def)

lemma demo_hello_kernel: "kernel_ok demo_hello demo_list"
  by (rule kernel_okI [OF demo_kernel(1) sched_ok_cong [OF demo_kernel(2)]]) (simp_all add: demo_procs_translate)

lemma demo_hello_string: "c_string demo_hello 0x300000 [104, 105]"
  by (simp add: mem_def phys_def) (simp add: demo_hello_def)

section \<open>An executable in memory\<close>

text \<open>An ELF image at 0x300000: one segment of eight bytes at 0x150000, of which the file holds
  four.\<close>

definition elf_image :: "u32 \<Rightarrow> u8" where
  "elf_image = (\<lambda>_. 0)(0x300000 := 0x7F, 0x300001 := 0x45, 0x300002 := 0x4C, 0x300003 := 0x46,
     0x300004 := 1, 0x300005 := 1, 0x300006 := 1, 0x300010 := 2, 0x300012 := 3, 0x300014 := 1, 0x30001A := 0x15,
     0x30001C := 0x34, 0x300028 := 0x34, 0x30002A := 0x20, 0x30002C := 1,
     0x300034 := 1, 0x300038 := 0x54, 0x30003E := 0x15, 0x300042 := 0x15, 0x300044 := 4, 0x300048 := 8,
     0x30004C := 7, 0x300051 := 0x10, 0x300054 := 0xDE, 0x300055 := 0xAD, 0x300056 := 0xBE, 0x300057 := 0xEF)"

definition demo_elf :: sched where
  "demo_elf = demo\<lparr>ram := elf_image\<rparr>"

lemma demo_elf_translate [simp]: "translate demo_elf v = (if unat v < 0x400000 then Some v else None)"
  by (simp add: demo_elf_def demo_translate)

lemma demo_elf_mem: "unat v < 0x400000 \<Longrightarrow> mem demo_elf v = elf_image v"
  by (simp add: mem_def phys_def) (simp add: demo_elf_def)

lemma like_demo_elf: "like_demo demo_elf"
  by (simp add: like_demo_def demo_elf_def)

lemma demo_elf_header:
  "valid_header demo_elf 0x300000" "word16 demo_elf (0x300000 + e_type) = ET_EXEC" "word16 demo_elf (0x300000 + e_phnum) = 1"
  "word32 demo_elf (0x300000 + e_phoff) = 0x34" "word32 demo_elf (0x300000 + e_entry) = 0x150000"
  by (simp_all add: valid_header_def word16_def word32_def elf_layout elf_consts demo_elf_mem elf_image_def)

lemma demo_elf_segment:
  "word32 demo_elf (0x300034 + p_type) = PT_LOAD" "word32 demo_elf (0x300034 + p_offset) = 0x54"
  "word32 demo_elf (0x300034 + p_vaddr) = 0x150000" "word32 demo_elf (0x300034 + p_filesz) = 4"
  "word32 demo_elf (0x300034 + p_memsz) = 8"
  by (simp_all add: word16_def word32_def elf_layout elf_consts demo_elf_mem elf_image_def)

lemma demo_elf_frames: "frames_for 1 demo_elf = [0x200000]"
proof -
  obtain s1 where "allocate 4096 demo_elf = (0x200000, s1)" by (rule like_demo_allocate [OF like_demo_elf])
  then show ?thesis by (simp add: frames_for_def)
qed

lemma demo_elf_room: "segment_room demo_elf 0x150000 8 1"
proof -
  have vm: "vm_wf demo_elf" using demo_vm by (simp add: demo_elf_def)
  have mm: "mm_wf demo_elf" using demo_mm by (simp add: mm_wf_def demo_elf_def regions_def arr_def entries_def wf_regions_def)
  have t: "present demo_elf 0" "\<not> table_page demo_elf 0x150000"
  proof -
    have "present demo_elf d = present demo d" "tframe demo_elf d = tframe demo d" for d
      by (simp_all add: demo_elf_def present_def tframe_def)
    then show "present demo_elf 0" "\<not> table_page demo_elf 0x150000"
      using demo_tables by (simp_all add: table_page_def page_of_def)
  qed
  show ?thesis
    using vm mm t demo_elf_frames by (simp add: segment_room_def segment_start_def segment_end_def pd_index_def)
qed

lemma demo_elf_clear:
  assumes "unat a = 0x300000 + j" "j + len \<le> 4096"
  shows "clear_of_segment demo_elf 0x150000 8 1 a len"
proof -
  have u: "unat (a + of_nat k) = 0x300000 + (j + k)" if "k < len" for k
    using assms that by (simp add: unat_word_ariths unat_of_nat_u32)
  have "frame_of (a + of_nat k) \<noteq> frame_of 0x200000" if "k < len" for k
    using frame_of_unat [of "a + of_nat k"] frame_of_unat [of "0x200000"] u [OF that] assms(2) that by auto
  then show ?thesis
    using u assms(2) by (simp add: clear_of_segment_def mapped_def in_segment_def segment_start_def segment_end_def
        demo_elf_frames [unfolded One_nat_def] phys_def)
qed

lemma demo_one_segment: "one_segment demo_elf 0x300000 0x300034 1"
  using demo_elf_header demo_elf_segment demo_elf_room demo_elf_clear [of "0x300000" 0 52]
    demo_elf_clear [of "0x300034" 52 32] demo_elf_clear [of "0x300054" 84 4]
  by (simp add: one_segment_def Let_def)

end
