(* ===== verification/Spec2Isabelle.thy ===== *)
theory Spec2Isabelle
  imports UserSpace Tests Demo
begin

text \<open>
  A verification of the C sources of mini_kernel, a small 32-bit x86 kernel with paging,
  a heap, preemptive processes, system calls, an ELF loader and a shell.

  The parts of the program and the theories that model them, in the order of their imports:

  Prelude (kernel/types.h): integer types, the outcome of a routine, linked lists of
    addresses, and two locales, \<open>pointer_search\<close> and \<open>pointer_sweep\<close>, for the loops that walk
    them.
  Machine (kernel/asm_operation.h): port I/O and privileged instructions as a trace of events.
  Vga (kernel/vga.c): text output on the bytes of video memory. Locale \<open>output_device\<close>: what
    writing a string keeps, from what writing a character keeps.
  Descriptors (kernel/idt.c, kernel/tss.c): interrupt gates, segments, the task state segment.
  Timer (kernel/pit.c) and Keyboard (kernel/keyboard.c, the handler of kernel/kernel.c).
  PhysMem (kernel/pmm.c: search, allocate, free): frames of the memory map. Locale
    \<open>frame_allocator\<close>: the contract of a frame allocator and what follows for many allocations.
  Paging (kernel/pmm.c: map_page to allocate_pages_contig, memset, memcpy): page tables and the
    page walk of the processor. Locale \<open>effect_frame\<close>: relations between the states before and
    after that compose along a routine.
  KHeap (kernel/pmm.c: kmalloc, kfree, inspect): the block list of the heap.
  Process (kernel/process.c, kernel/process.h): the process list, the round-robin scheduler,
    context switches, creation, exit and removal.
  Elf (kernel/elf.c, kernel/elf.h): checks, segments, loading, process images.
  Syscall (kernel/syscall.c, kernel/syscall.h): the seventeen calls and the dispatcher.
  KernelMain (kernel/kernel.c): timer interrupt, faults, waits, boot; and the kernel as a
    transition system whose events are timer interrupts and scheduling calls.
  UserSpace (user/*.c): system call stubs through the trap, strcmp, the shell, the programs.
  Tests (kernel/tests.c): the self-tests as programs over the modelled routines.
  Demo: a concrete machine on which the properties below are tried.

  How code and model correspond. Every C function is a definition of the same name; the
  records extend each other (hw, screen, tables, timer, kbd, pmm, paging, heap, sched), one
  per group of global variables, and a routine works on any extension of the state it needs.
  A routine returns an outcome: \<open>Ret s v\<close>, or \<open>Stop s r\<close> where control leaves it for good (a
  process is resumed, the processor is halted, a page fault, undefined behaviour, a loop
  without end). Words have the width of the C types, \<open>int\<close> variables that cannot overflow are
  integers. Loops are structural recursions over fixed ranges, functions with a termination
  proof, or partial functions into option where the code may not end; for the latter \<open>None\<close>
  is not ending, and the lemmas prove the value \<open>Some\<close>. Endless loops of tasks and programs
  are given by their first \<open>n\<close> rounds for every \<open>n\<close>.

  What the groups of lemmas show. PhysMem: the regions of the memory map stay disjoint,
  \<open>allocate\<close> is best fit and takes free bytes only, \<open>free\<close> gives them back and merges.
  Paging: \<open>vm_wf\<close>, the tables are distinct, mapped to themselves and non-null; each routine
  keeps it and changes the translation of the pages it names only. KHeap: \<open>heap_ok\<close>, blocks
  and live allocations are apart; \<open>kmalloc\<close> is best fit and never hands out live memory.
  Process: \<open>plist\<close>, the list is acyclic and mapped; scheduling, waking, switching, creating
  and removing on it. Syscall: \<open>sched_ok\<close> and the effect of yield, sleep, wait and exit on it,
  fairness of yielding. Elf: reading headers, \<open>segment_room\<close> and \<open>clear_of_segment\<close>, what a
  segment needs; the loaded bytes; loading ends from any state. KernelMain: \<open>kernel_steps\<close> and
  the invariant \<open>kernel_ok\<close> by rule induction; when waits end; the tables after boot.
  UserSpace: what a stub returns through the trap; strings; whole programs.

  Bounds. Array sizes are those of the code (1024 regions, 1024 entries per table, 1024 freed
  pages, 128 characters, 256 gates); the counters of the loops are bounded by them or by the
  length of a list. No definition has fuel.

  What is not modelled, and why. The assembly files (boot sector, interrupt stubs,
  \<open>restore_esp\<close>, mode switches) have no C source: what the C code relies on is in the model,
  as the frame address that a resumed process gets and as events of the trace. Memory is a
  group of typed stores at virtual addresses (process records, register frames, heap headers,
  page tables, bytes), so a store of one type never changes another; overlaps of these are
  excluded by the allocation properties, not observed. Video memory is a store of its own.
  Interrupts are taken between routines and in the waits (the parameter \<open>env\<close>), not between two
  instructions of a kernel routine. The addresses of linked objects (\<open>link\<close>, string literals,
  program images) and the contents of the binaries are parameters. user/elf_test.c is an empty
  endless loop. Next steps of the plan: fork and exec as whole operations, the self-tests on
  well-formed states, and the boot sequence up to the first process.
\<close>

section \<open>Physical memory\<close>

text \<open>
  C1. From a well-formed memory map, allocate keeps the map well formed; if it returns 0 nothing
  changes, and otherwise the block it hands out consists of bytes that were free, and exactly
  those bytes stop being free.
\<close>

theorem allocate_takes_free_bytes:
  assumes "mm_wf s" "0 < sz" "allocate sz s = (a, s')"
  shows "mm_wf s' \<and>
    (if a = 0 then s' = s
     else block_bytes sz a \<subseteq> free_bytes (regions s) \<and>
          free_bytes (regions s') = free_bytes (regions s) - block_bytes sz a)"
  using allocate_spec [OF assms] by simp

theorem allocate_takes_free_bytes_witness:
  "mm_wf demo1 \<and> block_bytes 4096 0x200000 \<subseteq> free_bytes (regions demo)"
  using allocate_takes_free_bytes [OF demo_mm _ demo_allocate] by simp



text \<open>
  C3. Freeing a frame that allocate has just handed out gives back the same free bytes and the
  same set of owned frames, in a well-formed map, merges included.
\<close>

theorem allocate_free_restores:
  assumes "mm_wf s" "allocate 4096 s = (a, s')" "a \<noteq> 0"
  shows "mm_wf (free a s') \<and> pool_avail (free a s') = pool_avail s \<and> page_owned (free a s') = page_owned s"
  by (rule frames.alloc_release [OF assms])

theorem allocate_free_restores_witness:
  "pool_avail (free 0x200000 demo1) = pool_avail demo"
  using allocate_free_restores [OF demo_mm demo_allocate] by simp

text \<open>
  C4. However many frames are allocated in a row, the frames are pairwise disjoint, all inside the
  bytes that were free at the start, and those bytes are what is no longer free.
\<close>

theorem allocations_disjoint:
  assumes "mm_wf s" "alloc_many (allocate 4096) n s = (as, s')"
  shows "mm_wf s' \<and> (\<forall>a \<in> set as. block_bytes 4096 a \<subseteq> pool_avail s) \<and>
    sorted_wrt (\<lambda>a b. block_bytes 4096 a \<inter> block_bytes 4096 b = {}) as \<and>
    pool_avail s' = pool_avail s - (\<Union>a \<in> set as. block_bytes 4096 a)"
  by (rule frames.alloc_many_disjoint [OF assms])

theorem allocations_disjoint_witness:
  "mm_wf (snd (alloc_many (allocate 4096) 2 demo))"
  using allocations_disjoint [OF demo_mm prod.collapse [symmetric]] by blast

text \<open>
  C5. free of the base of a region below 4 GB adds the bytes of that region to the free bytes and
  touches no other region that is in use, whichever of the two merges happens.
\<close>

theorem free_returns_region:
  assumes "mm_wf s" "r \<in> set (regions s)" "mbase r = ucast a" "unat (mbase r) + unat (mlength r) \<le> 2 ^ 32"
  shows "mm_wf (free a s) \<and> free_bytes (regions (free a s)) = free_bytes (regions s) \<union> extent r \<and>
    (\<forall>x. mtype x \<noteq> 1 \<longrightarrow> x \<in> set (regions (free a s)) \<longleftrightarrow> x \<in> set (regions s) \<and> x \<noteq> r)"
  by (rule free_list [OF assms])

theorem free_returns_region_witness: "mm_wf (free 0x200000 demo)"
  using free_returns_region [OF demo_mm, where r = demo_region and a = "0x200000"]
  by (simp add: demo_regions) (simp add: demo_region_def)

section \<open>Paging\<close>

text \<open>
  C6. After build_first_page and the switch to paging, exactly the first 4 MB are mapped, each
  address to itself, and the tables are in the state the paging routines rely on.
\<close>

theorem boot_identity_map:
  assumes "link_ok s"
  shows "vm_wf (enable_paging (build_first_page s)) \<and>
    translate (enable_paging (build_first_page s)) v = (if unat v < 0x400000 then Some v else None)"
  using identity_map [OF assms] by blast

theorem boot_identity_map_witness: "translate demo 0xB8000 = Some 0xB8000"
  using boot_identity_map [OF demo_link, of "0xB8000"] by (simp add: demo_def)

text \<open>
  C7. Where the virtual page can be mapped (its table is present, or a frame for a new one is
  available and identity mapped), map_page returns, keeps the tables well formed, maps the
  page to the frame with the offset kept, changes the translation of no other page, and ends
  with invlpg of that address.
\<close>

theorem map_page_changes_one_page:
  assumes "vm_wf s" "can_map s v" "f AND NOT (mask 12) = 0"
  shows "\<exists>s'. map_page p v f s = Ret s' () \<and> vm_wf s' \<and> last (hw_trace s') = Invlpg v \<and>
    (\<forall>w. translate s' w =
       (if page_of w = page_of v then (if f AND 1 = 0 then None else Some (frame_of p OR (w AND 0xFFF)))
        else translate s w))"
  by (rule map_page_ok [OF assms, of p]) (auto simp: maps_only_def)

theorem map_page_changes_one_page_witness:
  "\<exists>s'. map_page 0x250000 0x300000 3 demo = Ret s' () \<and> translate s' 0x300004 = Some 0x250004"
  using map_page_changes_one_page [OF demo_vm demo_maps low_flags(1), where p = "0x250000"]
  by (auto simp: page_of_def frame_of_def)

text \<open>
  C8. After map_page, get_map returns the frame; after unmap_page it returns 0, and all other
  pages translate as before.
\<close>

theorem mapping_round_trip:
  assumes "vm_wf s" "can_map s v" "f AND NOT (mask 12) = 0" "f AND 1 \<noteq> 0"
  shows "\<exists>s' s''. map_page p v f s = Ret s' () \<and> get_map v s' = Ret s' (frame_of p) \<and>
    unmap_page v s' = Ret s'' () \<and> get_map v s'' = Ret s'' 0 \<and>
    (\<forall>w. page_of w \<noteq> page_of v \<longrightarrow> translate s'' w = translate s w)"
proof (rule map_page_ok [OF assms(1-3), of p])
  fix s' assume s': "map_page p v f s = Ret s' ()" "vm_wf s'" "\<not> table_page s' v"
    and m: "maps_only v (if f AND 1 = 0 then None else Some (frame_of p)) s s'"
  obtain s'' where u: "unmap_page v s' = Ret s'' ()" "vm_wf s''" "maps_only v None s' s''"
    by (rule unmap_page_ok [OF s'(2,3)])
  have "get_map v s' = Ret s' (frame_of p)" "get_map v s'' = Ret s'' 0"
    using get_map_ok [OF s'(2), of v] get_map_ok [OF u(2), of v] m u(3) assms(4)
    by (simp_all add: maps_only_same translate_frame)
  moreover have "translate s'' w = translate s w" if "page_of w \<noteq> page_of v" for w
    using maps_only_other [OF u(3) that] maps_only_other [OF m that] by simp
  ultimately show ?thesis using s'(1) u(1) by blast
qed

theorem mapping_round_trip_witness:
  "\<exists>s'. map_page 0x250000 0x300000 3 demo = Ret s' () \<and> get_map 0x300000 s' = Ret s' 0x250000"
  using mapping_round_trip [OF demo_vm demo_maps low_flags(1), where p = "0x250000"]
  by (auto simp: frame_of_def)





section \<open>The kernel heap\<close>

text \<open>
  C11. For sizes up to 4087 bytes kmalloc returns a block that overlaps no live allocation and
  keeps the heap invariant, growing the heap by a page when no block fits and the page
  allocator can supply one.
\<close>

theorem kmalloc_never_overlaps:
  assumes "heap_ok P L s bs" "0 < unat sz" "unat sz \<le> 4087"
    and "(\<forall>b \<in> set bs. \<not> fitting s sz b) \<Longrightarrow> page_supply P (default_flags f) s"
  shows "\<exists>s' a P' bs'. kmalloc sz f s = Ret s' a \<and> P \<subseteq> P' \<and> heap_ok P' (insert (a, sz) L) s' bs' \<and>
    (\<forall>y \<in> L. region (a, sz) \<inter> region y = {}) \<and> holds s' bs' a sz"
  by (rule kmalloc_ok [OF assms])

theorem kmalloc_never_overlaps_witness:
  "\<exists>s' a P' bs'. kmalloc 100 3 demo = Ret s' a \<and> heap_ok P' {(a, 100)} s' bs'"
  using kmalloc_never_overlaps [OF demo_heap_ok, of 100 3] like_demo_supply [OF like_demo_refl, of "{}" 3] low_flags
  by simp blast

text \<open>
  C12. When some block of the list fits, kmalloc hands out the payload of a fitting block of least
  size.
\<close>

theorem kmalloc_best_fit:
  assumes "heap_ok P L s bs" "sz \<noteq> 0" "sz \<le> 4096" "b \<in> set bs" "fitting s sz b"
  shows "\<exists>s' c. kmalloc sz f s = Ret s' (c + BLOCK_SIZE) \<and> c \<in> set bs \<and> fitting s sz c \<and>
    (\<forall>d \<in> set bs. fitting s sz d \<longrightarrow> bsize (blocks s c) \<le> bsize (blocks s d))"
proof -
  have e: "\<exists>b \<in> set bs. fitting s sz b" using assms(4,5) by blast
  then have "best_block s sz bs \<noteq> 0" using best_block_heap(1) [OF assms(1), of sz] by blast
  note c = best_block_heap(2) [OF assms(1) this]
  obtain s' where "kmalloc sz f s = Ret s' (best_block s sz bs + BLOCK_SIZE)"
    by (rule kmalloc_fit [OF assms(1-3) e])
  with c show ?thesis by blast
qed

theorem kmalloc_best_fit_witness:
  "\<exists>s' c. kmalloc 100 3 demo_heap = Ret s' (c + BLOCK_SIZE) \<and> c = 0x100000"
  using kmalloc_best_fit [OF demo_heap_block, of 100 "0x100000" 3]
  by (simp add: fitting_def demo_heap_def BLOCK_SIZE_def)

text \<open>
  C13. kfree of the address kmalloc returned keeps the heap invariant without that allocation, and
  the block can serve a request of the same size again.
\<close>

theorem kmalloc_kfree_reuses:
  assumes "heap_ok P L s bs" "0 < unat sz" "unat sz \<le> 4087"
    and "(\<forall>b \<in> set bs. \<not> fitting s sz b) \<Longrightarrow> page_supply P (default_flags f) s"
  shows "\<exists>s' a s'' P' bs'. kmalloc sz f s = Ret s' a \<and> kfree a s' = Ret s'' () \<and>
    heap_ok P' {x \<in> L. fst x \<noteq> a} s'' bs' \<and> fitting s'' sz (a - BLOCK_SIZE)"
  by (rule kmalloc_kfree [OF assms])

theorem kmalloc_kfree_reuses_witness:
  "\<exists>s' a s''. kmalloc 100 3 demo = Ret s' a \<and> kfree a s' = Ret s'' ()"
  using kmalloc_kfree_reuses [OF demo_heap_ok, of 100 3] like_demo_supply [OF like_demo_refl, of "{}" 3] low_flags
  by simp blast

text \<open>
  C14. On an empty heap with no free frame left, kmalloc does not report failure: it takes the null
  page as a block and returns the address 9.
\<close>

theorem kmalloc_out_of_memory:
  assumes "heap_head s = 0" "exhausted s" "translate s 0 \<noteq> None" "sz \<noteq> 0" "unat sz \<le> 4096"
  shows "\<exists>s'. kmalloc sz f s = Ret s' 9"
  by (rule kmalloc_exhausted [OF assms])

theorem kmalloc_out_of_memory_witness:
  "\<exists>s'. kmalloc 100 3 boot_sched = Ret s' 9"
  by (rule kmalloc_out_of_memory)
    (simp_all add: exhausted_def best_fit_def entries_def translate_def boot_defs)

text \<open>
  C15. For the sizes 4088 to 4096, which kmalloc accepts, the block it returns has 4087 bytes and
  the request reaches past the end of the page.
\<close>

theorem kmalloc_beyond_page:
  assumes "heap_ok P L s bs" "bs \<noteq> []" "4087 < unat sz" "unat sz \<le> 4096" "page_supply P (default_flags f) s"
  shows "\<exists>s' p. kmalloc sz f s = Ret s' (p + BLOCK_SIZE) \<and> block_size s' p = 4087 \<and> unat p mod 4096 = 0 \<and>
    unat (p + BLOCK_SIZE) + unat sz > unat p + 4096"
  by (rule kmalloc_oversized [OF assms])

theorem kmalloc_beyond_page_witness:
  "\<exists>s' p. kmalloc 4090 3 demo_heap = Ret s' (p + BLOCK_SIZE) \<and> block_size s' p = 4087"
  using kmalloc_beyond_page [OF demo_heap_block, of 4090 3] like_demo_supply [OF like_demo_heap, of "{0x100}" 3] low_flags
  by simp blast

section \<open>Processes\<close>

text \<open>
  C16. schedule on the linked list is the abstract round robin: the first ready process of the list
  rotated to start behind the current one, or null.
\<close>

theorem schedule_round_robin:
  assumes "plist s (xs @ current_process s # ys)"
  shows "schedule s = Ret s (first_ready s (ys @ xs))"
  by (rule schedule_ok [OF assms refl])

theorem schedule_round_robin_witness: "schedule demo_procs = Ret demo_procs 0x101000"
  using schedule_round_robin [of demo_procs "[]" "[0x101000, 0x102000]"] demo_plist by simp

text \<open>
  C17. wake_processes makes exactly the blocked processes of the list ready whose wake time is not
  after the tick counter (as signed integers), and changes nothing else.
\<close>

theorem wake_processes_exact:
  assumes "plist s ps"
  shows "wake_processes s = Ret (s\<lparr>procs := (\<lambda>p.
    if p \<in> set ps \<and> pstate (procs s p) = PROCESS_BLOCKED \<and> wake (procs s p) \<le>s ticks s
    then (procs s p)\<lparr>pstate := PROCESS_READY\<rparr> else procs s p)\<rparr>) ()"
  using wake_processes_ok [OF assms] by (simp add: woken_def due_def)

theorem wake_processes_exact_witness:
  "\<exists>t. wake_processes demo_sleeper = Ret t () \<and> pstate (procs t 0x101000) = PROCESS_READY"
  using wake_processes_exact [OF demo_sleeper_plist] by (simp add: demo_sleeper_def)

text \<open>
  C18. A process interrupted in user mode and switched away from resumes, when it is switched back
  to, with exactly the registers it was interrupted with and with its own kernel stack in the
  task state segment, provided nothing else wrote its frame in between.
\<close>

theorem context_survives_switch:
  assumes "runnable s p" "current_process s = p" "translate s r \<noteq> None" "runnable s q" "r_cs (reg_mem s r) AND 3 = 3"
    and "reg_mem t (regs (procs s p)) = reg_mem (switched r q s) (regs (procs s p))"
    and "runnable t (current_process t)" "translate t r' \<noteq> None" "runnable t p"
      "regs (procs t p) = regs (procs s p)" "regs (procs t (current_process t)) \<noteq> regs (procs s p)"
  shows "context_switch r q s = Stop (switched r q s) (Resume (regs (procs s q))) \<and>
    (\<exists>t'. context_switch r' p t = Stop t' (Resume (regs (procs s p))) \<and>
      reg_mem t' (regs (procs s p)) = reg_mem s r \<and> esp0 (tss t') = kernel_stack_to (procs t p))"
  using switch_and_back [OF assms] context_switch_ok [of s r q] assms(1-4) by simp


theorem context_survives_switch_witness:
  "\<exists>t'. context_switch 0x120000 0x100000 (switched 0x120000 0x101000 demo_user) = Stop t' (Resume 0x110000) \<and>
     r_eip (reg_mem t' 0x110000) = 0x1234"
proof -
  have r: "runnable demo_user p" "runnable (switched 0x120000 0x101000 demo_user) p" if "p \<in> set demo_list" for p
    using that by (auto simp: runnable_def demo_user_def demo_procs_translate)
  show ?thesis
    using context_survives_switch [of demo_user "0x100000" "0x120000" "0x101000" "switched 0x120000 0x101000 demo_user" "0x120000"]
      r [of "0x100000"] r [of "0x101000"]
    by (auto simp: demo_user_def demo_procs_translate USER_CS_def)
qed

text \<open>
  C19. exit_process makes the current process a zombie and its parent ready, and resumes another
  ready process of the list; it halts the machine exactly when there is none.
\<close>

theorem exit_process_outcome:
  assumes "plist s ps" "current_process s \<in> set ps" "\<And>p. p \<in> set ps \<Longrightarrow> runnable s p"
    and "parent (procs s (current_process s)) \<noteq> 0 \<Longrightarrow> translate s (parent (procs s (current_process s))) \<noteq> None"
  shows "(\<exists>q. q \<in> set ps \<and> q \<noteq> current_process s \<and> ready (buried s) q \<and>
      exit_process s = Stop ((buried s)\<lparr>current_process := q\<rparr>) (Resume (regs (procs s q)))) \<or>
    (\<forall>q \<in> set ps. q \<noteq> current_process s \<longrightarrow> \<not> ready (buried s) q) \<and>
      (\<exists>s'. exit_process s = Stop s' Halted)"
  by (rule exit_process_ok [OF assms(1,2,4,3)])

theorem exit_process_outcome_witness:
  "\<exists>s' r. exit_process demo_procs = Stop s' r"
  using exit_process_outcome [OF demo_plist _ demo_runnable] by auto

text \<open>
  C20. When its allocations succeed, create_process appends one ready process to the list, with the
  next process number, the current process as parent and the initial register frame of its
  mode, and changes no other process but the link of the last one.
\<close>

theorem create_process_appends:
  assumes "plist s ps" "allocations mode s pro stack ustack s3"
    and "pro \<notin> set ps" "translate s3 pro \<noteq> None" "translate s3 (stack_frame stack) \<noteq> None"
    and "\<And>p. p \<in> set ps \<Longrightarrow> translate s3 p \<noteq> None"
  shows "\<exists>s'. create_process entry mode s = Ret s' pro \<and> plist s' (ps @ [pro]) \<and>
    pid (procs s' pro) = ucast (process_number s) \<and> pstate (procs s' pro) = PROCESS_READY \<and>
    parent (procs s' pro) = current_process s \<and> process_number s' = process_number s + 1 \<and>
    reg_mem s' (regs (procs s' pro)) = initial_registers mode (addr_process_entry s) entry stack ustack \<and>
    (\<forall>q. q \<noteq> pro \<longrightarrow> procs s' q = (procs s q)\<lparr>pnext := next_proc s' q\<rparr>)"
  by (rule create_process_ok [OF assms, where entry = entry]) auto


theorem create_process_appends_witness:
  "\<exists>s'. create_process 0x5000 PROCESS_KERNEL demo_heap = Ret s' 0x100009 \<and> plist s' [0x100009]"
proof (rule demo_allocations)
  fix s3 assume s3: "allocations PROCESS_KERNEL demo_heap 0x100009 0x22000 0 s3"
    "\<And>w. unat w < 0x400000 \<Longrightarrow> translate s3 w \<noteq> None"
  have "plist demo_heap []" by (simp add: plist_def demo_heap_def)
  from create_process_appends [OF this s3(1)] show ?thesis
    using s3(2) [of "0x100009"] s3(2) [of "stack_frame 0x22000"]
    by (auto simp: stack_frame_def KERNEL_STACK_SIZE_def sizeof_registers_def)
qed



section \<open>The kernel as a whole\<close>





text \<open>
  C24. Yielding is fair: among as many yields as there are other processes, each by whatever
  process is running then, every process that was ready gets the processor.
\<close>

theorem every_ready_process_runs_in_turn:
  assumes "sched_ok s ps" "\<forall>r \<in> set rs. translate s r \<noteq> None" "length ps \<le> Suc (length rs)"
    and "p \<in> set ps" "pstate (procs s p) = PROCESS_READY"
  shows "\<exists>n \<le> length rs. current_process (yields (take n rs) s) = p"
  by (rule every_ready_process_runs [OF assms])

theorem every_ready_process_runs_in_turn_witness:
  "\<exists>n \<le> 2. current_process (yields (take n [0x300000, 0x300000]) demo_procs) = 0x102000"
proof -
  have "\<exists>n \<le> length [0x300000, 0x300000 :: u32]. current_process (yields (take n [0x300000, 0x300000]) demo_procs) = 0x102000"
    by (rule every_ready_process_runs_in_turn [OF demo_kernel(2)]) (simp_all add: demo_procs_translate)
  then show ?thesis by (simp add: numeral_2_eq_2)
qed

text \<open>
  C25. The timer interrupt, which wakes the sleepers itself and then calls sys_yield, which wakes
  them again, is the same as a tick, the end-of-interrupt and one yield.
\<close>

theorem timer_interrupt_yields:
  assumes "sched_ok s ps" "translate s r \<noteq> None"
  shows "irq0_handler r s = sys_yield r (outb 0x20 0x20 (s\<lparr>ticks := ticks s + 1\<rparr>))"
  using irq0_handler_ok [OF assms] by (simp add: tick_def)

theorem timer_interrupt_yields_witness:
  "irq0_handler 0x300000 demo_procs = sys_yield 0x300000 (outb 0x20 0x20 (demo_procs\<lparr>ticks := 1\<rparr>))"
  using timer_interrupt_yields [OF demo_kernel(2), of "0x300000"] by (simp add: demo_procs_translate) (simp add: demo_procs_def)

text \<open>
  C26. When a process has exited and its parent runs again and waits, with no other dead process
  around, wait returns the number of that process and leaves its exit code at the status
  address.
\<close>

theorem exit_code_reaches_parent:
  assumes "sched_ok s ps" "c = current_process s" "parent (procs s c) \<noteq> 0" "parent (procs s c) \<noteq> c"
    and "\<forall>p \<in> set ps. pstate (procs s p) \<noteq> PROCESS_ZOMBIE"
    and "sched_ok u ps" "parents_ok u ps" "procs u = procs (out_state (sys_exit status s))"
      "current_process u = parent (procs s c)"
    and "mapped u st 4" "unat st mod 4 = 0" "paging_on u" "translate s (parent (procs s c)) \<noteq> None"
  shows "\<exists>u'. sys_wait st r u = Ret u' (pid (procs s c)) \<and> load32 st u' = Ret u' status"
proof -
  have e: "procs (out_state (sys_exit status s)) = procs (ended status s)"
    using sys_exit_ok [OF assms(1), of status] assms(2,13) by (simp add: Let_def panic_def hw_ops)
  show ?thesis
    by (rule exit_then_wait [OF assms(1-4,6,7) _ assms(9) _ assms(10) aligned_separate [OF assms(10-12)]])
      (use e assms(5,8) in simp_all)
qed

theorem exit_code_reaches_parent_witness:
  "\<exists>u'. sys_wait 0x300000 0x310000 (out_state (sys_exit 42 (demo_with (\<lambda>p. p) (\<lambda>p. p) (asleep_until 100) 0x101000))) = Ret u' 2 \<and>
    load32 0x300000 u' = Ret u' 42"
proof -
  let ?s = "demo_with (\<lambda>p. p) (\<lambda>p. p) (asleep_until 100) 0x101000"
  let ?u = "(ended 42 ?s)\<lparr>current_process := 0x100000\<rparr>"
  have k: "kernel_ok ?s demo_list" by (rule demo_with_kernel) simp_all
  then have ok: "sched_ok ?s demo_list" "parents_ok ?s demo_list" by (simp_all add: kernel_ok_def)
  have e: "out_state (sys_exit 42 ?s) = ?u"
    using exit_to_parent [OF ok, of "0x100000" 42] by simp
  have u: "sched_ok ?u demo_list" by (rule sched_ok_current [OF sched_ok_ended [OF ok(1)]]) simp
  have pu: "parents_ok ?u demo_list" using ok(2) by (simp add: parents_ok_def)
  have on: "paging_on ?u"
    using demo_on by (simp add: ended_def buried_def update_proc_def demo_with_def demo_procs_def Let_def)
  have m: "mapped ?u 0x300000 4"
    by (simp add: mapped_def unat_word_ariths unat_of_nat_u32)
  show ?thesis unfolding e
    using exit_code_reaches_parent [OF ok(1), of "0x101000" ?u 42 "0x300000" "0x310000"] u pu on m e by simp
qed



text \<open>
  C28. The exit of a child brings a parent that is a zombie back to life: it is made ready and,
  when nothing else is ready, resumed.
\<close>

theorem exit_resumes_dead_parent:
  assumes "sched_ok s ps" "parents_ok s ps" "q = parent (procs s (current_process s))" "q \<in> set ps" "q \<noteq> current_process s"
    and "pstate (procs s q) = PROCESS_ZOMBIE"
    and "\<forall>p \<in> set ps. p \<noteq> current_process s \<longrightarrow> pstate (procs s p) \<noteq> PROCESS_READY"
  shows "\<exists>s'. sys_exit status s = Stop s' (Resume (regs (procs s q))) \<and> current_process s' = q \<and>
    pstate (procs s' q) = PROCESS_READY"
  using exit_to_parent [OF assms(1-5), of status] assms(3,7) plistD(4) [OF sched_okD(1) [OF assms(1)]] assms(4) by auto

theorem exit_resumes_dead_parent_witness:
  "\<exists>s'. sys_exit 1 (demo_with (in_state PROCESS_ZOMBIE) (\<lambda>p. p) (asleep_until 100) 0x101000) = Stop s' (Resume 0x110000) \<and>
     current_process s' = 0x100000"
proof -
  let ?s = "demo_with (in_state PROCESS_ZOMBIE) (\<lambda>p. p) (asleep_until 100) 0x101000"
  have "kernel_ok ?s demo_list" by (rule demo_with_kernel) simp_all
  then have "sched_ok ?s demo_list" "parents_ok ?s demo_list" by (simp_all add: kernel_ok_def)
  from exit_resumes_dead_parent [OF this, of "0x100000" 1] show ?thesis by auto
qed

section \<open>Programs\<close>



text \<open>
  C30. From any state and for any file contents, loading never loops for ever: it returns or stops
  with a fault or undefined behaviour.
\<close>

theorem elf_loading_ends: "elf_load_file fl s \<noteq> Stop t Diverges"
  using ends_elf_load_file [of fl s] by (simp add: ends_def)

text \<open>
  C31. A user program that prints a string and exits through the system calls leaves on the screen
  what the kernel prints for that string, becomes a zombie with exit code 0, and its parent is
  resumed when no third process is ready.
\<close>

theorem program_prints_and_exits:
  assumes "sched_ok s ps" "parents_ok s ps" "translate s (trap_frame s) \<noteq> None" "c_string s msg cs"
    and "c = current_process s" "q = parent (procs s c)" "q \<in> set ps" "q \<noteq> c"
    and "\<forall>p \<in> set ps. p \<noteq> q \<and> p \<noteq> c \<longrightarrow> pstate (procs s p) \<noteq> PROCESS_READY"
  shows "\<exists>t. hello_start msg x s = Stop t (Resume (regs (procs s q))) \<and> current_process t = q \<and>
    pstate (procs t c) = PROCESS_ZOMBIE \<and> exit_code (procs t c) = 0 \<and> vram t = vram (kprint cs s)"
proof -
  have e: "sched_ok (entered SYS_EXIT (\<lambda>x. x\<lparr>r_ebx := 0\<rparr>) x (said msg cs x s)) ps"
    by (rule sched_ok_entered [OF sched_ok_said [OF assms(1)]])
  let ?e = "entered SYS_EXIT (\<lambda>x. x\<lparr>r_ebx := 0\<rparr>) x (said msg cs x s)"
  have q0: "q \<noteq> 0" using plistD(4) [OF sched_okD(1) [OF assms(1)]] assms(7) by auto
  have ch: "chosen (ended 0 ?e) ps = q"
    by (rule chosen_only [OF sched_okD(1) [OF sched_ok_ended [OF e]]])
      (use assms(5-9) q0 sched_okD(2) [OF assms(1)] in auto)
  have h: "hello_start msg x s = Stop ((ended 0 ?e)\<lparr>current_process := q\<rparr>) (Resume (regs (procs s q)))"
    using hello_start_ok [OF assms(3,1,2,4) refl, of x] ch q0 by simp
  have "vram (ended 0 ?e) = vram (said msg cs x s)"
    by (simp add: ended_def buried_def update_proc_def entered_def update_regs_def Let_def)
  also have "\<dots> = vram (kprint cs s)"
    unfolding said_def by (rule kprint_screen) (simp_all add: entered_def update_regs_def)
  finally have v: "vram (ended 0 ?e) = vram (kprint cs s)" .
  have "pstate (procs (ended 0 ?e) c) = PROCESS_ZOMBIE" "exit_code (procs (ended 0 ?e) c) = 0"
    using assms(5,6,8) by auto
  with h v show ?thesis by simp
qed

theorem program_prints_and_exits_witness:
  "\<exists>t. hello_start 0x300000 zero_registers (demo_hello\<lparr>current_process := 0x101000,
      procs := (procs demo_hello)(0x102000 := asleep_until 9 (procs demo_hello 0x102000))\<rparr>) = Stop t (Resume 0x110000) \<and>
    exit_code (procs t 0x101000) = 0"
proof -
  let ?s = "demo_hello\<lparr>current_process := 0x101000,
    procs := (procs demo_hello)(0x102000 := asleep_until 9 (procs demo_hello 0x102000))\<rparr>"
  have t: "translate ?s v = translate demo_hello v" "ram ?s = ram demo_hello" for v by (simp_all add: demo_hello_def)
  have k: "sched_ok ?s demo_list"
    by (rule sched_ok_cong [of demo_hello]) (use demo_hello_kernel t in \<open>auto simp: kernel_ok_def\<close>)
  have p: "parents_ok ?s demo_list"
    using demo_hello_kernel t by (simp add: kernel_ok_def parents_ok_def)
  have m: "c_string ?s 0x300000 [104, 105]"
    unfolding c_string_cong [OF t] by (rule demo_hello_string)
  have f: "trap_frame ?s = 0x113FBC" using demo_hello_fields(5) by (simp add: trap_frame_def)
  have "\<exists>t. hello_start 0x300000 zero_registers ?s = Stop t (Resume (regs (procs ?s 0x100000))) \<and>
    current_process t = 0x100000 \<and> pstate (procs t 0x101000) = PROCESS_ZOMBIE \<and> exit_code (procs t 0x101000) = 0 \<and>
    vram t = vram (kprint [104, 105] ?s)"
  proof (rule program_prints_and_exits [OF k p _ m])
    show "translate ?s (trap_frame ?s) \<noteq> None" unfolding f t by simp
  qed simp_all
  then show ?thesis by auto
qed



section \<open>Devices\<close>

text \<open>
  C33. Printing any string from a cursor on the screen leaves the cursor on the screen and writes
  no byte outside the 4000 bytes of video memory.
\<close>

theorem print_string_on_screen:
  assumes "on_screen (scr_i s)"
  shows "on_screen (scr_i (kprint str s)) \<and> (\<forall>x. x < 0 \<or> 4000 \<le> x \<longrightarrow> vram (kprint str s) x = vram s x)"
  using kprint_safe [OF assms, of str] by (simp add: screen_safe_def)

theorem print_string_on_screen_witness: "on_screen (scr_i (kprint (str_bytes ''kernel'') boot_screen))"
  using print_string_on_screen [of boot_screen "str_bytes ''kernel''"]
  by (simp add: on_screen_def)

text \<open>
  C34. The nested copy loops of add_line move every line up by one and fill the last one with white
  blanks, and nothing else.
\<close>

theorem scroll_moves_up:
  "scroll v = (\<lambda>x. if 0 \<le> x \<and> x < 3840 then v (x + 160)
                   else if 3840 \<le> x \<and> x < 4000 then (if even x then 0x20 else 0x0F)
                   else v x)"
  by (rule scroll_eq)



text \<open>
  C36. At boot the gates of the timer, the keyboard, the three faults and the system call decode to
  their handlers, only the system call gate can be used from user mode, and the table is
  loaded before interrupts are enabled.
\<close>

theorem interrupt_table:
  "gate_offset (idt (setup_interrupts l s) 32) = irq0_addr l \<and> gate_offset (idt (setup_interrupts l s) 33) = keyboard_addr l \<and>
   gate_offset (idt (setup_interrupts l s) 8) = isr8_addr l \<and> gate_offset (idt (setup_interrupts l s) 13) = isr13_addr l \<and>
   gate_offset (idt (setup_interrupts l s) 14) = isr14_addr l \<and> gate_offset (idt (setup_interrupts l s) 0x80) = syscall_addr l \<and>
   {n \<in> {8, 13, 14, 32, 33, 0x80}. gate_dpl (idt (setup_interrupts l s) n) = 3} = {0x80} \<and>
   (\<exists>es. hw_trace (setup_interrupts l s) = hw_trace s @ es \<and>
      filter (\<lambda>e. e \<in> {Lidt 2047 (addr_idt s), Sti}) es = [Lidt 2047 (addr_idt s), Sti, Sti])"
proof -
  note G = setup_interrupts_gates(7,8) [where l = l and s = s]
  have "gate_dpl (idt (setup_interrupts l s) n) \<noteq> 3" if "n \<in> {8, 13, 14, 32, 33}" for n
    using G(2) [OF that] by simp
  with G(1) have "{n \<in> {8, 13, 14, 32, 33, 0x80}. gate_dpl (idt (setup_interrupts l s) n) = 3} = {0x80}" by auto
  moreover have "\<exists>es. hw_trace (setup_interrupts l s) = hw_trace s @ es \<and>
      filter (\<lambda>e. e \<in> {Lidt 2047 (addr_idt s), Sti}) es = [Lidt 2047 (addr_idt s), Sti, Sti]"
    unfolding setup_interrupts_trace remap_pic_trace append_assoc by (rule exI, rule conjI [OF refl]) simp
  ultimately show ?thesis using setup_interrupts_gates(1-6) [where l = l and s = s] by blast
qed





text \<open>
  C39. Typing fewer than 128 printable keys and Enter leaves the characters of the keys in the
  command buffer, terminated by NUL, and raises command_ready.
\<close>

theorem keyboard_line:
  assumes "port_in s 0x60 = codes @ [0x1C]" "\<forall>code \<in> set codes. printable (key_of_scancode code)"
    and "scr_i s + int (length codes) < 2000" "length codes < 128" "command_index s = 0"
  shows "\<exists>s'. keyboard_run (length codes + 1) s = Ret s' () \<and> command_ready s' = 1 \<and>
     map (\<lambda>k. command s' (int k)) [0..<length codes] =
       map (\<lambda>code. word_of_int (key_of_scancode code)) codes \<and>
     command s' (int (length codes)) = 0"
  by (rule typed_line [OF assms])

theorem keyboard_line_witness:
  "\<exists>s'. keyboard_run 3 (boot_kbd\<lparr>port_in := (\<lambda>_. [0x23, 0x17, 0x1C])\<rparr>) = Ret s' () \<and> command s' 0 = 0x68 \<and> command s' 1 = 0x69"
proof -
  have k: "key_of_scancode 0x23 = 104" "key_of_scancode 0x17 = 105"
    by (simp_all add: key_of_scancode_def scancode_table_def chr_def)
  have two: "[0..<2] = [0, 1]" by (simp add: upt_rec)
  show ?thesis
    using keyboard_line [of "boot_kbd\<lparr>port_in := (\<lambda>_. [0x23, 0x17, 0x1C])\<rparr>" "[0x23, 0x17]"]
    by (auto simp: printable_def k two numeral_3_eq_3 simp del: keyboard_run.simps)
qed

text \<open>
  C40. The 129th character of a line is written outside the command buffer.
\<close>

theorem keyboard_buffer_overrun:
  assumes "port_in s 0x60 = code # rest" "printable (key_of_scancode code)" "command_index s = 128"
  shows "\<exists>s'. keyboard_handler s = Stop s' Undefined"
  by (rule handler_full_line [OF assms])

theorem keyboard_buffer_overrun_witness:
  "\<exists>s'. keyboard_handler (boot_kbd\<lparr>port_in := (\<lambda>_. [0x1E]), command_index := 128\<rparr>) = Stop s' Undefined"
  by (rule keyboard_buffer_overrun [where code = "0x1E"])
    (simp_all add: key_of_scancode_def scancode_table_def printable_def chr_def)

end
